(* ===== verification/Prelude.thy ===== *)
theory Prelude
  imports Main "HOL-Library.Word" "HOL-Library.Monad_Syntax"
begin

unbundle bit_operations_syntax

text \<open>
  Shared vocabulary of the development.

  The system is a 32-bit one (\<^verbatim>\<open>components/include/cstub.h\<close> pushes 32-bit registers).
  Unsigned machine words whose wrap-around matters are \<open>32 word\<close>; \<^verbatim>\<open>long\<close>,
  \<^verbatim>\<open>int\<close> and \<^verbatim>\<open>void *\<close> values that the code only compares, indexes with or stores
  are \<open>int\<close>, read as signed 32-bit numbers (so \<^verbatim>\<open>NULL\<close> is 0 and
  \<^verbatim>\<open>(void * )-1\<close> is -1).

  A computation that may stop has an \<open>option\<close> result. \<open>None\<close> is a computation that
  does not come back: a failed \<^verbatim>\<open>assert\<close>, a \<^verbatim>\<open>BUG()\<close> (both store to address 0,
  \<^verbatim>\<open>components/include/cos_debug.h\<close>), or a retry loop whose bound ran out. Error
  codes and \<^verbatim>\<open>NULL\<close> results are ordinary values.
\<close>

type_synonym u32 = "32 word"
type_synonym addr = int
type_synonym spdid = int
type_synonym thdid = int

abbreviation NULL :: addr where
  "NULL \<equiv> 0"

text \<open>The error codes the stubs test, as the C library numbers them.\<close>

abbreviation EINVAL :: int where
  "EINVAL \<equiv> 22"

abbreviation ECHILD :: int where
  "ECHILD \<equiv> 10"

abbreviation ELOOP :: int where
  "ELOOP \<equiv> 40"

abbreviation PAGE_SIZE :: int where
  "PAGE_SIZE \<equiv> 4096"

definition assert_that :: "bool \<Rightarrow> unit option" where
  "assert_that p = (if p then Some () else None)"

lemma assert_that_simps [simp]:
  "assert_that True = Some ()"
  "assert_that False = None"
  by (simp_all add: assert_that_def)

lemma assert_that_eq_Some [simp]: "assert_that p = Some u \<longleftrightarrow> p"
  by (simp add: assert_that_def)

lemma assert_that_bind_Some [simp]:
  "(assert_that p \<bind> f = Some y) \<longleftrightarrow> p \<and> f () = Some y"
  by (cases p) simp_all

lemma assert_that_True [simp]: "p \<Longrightarrow> assert_that p = Some ()"
  by simp

section \<open>Retry loops\<close>

text \<open>
  Every client stub is a loop of the form \<^verbatim>\<open>redo: ...; if (...) goto redo; ... return ret\<close>.
  One turn of the loop is a state transformer whose result says whether to go round again;
  the loop itself takes a bound on the number of turns.
\<close>

datatype 'r turn = Redo | Return 'r

fun redo :: "nat \<Rightarrow> ('s \<Rightarrow> ('r turn \<times> 's) option) \<Rightarrow> 's \<Rightarrow> ('r \<times> 's) option" where
  "redo 0 body s = None"
| "redo (Suc n) body s =
     (case body s of
        None \<Rightarrow> None
      | Some (Redo, s') \<Rightarrow> redo n body s'
      | Some (Return r, s') \<Rightarrow> Some (r, s'))"

lemma redo_mono: "redo n body s = Some x \<Longrightarrow> n \<le> m \<Longrightarrow> redo m body s = Some x"
proof (induction n arbitrary: m s)
  case 0
  then show ?case by simp
next
  case (Suc n)
  then obtain m' where "m = Suc m'" and "n \<le> m'" by (cases m) auto
  with Suc show ?case by (auto split: option.splits turn.splits prod.splits)
qed

text \<open>
  The total-correctness rule of the loop: every turn from a state of the invariant comes
  back, keeps the invariant, and either returns with the postcondition or decreases the
  measure. More turns than the measure are enough.
\<close>

lemma redo_total:
  assumes inv: "I s"
    and turn: "\<And>s. I s \<Longrightarrow>
        (\<exists>s'. body s = Some (Redo, s') \<and> I s' \<and> mu s' < (mu s :: nat))
      \<or> (\<exists>r s'. body s = Some (Return r, s') \<and> Q r s')"
    and fuel: "mu s < n"
  shows "\<exists>r s'. redo n body s = Some (r, s') \<and> Q r s'"
  using inv fuel
proof (induction n arbitrary: s)
  case 0
  then show ?case by simp
next
  case (Suc n)
  from turn [OF Suc.prems(1)] show ?case
  proof (elim disjE exE conjE)
    fix s' assume "body s = Some (Redo, s')" and I: "I s'" and "mu s' < mu s"
    moreover have "\<exists>r s''. redo n body s' = Some (r, s'') \<and> Q r s''"
      using I Suc.prems(2) \<open>mu s' < mu s\<close> by (intro Suc.IH) auto
    ultimately show ?thesis by simp
  next
    fix r s' assume "body s = Some (Return r, s')" and "Q r s'"
    then show ?thesis by simp
  qed
qed

text \<open>More turns than the measure change nothing: the loop does not run out.\<close>

lemma redo_fuel:
  assumes "I s"
    and "\<And>s s'. I s \<Longrightarrow> body s = Some (Redo, s') \<Longrightarrow> I s' \<and> mu s' < (mu s :: nat)"
    and "mu s < n" "mu s < m"
  shows "redo n body s = redo m body s"
  using assms(1,3,4)
proof (induction n arbitrary: m s)
  case 0
  then show ?case by simp
next
  case (Suc n)
  then obtain k where k: "m = Suc k" by (cases m) auto
  have "redo n body s' = redo k body s'" if "body s = Some (Redo, s')" for s'
    using assms(2) [OF Suc.prems(1) that] Suc.prems(2,3) k by (intro Suc.IH) auto
  then show ?case by (auto simp: k split: option.splits prod.splits turn.splits)
qed

text \<open>Partial correctness: an invariant of the turns gives the postcondition of every return.\<close>

lemma redo_partial:
  assumes "redo n body s = Some (r, s')"
    and "I s"
    and "\<And>s s'. I s \<Longrightarrow> body s = Some (Redo, s') \<Longrightarrow> I s'"
    and "\<And>s r s'. I s \<Longrightarrow> body s = Some (Return r, s') \<Longrightarrow> Q r s'"
  shows "Q r s'"
  using assms(1,2)
proof (induction n arbitrary: s)
  case 0
  then show ?case by simp
next
  case (Suc n)
  then show ?case
    using assms(3,4) by (auto split: option.splits turn.splits prod.splits)
qed

text \<open>A loop whose turns act on an abstraction of the state as another loop does.\<close>

lemma redo_abs:
  assumes "I s"
    and "\<And>s. I s \<Longrightarrow> map_option (map_prod id \<alpha>) (body s) = body' (\<alpha> s)"
    and "\<And>s s'. I s \<Longrightarrow> body s = Some (Redo, s') \<Longrightarrow> I s'"
  shows "map_option (map_prod id \<alpha>) (redo n body s) = redo n body' (\<alpha> s)"
  using assms(1)
proof (induction n arbitrary: s)
  case (Suc n)
  note ab = assms(2) [OF Suc.prems, symmetric]
  show ?case
  proof (cases "body s")
    case None
    then show ?thesis using ab by simp
  next
    case (Some x)
    obtain t s' where x: "x = (t, s')" by (cases x)
    show ?thesis
    proof (cases t)
      case Redo
      then have "body s = Some (Redo, s')" using Some x by simp
      from Suc.IH [OF assms(3) [OF Suc.prems this]] show ?thesis using ab Some x Redo by simp
    qed (use ab Some x in simp)
  qed
qed simp

section \<open>Lists as C arrays\<close>

lemma nth_list_update_if:
  "i < length xs \<Longrightarrow> xs[i := v] ! j = (if i = j then v else xs ! j)"
  by (simp add: nth_list_update)

end
