(* ===== verification/RingBuf.thy ===== *)
theory RingBuf
  imports Prelude
begin

text \<open>
  The byte ring buffer of \<^verbatim>\<open>components/include/cringbuf.h\<close>, shared between a producer and
  a consumer. \<^verbatim>\<open>head\<close> is the next byte to read and \<^verbatim>\<open>tail\<close> the next byte to write; one
  byte always stays free. Extents are pairs of a start index and a length, \<^verbatim>\<open>NULL\<close> is
  \<^const>\<open>None\<close>. Compiled without \<^verbatim>\<open>CRINGBUF_CAUTIOUS\<close>, the debugging calls are empty.
\<close>

type_synonym byte = "8 word"

record cringbuf =
  rb_sz :: int
  rb_head :: int
  rb_tail :: int
  rb_buffer :: "byte list"

definition cringbuf_init :: "byte list \<Rightarrow> int \<Rightarrow> cringbuf" where
  "cringbuf_init buffer alloc_sz = \<lparr>rb_sz = alloc_sz - 8, rb_head = 0, rb_tail = 0, rb_buffer = buffer\<rparr>"

definition cringbuf_empty :: "cringbuf \<Rightarrow> bool" where
  "cringbuf_empty rb \<longleftrightarrow> rb_head rb = rb_tail rb"

definition cringbuf_sz :: "cringbuf \<Rightarrow> int" where
  "cringbuf_sz rb =
     (let head = rb_head rb; tail = rb_tail rb
      in if head \<le> tail then tail - head else rb_sz rb - (head - tail))"

definition cringbuf_empty_sz :: "cringbuf \<Rightarrow> int" where
  "cringbuf_empty_sz rb = rb_sz rb - 1 - cringbuf_sz rb"

definition cringbuf_full :: "cringbuf \<Rightarrow> bool option" where
  "cringbuf_full rb = do {
     assert_that (cringbuf_sz rb \<le> rb_sz rb - 1);
     Some (cringbuf_sz rb = rb_sz rb - 1) }"

definition cringbuf_active_extent :: "cringbuf \<Rightarrow> int \<Rightarrow> (int \<times> int) option option" where
  "cringbuf_active_extent rb amnt =
     (if cringbuf_empty rb then Some None
      else let head = rb_head rb; tail = rb_tail rb in do {
        assert_that (head \<noteq> tail);
        let len = (if head < tail then tail - head else rb_sz rb - head);
            len = (if len > amnt then amnt else len)
        in Some (Some (head, len)) })"

definition cringbuf_inactive_extent :: "cringbuf \<Rightarrow> int \<Rightarrow> (int \<times> int) option option" where
  "cringbuf_inactive_extent rb amnt = do {
     full \<leftarrow> cringbuf_full rb;
     if full then Some None
     else let head = rb_head rb; tail = rb_tail rb;
              len = (if head \<le> tail then rb_sz rb - tail else head - tail - 1);
              len = (if len > amnt then amnt else len)
          in Some (Some (tail, len)) }"

definition cringbuf_delete :: "cringbuf \<Rightarrow> int \<Rightarrow> cringbuf option" where
  "cringbuf_delete rb amnt = do {
     c \<leftarrow> cringbuf_active_extent rb amnt;
     (case c of None \<Rightarrow> None
      | Some (_, l) \<Rightarrow> do {
          assert_that (l \<le> amnt);
          let nhead = rb_head rb + l in do {
          assert_that (nhead \<le> rb_sz rb);
          let nhead = (if nhead = rb_sz rb then 0 else nhead) in
          Some (rb\<lparr>rb_head := nhead\<rparr>) } }) }"

definition cringbuf_add :: "cringbuf \<Rightarrow> int \<Rightarrow> cringbuf option" where
  "cringbuf_add rb amnt = do {
     c \<leftarrow> cringbuf_inactive_extent rb amnt;
     (case c of None \<Rightarrow> None
      | Some (_, l) \<Rightarrow> do {
          assert_that (l \<le> amnt);
          let ntail = rb_tail rb + l in do {
          assert_that (ntail \<le> rb_sz rb);
          let ntail = (if ntail = rb_sz rb then 0 else ntail);
              rb = rb\<lparr>rb_tail := ntail\<rparr> in do {
          assert_that (ntail \<noteq> rb_head rb);
          assert_that (ntail < rb_sz rb);
          Some rb } } }) }"

text \<open>\<^verbatim>\<open>memcpy\<close> out of and into the buffer.\<close>

definition read_at :: "byte list \<Rightarrow> int \<Rightarrow> int \<Rightarrow> byte list" where
  "read_at buf i l = take (nat l) (drop (nat i) buf)"

definition write_at :: "byte list \<Rightarrow> int \<Rightarrow> byte list \<Rightarrow> byte list" where
  "write_at buf i bs = take (nat i) buf @ bs @ drop (nat i + length bs) buf"

definition ringbuf_consume_some :: "cringbuf \<Rightarrow> int \<Rightarrow> (byte list \<times> cringbuf) option" where
  "ringbuf_consume_some rb amnt = do {
     t \<leftarrow> cringbuf_active_extent rb amnt;
     (case t of None \<Rightarrow> Some ([], rb)
      | Some (i, l) \<Rightarrow> do {
          let bs = read_at (rb_buffer rb) i l in do {
          rb \<leftarrow> cringbuf_delete rb l;
          Some (bs, rb) } }) }"

definition ringbuf_produce_some :: "cringbuf \<Rightarrow> byte list \<Rightarrow> int \<Rightarrow> (int \<times> cringbuf) option" where
  "ringbuf_produce_some rb b amnt = do {
     t \<leftarrow> cringbuf_inactive_extent rb amnt;
     (case t of None \<Rightarrow> Some (0, rb)
      | Some (i, l) \<Rightarrow>
          let rb = rb\<lparr>rb_buffer := write_at (rb_buffer rb) i (take (nat l) b)\<rparr> in do {
          assert_that (l + rb_tail rb \<le> rb_sz rb);
          rb \<leftarrow> cringbuf_add rb l;
          assert_that (rb_tail rb < rb_sz rb);
          Some (l, rb) }) }"

text \<open>The bytes consumed are the result; their number is what the function returns.\<close>

definition cringbuf_consume :: "cringbuf \<Rightarrow> int \<Rightarrow> (byte list \<times> cringbuf) option" where
  "cringbuf_consume rb amnt = do {
     (b1, rb) \<leftarrow> ringbuf_consume_some rb amnt;
     let left = amnt - int (length b1) in
     if left \<noteq> 0 then do {
       (b2, rb) \<leftarrow> ringbuf_consume_some rb left;
       Some (b1 @ b2, rb) }
     else Some (b1, rb) }"

definition cringbuf_produce :: "cringbuf \<Rightarrow> byte list \<Rightarrow> int \<Rightarrow> (int \<times> cringbuf) option" where
  "cringbuf_produce rb b amnt = do {
     (l1, rb) \<leftarrow> ringbuf_produce_some rb b amnt;
     let left = amnt - l1 in
     if left \<noteq> 0 then do {
       (l2, rb) \<leftarrow> ringbuf_produce_some rb (drop (nat (amnt - left)) b) left;
       Some (amnt - (left - l2), rb) }
     else Some (amnt - left, rb) }"

section \<open>The buffer as a queue of bytes\<close>

definition rb_inv :: "cringbuf \<Rightarrow> bool" where
  "rb_inv rb \<longleftrightarrow> 0 \<le> rb_head rb \<and> rb_head rb < rb_sz rb \<and> 0 \<le> rb_tail rb \<and> rb_tail rb < rb_sz rb
     \<and> int (length (rb_buffer rb)) = rb_sz rb"

definition contents :: "cringbuf \<Rightarrow> byte list" where
  "contents rb =
     (if rb_head rb \<le> rb_tail rb then read_at (rb_buffer rb) (rb_head rb) (rb_tail rb - rb_head rb)
      else drop (nat (rb_head rb)) (rb_buffer rb) @ take (nat (rb_tail rb)) (rb_buffer rb))"

lemma length_contents: "rb_inv rb \<Longrightarrow> int (length (contents rb)) = cringbuf_sz rb"
  by (auto simp: rb_inv_def contents_def cringbuf_sz_def read_at_def Let_def)

lemma cringbuf_full_eq: "rb_inv rb \<Longrightarrow> cringbuf_full rb = Some (cringbuf_sz rb = rb_sz rb - 1)"
  by (auto simp: cringbuf_full_def rb_inv_def cringbuf_sz_def Let_def)

text \<open>The number of bytes before the end of the memory.\<close>

definition run_len :: "cringbuf \<Rightarrow> int" where
  "run_len rb = (if rb_head rb \<le> rb_tail rb then rb_tail rb - rb_head rb else rb_sz rb - rb_head rb)"

text \<open>One step of consuming takes the bytes up to the end of the memory.\<close>

lemma consume_some_ok:
  assumes inv: "rb_inv rb" and n: "0 \<le> amnt"
  obtains rb' where "ringbuf_consume_some rb amnt = Some (take (nat (min amnt (run_len rb))) (contents rb), rb')"
    "rb_inv rb'" "contents rb' = drop (nat (min amnt (run_len rb))) (contents rb)"
    "run_len rb \<le> amnt \<longrightarrow> rb_head rb' \<le> rb_tail rb'"
proof (cases "rb_head rb = rb_tail rb")
  case True
  then show thesis
    using that [of rb] inv n by (simp add: ringbuf_consume_some_def cringbuf_active_extent_def cringbuf_empty_def
        contents_def read_at_def rb_inv_def run_len_def)
next
  case False
  define l where "l = run_len rb"
  define k where "k = min amnt l"
  have lr: "l = run_len rb" by (fact l_def)
  note l_def = l_def [unfolded run_len_def]
  let ?h = "if rb_head rb + k = rb_sz rb then 0 else rb_head rb + k"
  have k: "0 \<le> k" "k \<le> l" "k \<le> amnt" using inv n by (auto simp: k_def l_def rb_inv_def)
  have l: "0 < l" "rb_head rb + l \<le> rb_sz rb" using inv False by (auto simp: l_def rb_inv_def)
  have ext: "cringbuf_active_extent rb x = Some (Some (rb_head rb, min x l))" for x
    using False by (auto simp: cringbuf_active_extent_def cringbuf_empty_def l_def Let_def)
  have del: "cringbuf_delete rb k = Some (rb\<lparr>rb_head := ?h\<rparr>)"
    using k l by (simp add: cringbuf_delete_def ext Let_def)
  have rd: "read_at (rb_buffer rb) (rb_head rb) k = take (nat k) (contents rb)"
    using k l inv by (auto simp: contents_def read_at_def l_def rb_inv_def min_def)
  let ?rb = "rb\<lparr>rb_head := ?h\<rparr>"
  have "ringbuf_consume_some rb amnt = Some (take (nat k) (contents rb), ?rb)"
    using del by (simp add: ringbuf_consume_some_def ext rd Let_def flip: k_def)
  moreover have "rb_inv ?rb" using inv k l by (auto simp: rb_inv_def)
  moreover have "contents ?rb = drop (nat k) (contents rb)"
  proof (cases "rb_head rb < rb_tail rb")
    case True
    then have h: "?h = rb_head rb + k" "rb_head rb + k \<le> rb_tail rb" using k inv by (auto simp: l_def rb_inv_def)
    have "nat (rb_head rb + k) = nat k + nat (rb_head rb)" "nat (rb_tail rb - (rb_head rb + k)) = nat (rb_tail rb - rb_head rb) - nat k"
      using k inv by (auto simp: rb_inv_def nat_add_distrib)
    then show ?thesis using True h by (simp add: contents_def read_at_def drop_take)
  next
    case gt: False
    have l': "l = rb_sz rb - rb_head rb" using gt False by (simp add: l_def)
    show ?thesis
    proof (cases "k = l")
      case True
      then have "nat k = length (drop (nat (rb_head rb)) (rb_buffer rb))" using inv l' by (auto simp: rb_inv_def)
      then show ?thesis using True l' gt False inv by (simp add: contents_def read_at_def rb_inv_def)
    next
      case lt: False
      then have "nat k \<le> length (drop (nat (rb_head rb)) (rb_buffer rb))" "nat (rb_head rb + k) = nat k + nat (rb_head rb)"
        using inv l' k by (auto simp: rb_inv_def nat_add_distrib)
      then show ?thesis using lt l' gt False k by (simp add: contents_def)
    qed
  qed
  moreover have "run_len rb \<le> amnt \<longrightarrow> rb_head ?rb \<le> rb_tail ?rb"
    using inv False by (auto simp: k_def run_len_def l_def rb_inv_def)
  ultimately show thesis unfolding k_def lr by (rule that)
qed


lemma cringbuf_consume_ok:
  assumes inv: "rb_inv rb" and n: "0 \<le> amnt"
  shows "\<exists>rb'. cringbuf_consume rb amnt = Some (take (nat amnt) (contents rb), rb') \<and> rb_inv rb' \<and>
    contents rb' = drop (nat amnt) (contents rb)"
proof -
  define k where "k = min amnt (run_len rb)"
  obtain rb1 where c1: "ringbuf_consume_some rb amnt = Some (take (nat k) (contents rb), rb1)" and i1: "rb_inv rb1"
    and s1: "contents rb1 = drop (nat k) (contents rb)" and h1: "run_len rb \<le> amnt \<longrightarrow> rb_head rb1 \<le> rb_tail rb1"
    unfolding k_def by (rule consume_some_ok [OF inv n])
  have len: "int (length (contents rb)) = cringbuf_sz rb" by (rule length_contents [OF inv])
  have kl: "0 \<le> k" "k \<le> cringbuf_sz rb" "k \<le> amnt"
    using inv n by (auto simp: k_def run_len_def cringbuf_sz_def rb_inv_def Let_def)
  have lk: "int (length (take (nat k) (contents rb))) = k" using kl len by simp
  show ?thesis
  proof (cases "k = amnt")
    case True
    then show ?thesis using c1 i1 s1 lk by (simp add: cringbuf_consume_def)
  next
    case False
    then have kl': "run_len rb \<le> amnt" "k < amnt" using kl by (auto simp: k_def)
    let ?m = "amnt - k"
    have rl: "run_len rb1 = int (length (contents rb1))"
      using length_contents [OF i1] h1 kl'(1) by (simp add: cringbuf_sz_def run_len_def Let_def)
    obtain rb2 where c2: "ringbuf_consume_some rb1 ?m = Some (take (nat (min ?m (run_len rb1))) (contents rb1), rb2)"
      and i2: "rb_inv rb2" and s2: "contents rb2 = drop (nat (min ?m (run_len rb1))) (contents rb1)"
      by (rule consume_some_ok [OF i1, of ?m]) (use kl' in auto)
    have t: "take (nat (min ?m (run_len rb1))) (contents rb1) = take (nat ?m) (contents rb1)"
      and d: "drop (nat (min ?m (run_len rb1))) (contents rb1) = drop (nat ?m) (contents rb1)"
      unfolding rl by (auto simp: min_def)
    have nm: "nat amnt = nat k + nat ?m" using kl kl' by simp
    have "take (nat k) (contents rb) @ take (nat ?m) (contents rb1) = take (nat amnt) (contents rb)"
      unfolding s1 nm by (simp add: take_add)
    moreover have "drop (nat ?m) (contents rb1) = drop (nat amnt) (contents rb)" unfolding s1 nm by (simp add: add.commute)
    ultimately show ?thesis
      using c1 c2 i2 s2 lk kl' unfolding t d by (simp add: cringbuf_consume_def)
  qed
qed

text \<open>One step of producing writes up to the end of the memory, or up to the byte before the head.\<close>

lemma contents_write:
  assumes inv: "rb_inv rb" and k: "length bs = nat k" "0 \<le> k" "rb_tail rb + k \<le> rb_sz rb"
    and gap: "rb_tail rb < rb_head rb \<Longrightarrow> rb_tail rb + k < rb_head rb"
    and wrap: "rb_tail rb + k = rb_sz rb \<Longrightarrow> rb_head rb \<noteq> 0"
  defines "rb' \<equiv> rb\<lparr>rb_buffer := write_at (rb_buffer rb) (rb_tail rb) bs,
      rb_tail := (if rb_tail rb + k = rb_sz rb then 0 else rb_tail rb + k)\<rparr>"
  shows "rb_inv rb'" "contents rb' = contents rb @ bs"
proof -
  let ?H = "nat (rb_head rb)" and ?T = "nat (rb_tail rb)" and ?K = "nat k" and ?b = "rb_buffer rb"
  have r: "0 \<le> rb_head rb" "rb_head rb < rb_sz rb" "0 \<le> rb_tail rb" "rb_tail rb < rb_sz rb"
    "int (length ?b) = rb_sz rb" using inv by (auto simp: rb_inv_def)
  have lenT: "?T + ?K \<le> length ?b" using r k by linarith
  have w: "write_at ?b (rb_tail rb) bs = take ?T ?b @ bs @ drop (?T + ?K) ?b" by (simp add: write_at_def k)
  show "rb_inv rb'" using r k lenT by (auto simp: rb_inv_def rb'_def w)
  have nt: "nat (rb_tail rb + k) = ?T + ?K" using r k by (simp add: nat_add_distrib)
  show "contents rb' = contents rb @ bs"
  proof (cases "rb_head rb \<le> rb_tail rb")
    case le: True
    then have HT: "?H \<le> ?T" "?T \<le> length ?b" using r lenT by auto
    have old: "contents rb = drop ?H (take ?T ?b)"
      using le r by (simp add: contents_def read_at_def drop_take nat_diff_distrib)
    show ?thesis
    proof (cases "rb_tail rb + k = rb_sz rb")
      case True
      then have "drop (?T + ?K) ?b = []" using r lenT nt by auto
      then show ?thesis using True wrap r HT unfolding old contents_def [of rb'] by (simp add: rb'_def w)
    next
      case False
      have "nat (rb_tail rb + k - rb_head rb) = ?T - ?H + ?K" using le r k nt by linarith
      moreover have "?T - ?H \<le> ?T + ?K - ?H" by simp
      ultimately show ?thesis using False le HT k r unfolding old contents_def [of rb']
        by (simp add: rb'_def read_at_def w)
    qed
  next
    case gt: False
    then have g: "?T + ?K < ?H" "?H < length ?b" using gap r k by auto
    then have "rb_tail rb + k \<noteq> rb_sz rb" "\<not> rb_head rb \<le> rb_tail rb + k" using gt gap r by auto
    moreover have "drop ?H (take ?T ?b @ bs @ drop (?T + ?K) ?b) = drop ?H ?b" using g k lenT by simp
    ultimately show ?thesis using gt g k nt lenT by (simp add: rb'_def contents_def w)
  qed
qed


text \<open>The bytes one step can write; a buffer that is not full has room for one at least.\<close>

definition room :: "cringbuf \<Rightarrow> int" where
  "room rb = (if rb_head rb \<le> rb_tail rb then rb_sz rb - rb_tail rb else rb_head rb - rb_tail rb - 1)"

lemma inactive_extent_eq:
  "rb_inv rb \<Longrightarrow> cringbuf_inactive_extent rb amnt =
     Some (if cringbuf_sz rb = rb_sz rb - 1 then None else Some (rb_tail rb, min amnt (room rb)))"
  by (simp add: cringbuf_inactive_extent_def cringbuf_full_eq room_def Let_def min_def)

lemma produce_some_full: "rb_inv rb \<Longrightarrow> cringbuf_sz rb = rb_sz rb - 1 \<Longrightarrow> ringbuf_produce_some rb b amnt = Some (0, rb)"
  by (simp add: ringbuf_produce_some_def inactive_extent_eq)

lemma produce_some_ok:
  assumes inv: "rb_inv rb" and n: "0 < amnt" "amnt \<le> int (length b)" and nf: "cringbuf_sz rb \<noteq> rb_sz rb - 1"
    and ok: "rb_head rb \<noteq> 0 \<or> rb_tail rb + amnt < rb_sz rb"
  obtains rb' where "ringbuf_produce_some rb b amnt = Some (min amnt (room rb), rb')" "rb_inv rb'"
    "contents rb' = contents rb @ take (nat (min amnt (room rb))) b" "rb_head rb' = rb_head rb" "rb_sz rb' = rb_sz rb"
    "room rb \<le> amnt \<longrightarrow> rb_head rb' \<noteq> 0 \<and> rb_tail rb' < rb_head rb'"
proof -
  define k where "k = min amnt (room rb)"
  have rm: "0 < room rb" using inv nf by (auto simp: room_def rb_inv_def cringbuf_sz_def Let_def split: if_splits)
  have k: "0 < k" "k \<le> amnt" "k \<le> room rb" using n rm by (auto simp: k_def)
  let ?nt = "if rb_tail rb + k = rb_sz rb then 0 else rb_tail rb + k"
  let ?b = "write_at (rb_buffer rb) (rb_tail rb) (take (nat k) b)"
  let ?rb = "rb\<lparr>rb_buffer := ?b, rb_tail := ?nt\<rparr>"
  have len: "length (take (nat k) b) = nat k" using k n by simp
  have fit: "rb_tail rb + k \<le> rb_sz rb" using k inv by (auto simp: room_def rb_inv_def split: if_splits)
  have gap: "rb_tail rb < rb_head rb \<Longrightarrow> rb_tail rb + k < rb_head rb" using k by (auto simp: room_def)
  have wrap: "rb_tail rb + k = rb_sz rb \<Longrightarrow> rb_head rb \<noteq> 0" using ok k by auto
  note cw = contents_write [OF inv len _ fit gap wrap]
  have ne: "?nt \<noteq> rb_head rb" "?nt < rb_sz rb"
    using k fit gap wrap inv by (auto simp: room_def rb_inv_def split: if_splits)
  have i2: "rb_inv (rb\<lparr>rb_buffer := ?b\<rparr>)" using inv cw(1) k by (auto simp: rb_inv_def)
  have ext: "cringbuf_inactive_extent (rb\<lparr>rb_buffer := ?b\<rparr>) k = Some (Some (rb_tail rb, k))"
  proof -
    have "cringbuf_sz (rb\<lparr>rb_buffer := ?b\<rparr>) = cringbuf_sz rb" "room (rb\<lparr>rb_buffer := ?b\<rparr>) = room rb"
      by (simp_all add: cringbuf_sz_def room_def Let_def)
    then show ?thesis using inactive_extent_eq [OF i2, of k] nf k by simp
  qed
  have "ringbuf_produce_some rb b amnt = Some (k, ?rb)"
    using inactive_extent_eq [OF inv, of amnt] nf fit ne ext
    by (cases "rb_tail rb + k = rb_sz rb")
      (simp_all add: ringbuf_produce_some_def cringbuf_add_def Let_def add.commute flip: k_def)
  moreover have "room rb \<le> amnt \<longrightarrow> rb_head ?rb \<noteq> 0 \<and> rb_tail ?rb < rb_head ?rb"
    using ok inv by (auto simp: k_def room_def rb_inv_def)
  moreover note cw' = cw [OF less_imp_le [OF k(1)]]
  moreover have "rb_head ?rb = rb_head rb" "rb_sz ?rb = rb_sz rb" by simp_all
  ultimately show thesis by (intro that [of ?rb, folded k_def])
qed


lemma cringbuf_produce_ok:
  assumes inv: "rb_inv rb" and n: "0 < amnt" "amnt \<le> int (length b)"
    and ok: "rb_head rb \<noteq> 0 \<or> rb_tail rb + amnt < rb_sz rb"
  shows "\<exists>rb'. cringbuf_produce rb b amnt = Some (min amnt (cringbuf_empty_sz rb), rb') \<and> rb_inv rb' \<and>
    contents rb' = contents rb @ take (nat (min amnt (cringbuf_empty_sz rb))) b"
proof (cases "cringbuf_sz rb = rb_sz rb - 1")
  case True
  then show ?thesis
    using produce_some_full [OF inv True] inv n by (simp add: cringbuf_produce_def cringbuf_empty_sz_def)
next
  case False
  define k where "k = min amnt (room rb)"
  obtain rb1 where p1: "ringbuf_produce_some rb b amnt = Some (k, rb1)" and i1: "rb_inv rb1"
    and c1: "contents rb1 = contents rb @ take (nat k) b" and h1: "rb_head rb1 = rb_head rb" "rb_sz rb1 = rb_sz rb"
    and w1: "room rb \<le> amnt \<longrightarrow> rb_head rb1 \<noteq> 0 \<and> rb_tail rb1 < rb_head rb1"
    unfolding k_def by (rule produce_some_ok [OF inv n False ok])
  have r: "0 \<le> rb_head rb" "rb_head rb < rb_sz rb" "0 \<le> rb_tail rb" "rb_tail rb < rb_sz rb" using inv by (auto simp: rb_inv_def)
  have rm: "0 < room rb" using inv False by (auto simp: room_def rb_inv_def cringbuf_sz_def Let_def split: if_splits)
  have k: "0 < k" "k \<le> amnt" using n rm by (auto simp: k_def)
  have sz1: "cringbuf_sz rb1 = cringbuf_sz rb + k"
    using length_contents [OF i1] length_contents [OF inv] c1 k n by simp
  have e: "cringbuf_empty_sz rb = cringbuf_empty_sz rb1 + k" by (simp add: cringbuf_empty_sz_def sz1 h1)
  have le1: "0 \<le> cringbuf_empty_sz rb1"
    using cringbuf_full_eq [OF i1] by (auto simp: cringbuf_empty_sz_def cringbuf_full_def)
  show ?thesis
  proof (cases "k = amnt")
    case True
    then have "min amnt (cringbuf_empty_sz rb) = amnt" using e le1 by simp
    then show ?thesis using p1 i1 c1 True by (simp add: cringbuf_produce_def)
  next
    case left: False
    then have t1: "rb_head rb1 \<noteq> 0" "rb_tail rb1 < rb_head rb1" using w1 by (auto simp: k_def)
    have room1: "room rb1 = cringbuf_empty_sz rb1"
      using t1 by (simp add: room_def cringbuf_empty_sz_def cringbuf_sz_def Let_def)
    let ?m = "amnt - k" and ?b = "drop (nat k) b"
    show ?thesis
    proof (cases "cringbuf_sz rb1 = rb_sz rb1 - 1")
      case True
      then have "cringbuf_empty_sz rb1 = 0" by (simp add: cringbuf_empty_sz_def)
      then have "min amnt (cringbuf_empty_sz rb) = k" using e k by simp
      then show ?thesis using p1 i1 c1 left produce_some_full [OF i1 True] by (simp add: cringbuf_produce_def)
    next
      case nf: False
      have m: "0 < ?m" "?m \<le> int (length ?b)" using k left n by auto
      obtain rb2 where p2: "ringbuf_produce_some rb1 ?b ?m = Some (min ?m (room rb1), rb2)" and i2: "rb_inv rb2"
        and c2: "contents rb2 = contents rb1 @ take (nat (min ?m (room rb1))) ?b"
        by (rule produce_some_ok [OF i1 m nf]) (use t1 in simp_all)
      have tot: "min amnt (cringbuf_empty_sz rb) = k + min ?m (room rb1)" using e room1 by simp
      have "nat (k + min ?m (room rb1)) = nat k + nat (min ?m (room rb1))"
        using k m le1 room1 by (simp add: nat_add_distrib)
      then have "contents rb2 = contents rb @ take (nat (min amnt (cringbuf_empty_sz rb))) b"
        unfolding tot c2 c1 by (simp add: take_add)
      then show ?thesis using p1 p2 i2 left tot by (simp add: cringbuf_produce_def)
    qed
  qed
qed

section \<open>A queue of bytes\<close>

text \<open>
  The contract a client of the buffer uses: consuming takes the oldest bytes, producing adds
  bytes at the end, both as many as possible.
\<close>

locale byte_queue =
  fixes ok :: "'q \<Rightarrow> bool" and cont :: "'q \<Rightarrow> byte list" and free :: "'q \<Rightarrow> int"
    and get :: "'q \<Rightarrow> int \<Rightarrow> (byte list \<times> 'q) option"
    and put :: "'q \<Rightarrow> byte list \<Rightarrow> int \<Rightarrow> (int \<times> 'q) option"
    and can_put :: "'q \<Rightarrow> int \<Rightarrow> bool"
  assumes get_total: "ok q \<Longrightarrow> 0 \<le> n \<Longrightarrow> \<exists>q'. get q n = Some (take (nat n) (cont q), q') \<and> ok q' \<and> cont q' = drop (nat n) (cont q)"
    and put_total: "ok q \<Longrightarrow> 0 < n \<Longrightarrow> n \<le> int (length b) \<Longrightarrow> can_put q n \<Longrightarrow>
      \<exists>q'. put q b n = Some (min n (free q), q') \<and> ok q' \<and> cont q' = cont q @ take (nat (min n (free q))) b"
begin

text \<open>What fits is read back unchanged after everything before it.\<close>

lemma put_get:
  assumes "ok q" "b \<noteq> []" "int (length b) \<le> free q" "can_put q (int (length b))"
  shows "\<exists>q' q''. put q b (int (length b)) = Some (int (length b), q') \<and>
    get q' (int (length (cont q) + length b)) = Some (cont q @ b, q'') \<and> cont q'' = []"
proof -
  from put_total [OF assms(1) _ order_refl assms(4)] assms(2,3)
  obtain q' where p: "put q b (int (length b)) = Some (int (length b), q')" and q': "ok q'" "cont q' = cont q @ b"
    by (auto simp: min_absorb1)
  from get_total [OF q'(1), of "int (length (cont q) + length b)"] q'(2) p show ?thesis
    by (auto simp: nat_add_distrib)
qed

end

interpretation rb: byte_queue rb_inv contents cringbuf_empty_sz cringbuf_consume cringbuf_produce
  "\<lambda>rb amnt. rb_head rb \<noteq> 0 \<or> rb_tail rb + amnt < rb_sz rb"
  by unfold_locales (rule cringbuf_consume_ok cringbuf_produce_ok; assumption)+

text \<open>
  C39: bytes that fit into the ring buffer come out again, in order and behind the bytes that
  were there, wherever the buffer wraps around.
\<close>

theorem cringbuf_produce_consume:
  assumes "rb_inv rb" "b \<noteq> []" "int (length b) \<le> cringbuf_empty_sz rb"
    and "rb_head rb \<noteq> 0 \<or> rb_tail rb + int (length b) < rb_sz rb"
  shows "\<exists>rb' rb''. cringbuf_produce rb b (int (length b)) = Some (int (length b), rb') \<and>
    cringbuf_consume rb' (int (length (contents rb) + length b)) = Some (contents rb @ b, rb'') \<and> contents rb'' = []"
  by (rule rb.put_get [OF assms])

theorem cringbuf_produce_consume_witness:
  "\<exists>rb' rb''. cringbuf_produce \<lparr>rb_sz = 4, rb_head = 2, rb_tail = 3, rb_buffer = [0, 0, 7, 0]\<rparr> [8, 9] 2 = Some (2, rb') \<and>
    cringbuf_consume rb' 3 = Some ([7, 8, 9], rb'') \<and> contents rb'' = []"
  using cringbuf_produce_consume [of "\<lparr>rb_sz = 4, rb_head = 2, rb_tail = 3, rb_buffer = [0, 0, 7, 0]\<rparr>" "[8, 9]"]
  by (simp add: rb_inv_def cringbuf_empty_sz_def cringbuf_sz_def contents_def read_at_def Let_def)

text \<open>
  A buffer whose head is at index 0 and which is not full cannot be filled: a request for at
  least as many bytes as remain up to the end of the memory fails the assertion that the tail
  does not reach the head, instead of writing the bytes that fit.
\<close>

theorem cringbuf_produce_fill_asserts:
  assumes "rb_inv rb" "rb_head rb = 0" "rb_tail rb < rb_sz rb - 1" "rb_sz rb - rb_tail rb \<le> amnt"
  shows "cringbuf_produce rb b amnt = None"
proof -
  have nf: "cringbuf_sz rb \<noteq> rb_sz rb - 1" using assms(1-3) by (simp add: cringbuf_sz_def rb_inv_def)
  have rm: "min amnt (room rb) = rb_sz rb - rb_tail rb" using assms by (simp add: room_def rb_inv_def)
  have "cringbuf_inactive_extent rb amnt = Some (Some (rb_tail rb, rb_sz rb - rb_tail rb))"
    using inactive_extent_eq [OF assms(1), of amnt] nf rm by simp
  moreover have "cringbuf_add rb' (rb_sz rb - rb_tail rb) = None"
    if "rb_head rb' = rb_head rb" "rb_tail rb' = rb_tail rb" "rb_sz rb' = rb_sz rb" for rb'
    using assms that by (auto simp: cringbuf_add_def cringbuf_inactive_extent_def cringbuf_full_def cringbuf_sz_def
      Let_def rb_inv_def assert_that_def)
  ultimately show ?thesis by (simp add: cringbuf_produce_def ringbuf_produce_some_def)
qed

theorem cringbuf_produce_fill_asserts_witness:
  "cringbuf_produce \<lparr>rb_sz = 4, rb_head = 0, rb_tail = 1, rb_buffer = [7, 0, 0, 0]\<rparr> [1, 2, 3] 3 = None"
  by (rule cringbuf_produce_fill_asserts) (simp_all add: rb_inv_def)

end
