(* ===== verification/PagePool.thy ===== *)
theory PagePool
  imports Prelude
begin

text \<open>
  Page allocation. \<^verbatim>\<open>components/include/cpage_alloc.h\<close> (and, with the same code,
  \<^verbatim>\<open>alloc_page\<close>/\<^verbatim>\<open>free_page\<close> of \<^verbatim>\<open>components/interface/mem_mgr/cos_alloc.c\<close>)
  keeps returned pages on a list threaded through the pages themselves and asks the
  memory manager for a new one when the list is empty. \<^verbatim>\<open>kernel/page_pool.c\<close> is the
  kernel's pool of the same shape, with a length counter.

  The first word of a page, which holds the link while the page is free, is the function
  \<open>link\<close>. The pages the memory manager (\<^verbatim>\<open>CPAGE_ALLOC\<close>, \<^verbatim>\<open>chal_alloc_page\<close>)
  still has to give are the list \<open>mm_pages\<close>, in the order it gives them; when it is empty
  the request returns \<^verbatim>\<open>NULL\<close>.
\<close>

record pool =
  page_list :: addr            \<comment> \<open>\<^verbatim>\<open>page_list.next\<close>, \<^verbatim>\<open>page_list_head.next\<close>\<close>
  link :: "addr \<Rightarrow> addr"
  mm_pages :: "addr list"

definition new_page :: "pool \<Rightarrow> addr \<times> pool" where
  "new_page p = (case mm_pages p of [] \<Rightarrow> (NULL, p) | a # as \<Rightarrow> (a, p\<lparr>mm_pages := as\<rparr>))"

section \<open>cpage\_alloc.h\<close>

definition cpage_alloc :: "pool \<Rightarrow> addr \<times> pool" where
  "cpage_alloc p =
     (let fp = page_list p
      in if fp = NULL then new_page p
         else let p1 = p\<lparr>page_list := link p fp\<rparr>;
                  p2 = p1\<lparr>link := (link p1)(fp := NULL)\<rparr>
              in (fp, p2))"

definition cpage_free :: "pool \<Rightarrow> addr \<Rightarrow> pool" where
  "cpage_free p ptr =
     (let p1 = p\<lparr>link := (link p)(ptr := page_list p)\<rparr>
      in p1\<lparr>page_list := ptr\<rparr>)"

definition alloc_page :: "pool \<Rightarrow> addr \<times> pool" where
  "alloc_page p =
     (let fp = page_list p
      in if fp = NULL then new_page p
         else let p1 = p\<lparr>page_list := link p fp\<rparr>;
                  p2 = p1\<lparr>link := (link p1)(fp := NULL)\<rparr>
              in (fp, p2))"

definition free_page :: "pool \<Rightarrow> addr \<Rightarrow> pool" where
  "free_page p ptr =
     (let p1 = p\<lparr>link := (link p)(ptr := page_list p)\<rparr>
      in p1\<lparr>page_list := ptr\<rparr>)"

section \<open>kernel/page\_pool.c\<close>

text \<open>
  Each compare-and-swap loop is run without interference, so its first attempt succeeds.
  \<^verbatim>\<open>page_list_len\<close> is an unsigned 32-bit counter; a pool of 1024 pages or more fails the
  assertion of \<^verbatim>\<open>cos_put_pg_pool\<close>.
\<close>

record kpool = pool +
  page_list_len :: u32

definition cos_get_pg_pool :: "kpool \<Rightarrow> addr \<times> kpool" where
  "cos_get_pg_pool p =
     (if page_list p = NULL then
        (case mm_pages p of [] \<Rightarrow> (NULL, p) | a # as \<Rightarrow> (a, p\<lparr>mm_pages := as\<rparr>))
      else let page = page_list p;
               new_list_head = link p page;
               p1 = p\<lparr>page_list := new_list_head\<rparr>;
               p2 = p1\<lparr>page_list_len := page_list_len p1 - 1\<rparr>
           in (page, p2\<lparr>link := (link p2)(page := NULL)\<rparr>))"

definition cos_put_pg_pool :: "kpool \<Rightarrow> addr \<Rightarrow> kpool option" where
  "cos_put_pg_pool p page =
     (let old_list_head = page_list p;
          p1 = p\<lparr>link := (link p)(page := old_list_head)\<rparr>;
          p2 = p1\<lparr>page_list := page\<rparr>;
          p3 = p2\<lparr>page_list_len := page_list_len p2 + 1\<rparr>
      in do { assert_that (page_list_len p3 < 1024); Some p3 })"

text \<open>
  \<^verbatim>\<open>clear_pg_pool\<close> frees every page of the list; the result is the list of pages passed to
  \<^verbatim>\<open>chal_free_page\<close>, with a bound on the number of turns.
\<close>

fun clear_pg_pool_from :: "nat \<Rightarrow> kpool \<Rightarrow> addr \<Rightarrow> addr list option" where
  "clear_pg_pool_from 0 p pg = None"
| "clear_pg_pool_from (Suc n) p pg =
     (if pg = NULL then Some []
      else let nx = link p pg in map_option ((#) pg) (clear_pg_pool_from n p nx))"

definition clear_pg_pool :: "nat \<Rightarrow> kpool \<Rightarrow> addr list option" where
  "clear_pg_pool n p = clear_pg_pool_from n p (page_list p)"

section \<open>The chain of free pages\<close>

fun chain :: "(addr \<Rightarrow> addr) \<Rightarrow> addr \<Rightarrow> addr list \<Rightarrow> bool" where
  "chain nx a [] \<longleftrightarrow> a = NULL"
| "chain nx a (x # xs) \<longleftrightarrow> a = x \<and> x \<noteq> NULL \<and> chain nx (nx x) xs"

lemma chain_upd [simp]: "x \<notin> set xs \<Longrightarrow> chain (nx(x := v)) a xs = chain nx a xs"
  by (induction xs arbitrary: a) auto

lemma chain_NULL [simp]: "chain nx NULL xs \<longleftrightarrow> xs = []"
  by (cases xs) auto

text \<open>
  The pool invariant: the list is a chain of distinct pages, disjoint from the pages still
  to be supplied; every page is page aligned and not \<^verbatim>\<open>NULL\<close>.
\<close>

definition pool_inv :: "('a pool_scheme) \<Rightarrow> addr list \<Rightarrow> bool" where
  "pool_inv p fs \<longleftrightarrow> chain (link p) (page_list p) fs \<and> distinct (fs @ mm_pages p)
     \<and> (\<forall>a \<in> set (fs @ mm_pages p). a \<noteq> NULL \<and> PAGE_SIZE dvd a)"

definition pool_ok :: "('a pool_scheme) \<Rightarrow> bool" where
  "pool_ok p \<longleftrightarrow> (\<exists>fs. pool_inv p fs)"

text \<open>The pages the pool can still give; computed along the chain.\<close>

definition owned :: "('a pool_scheme) \<Rightarrow> addr set" where
  "owned p = {a. \<exists>fs. pool_inv p fs \<and> a \<in> set (fs @ mm_pages p)}"

lemma chain_unique: "chain nx a xs \<Longrightarrow> chain nx a ys \<Longrightarrow> xs = ys"
proof (induction xs arbitrary: a ys)
  case Nil
  then show ?case by (cases ys) auto
next
  case (Cons x xs)
  then show ?case by (cases ys) auto
qed

lemma owned_eq: "pool_inv p fs \<Longrightarrow> owned p = set (fs @ mm_pages p)"
  by (auto simp: owned_def pool_inv_def dest: chain_unique)

lemma pool_inv_ok [intro]: "pool_inv p fs \<Longrightarrow> pool_ok p"
  by (auto simp: pool_ok_def)

section \<open>The contract of a page source\<close>

text \<open>
  What the users of a page allocator rely on: a request gives a page the source owned, or
  \<^verbatim>\<open>NULL\<close> when it owns none; a returned page is owned again.
\<close>

locale page_source =
  fixes alloc :: "'p \<Rightarrow> addr \<times> 'p"
    and free :: "'p \<Rightarrow> addr \<Rightarrow> 'p"
    and ok :: "'p \<Rightarrow> bool"
    and own :: "'p \<Rightarrow> addr set"
  assumes alloc_ok: "ok p \<Longrightarrow> alloc p = (a, p') \<Longrightarrow> ok p'"
    and alloc_NULL: "ok p \<Longrightarrow> fst (alloc p) = NULL \<longleftrightarrow> own p = {}"
    and alloc_page_of: "ok p \<Longrightarrow> alloc p = (a, p') \<Longrightarrow> a \<noteq> NULL \<Longrightarrow> a \<in> own p \<and> own p' = own p - {a}"
    and alloc_none: "ok p \<Longrightarrow> alloc p = (NULL, p') \<Longrightarrow> p' = p"
    and free_ok: "ok p \<Longrightarrow> a \<noteq> NULL \<Longrightarrow> PAGE_SIZE dvd a \<Longrightarrow> a \<notin> own p \<Longrightarrow> ok (free p a)"
    and free_own: "ok p \<Longrightarrow> a \<noteq> NULL \<Longrightarrow> PAGE_SIZE dvd a \<Longrightarrow> a \<notin> own p \<Longrightarrow> own (free p a) = insert a (own p)"
    and lifo: "ok p \<Longrightarrow> a \<noteq> NULL \<Longrightarrow> PAGE_SIZE dvd a \<Longrightarrow> a \<notin> own p \<Longrightarrow>
        fst (alloc (free p a)) = a \<and> own (snd (alloc (free p a))) = own p"
    and aligned: "ok p \<Longrightarrow> a \<in> own p \<Longrightarrow> a \<noteq> NULL \<and> PAGE_SIZE dvd a"
begin

lemma alloc_cases:
  assumes "ok p"
  obtains (none) "own p = {}" "alloc p = (NULL, p)"
  | (page) a p' where "alloc p = (a, p')" "a \<noteq> NULL" "PAGE_SIZE dvd a" "a \<in> own p"
      "own p' = own p - {a}" "ok p'"
proof (cases "alloc p")
  case (Pair a p')
  show thesis
  proof (cases "a = NULL")
    case True
    then show thesis using none Pair assms alloc_NULL [of p] alloc_none [of p p'] by simp
  next
    case False
    then show thesis
      using page Pair assms alloc_page_of [of p a p'] alloc_ok [of p a p'] aligned [of p a] by simp
  qed
qed

text \<open>Two requests in a row never give the same page.\<close>

lemma alloc_twice:
  "ok p \<Longrightarrow> alloc p = (a, p') \<Longrightarrow> alloc p' = (b, p'') \<Longrightarrow> a \<noteq> NULL \<Longrightarrow> b \<noteq> NULL \<Longrightarrow> a \<noteq> b"
  using alloc_page_of [of p a p'] alloc_page_of [of p' b p''] alloc_ok [of p a p'] by auto

end

lemma alloc_page_cases:
  assumes "pool_inv p fs"
  obtains (none) "fs = []" "mm_pages p = []" "alloc_page p = (NULL, p)"
  | (fresh) a as p' where "fs = []" "mm_pages p = a # as" "alloc_page p = (a, p')"
      "pool_inv p' []" "mm_pages p' = as"
  | (reused) a gs p' where "fs = a # gs" "alloc_page p = (a, p')" "pool_inv p' gs"
      "mm_pages p' = mm_pages p"
proof (cases fs)
  case Nil
  show thesis
  proof (cases "mm_pages p")
    case Nil
    then show thesis using assms none \<open>fs = []\<close>
      by (auto simp: alloc_page_def new_page_def pool_inv_def)
  next
    case (Cons a as)
    then show thesis using assms fresh [of a as "p\<lparr>mm_pages := as\<rparr>"] \<open>fs = []\<close>
      by (auto simp: alloc_page_def new_page_def pool_inv_def)
  qed
next
  case (Cons a gs)
  then show thesis
    using assms reused [of a gs "p\<lparr>page_list := link p a, link := (link p)(a := NULL)\<rparr>"]
    by (auto simp: alloc_page_def pool_inv_def Let_def)
qed

lemma free_page_inv:
  "pool_inv p fs \<Longrightarrow> a \<noteq> NULL \<Longrightarrow> PAGE_SIZE dvd a \<Longrightarrow> a \<notin> owned p \<Longrightarrow>
   pool_inv (free_page p a) (a # fs) \<and> mm_pages (free_page p a) = mm_pages p"
  by (auto simp: free_page_def pool_inv_def Let_def owned_eq)

lemma alloc_page_ok: "pool_ok p \<Longrightarrow> alloc_page p = (a, p') \<Longrightarrow> pool_ok p'"
proof -
  assume "alloc_page p = (a, p')" and "pool_ok p"
  then obtain fs where fs: "pool_inv p fs" by (auto simp: pool_ok_def)
  then show ?thesis using \<open>alloc_page p = (a, p')\<close> \<open>pool_ok p\<close> by (cases rule: alloc_page_cases) auto
qed

lemma alloc_page_own:
  assumes "pool_ok p"
  shows "fst (alloc_page p) = NULL \<longleftrightarrow> owned p = {}"
    and "alloc_page p = (a, p') \<Longrightarrow> a \<noteq> NULL \<Longrightarrow> a \<in> owned p \<and> owned p' = owned p - {a}"
    and "alloc_page p = (NULL, p') \<Longrightarrow> p' = p"
proof -
  obtain fs where fs: "pool_inv p fs" using assms by (auto simp: pool_ok_def)
  have nn: "a \<noteq> NULL" if "a \<in> set (fs @ mm_pages p)" for a using fs that by (auto simp: pool_inv_def)
  have dist: "distinct (fs @ mm_pages p)" using fs by (simp add: pool_inv_def)
  from fs show "fst (alloc_page p) = NULL \<longleftrightarrow> owned p = {}"
    by (cases rule: alloc_page_cases) (use nn owned_eq [OF fs] in auto)
  from fs show "a \<in> owned p \<and> owned p' = owned p - {a}" if "alloc_page p = (a, p')" "a \<noteq> NULL"
    by (cases rule: alloc_page_cases) (use that owned_eq [OF fs] dist in \<open>auto dest: owned_eq\<close>)
  from fs show "p' = p" if "alloc_page p = (NULL, p')"
    by (cases rule: alloc_page_cases) (use that nn in auto)
qed

lemma free_page_alloc: "fst (alloc_page (free_page p a)) = (if a = NULL then fst (new_page (free_page p a)) else a)"
  by (simp add: alloc_page_def free_page_def Let_def)

interpretation ps: page_source alloc_page free_page pool_ok owned
proof unfold_locales
  fix p :: pool and a p'
  assume ok: "pool_ok p"
  then obtain fs where fs: "pool_inv p fs" by (auto simp: pool_ok_def)
  show "alloc_page p = (a, p') \<Longrightarrow> pool_ok p'" using ok by (rule alloc_page_ok)
  show "fst (alloc_page p) = NULL \<longleftrightarrow> owned p = {}" using ok by (rule alloc_page_own)
  show "alloc_page p = (a, p') \<Longrightarrow> a \<noteq> NULL \<Longrightarrow> a \<in> owned p \<and> owned p' = owned p - {a}"
    using ok by (rule alloc_page_own)
  show "alloc_page p = (NULL, p') \<Longrightarrow> p' = p" using ok by (rule alloc_page_own)
  show "a \<in> owned p \<Longrightarrow> a \<noteq> NULL \<and> PAGE_SIZE dvd a" using fs by (auto simp: owned_eq pool_inv_def)
  assume a: "a \<noteq> NULL" "PAGE_SIZE dvd a" "a \<notin> owned p"
  note inv = free_page_inv [OF fs a]
  then show "pool_ok (free_page p a)" by auto
  show own: "owned (free_page p a) = insert a (owned p)"
    using inv by (auto simp: owned_eq [OF fs] owned_eq [of _ "a # fs"])
  from inv have "pool_ok (free_page p a)" by auto
  from alloc_page_own(2) [OF this, of a "snd (alloc_page (free_page p a))"] a
  show "fst (alloc_page (free_page p a)) = a \<and> owned (snd (alloc_page (free_page p a))) = owned p"
    using free_page_alloc [of p a] by (cases "alloc_page (free_page p a)") (auto simp: own)
qed

text \<open>The header-only allocator is the same code as the library one.\<close>

lemma cpage_alloc_eq: "cpage_alloc = alloc_page"
  by (intro ext) (simp add: cpage_alloc_def alloc_page_def)

lemma cpage_free_eq: "cpage_free = free_page"
  by (intro ext) (simp add: cpage_free_def free_page_def)

interpretation cps: page_source cpage_alloc cpage_free pool_ok owned
  unfolding cpage_alloc_eq cpage_free_eq by (rule ps.page_source_axioms)

section \<open>The kernel pool\<close>

text \<open>The counter of the kernel pool counts its chain, which has fewer than 1024 pages.\<close>

definition kpool_inv :: "kpool \<Rightarrow> addr list \<Rightarrow> bool" where
  "kpool_inv p fs \<longleftrightarrow> pool_inv p fs \<and> page_list_len p = of_nat (length fs) \<and> length fs < 1024"

lemma cos_put_pg_pool_inv:
  assumes "kpool_inv p fs" "a \<noteq> NULL" "PAGE_SIZE dvd a" "a \<notin> set (fs @ mm_pages p)"
  shows "if length fs < 1023
         then \<exists>p'. cos_put_pg_pool p a = Some p' \<and> kpool_inv p' (a # fs) \<and> mm_pages p' = mm_pages p
         else cos_put_pg_pool p a = None"
proof -
  have len: "length fs < 1024" and l: "page_list_len p = of_nat (length fs)"
    using assms(1) by (auto simp: kpool_inv_def)
  have "page_list_len p + 1 < 1024 \<longleftrightarrow> length fs < 1023"
  proof -
    have "page_list_len p + 1 = of_nat (length fs + 1)" by (simp add: l)
    moreover have "unat (of_nat (length fs + 1) :: u32) = length fs + 1"
      using len by (subst unat_of_nat) simp
    ultimately show ?thesis by (simp only: word_less_nat_alt) simp
  qed
  then show ?thesis using assms
    by (auto simp: cos_put_pg_pool_def Let_def kpool_inv_def pool_inv_def add.commute)
qed

lemma cos_get_pg_pool_inv:
  assumes "kpool_inv p fs"
  shows "case fs of
      [] \<Rightarrow> (case mm_pages p of
          [] \<Rightarrow> cos_get_pg_pool p = (NULL, p)
        | a # as \<Rightarrow> \<exists>p'. cos_get_pg_pool p = (a, p') \<and> kpool_inv p' [] \<and> mm_pages p' = as)
    | a # gs \<Rightarrow> \<exists>p'. cos_get_pg_pool p = (a, p') \<and> kpool_inv p' gs \<and> mm_pages p' = mm_pages p"
  using assms
  by (auto simp: cos_get_pg_pool_def Let_def kpool_inv_def pool_inv_def split: list.splits)

lemma clear_pg_pool_from_chain:
  "chain (link p) a fs \<Longrightarrow> length fs < n \<Longrightarrow> clear_pg_pool_from n p a = Some fs"
proof (induction fs arbitrary: a n)
  case Nil
  then show ?case by (cases n) auto
next
  case (Cons f fs)
  then show ?case by (cases n) (auto simp: Let_def)
qed

text \<open>
  The kernel's page pool is a stack of fewer than 1024 pages. Putting a page that the pool
  does not hold onto a pool of \<open>n\<close> pages succeeds exactly when \<open>n < 1023\<close>, and then the next get
  returns that page and restores the list, the counter and the pages still to be supplied;
  clearing the pool frees exactly the pages on it, in at most one turn per page and one more.
\<close>

theorem kernel_page_pool_stack:
  assumes "kpool_inv p fs" "a \<noteq> NULL" "PAGE_SIZE dvd a" "a \<notin> set (fs @ mm_pages p)"
  shows "(cos_put_pg_pool p a = None \<longleftrightarrow> length fs = 1023)
    \<and> (\<forall>p'. cos_put_pg_pool p a = Some p' \<longrightarrow>
         (\<exists>p''. cos_get_pg_pool p' = (a, p'') \<and> kpool_inv p'' fs \<and> mm_pages p'' = mm_pages p))
    \<and> clear_pg_pool (length fs + 1) p = Some fs"
proof (intro conjI allI impI)
  have len: "length fs < 1024" using assms(1) by (simp add: kpool_inv_def)
  note put = cos_put_pg_pool_inv [OF assms]
  show "cos_put_pg_pool p a = None \<longleftrightarrow> length fs = 1023"
    using put len by (auto split: if_splits)
  show "\<exists>p''. cos_get_pg_pool p' = (a, p'') \<and> kpool_inv p'' fs \<and> mm_pages p'' = mm_pages p"
    if "cos_put_pg_pool p a = Some p'" for p'
  proof -
    have "kpool_inv p' (a # fs)" "mm_pages p' = mm_pages p" using put that by (auto split: if_splits)
    then show ?thesis using cos_get_pg_pool_inv [of p' "a # fs"] by simp
  qed
  show "clear_pg_pool (length fs + 1) p = Some fs"
    unfolding clear_pg_pool_def
    using assms(1) by (intro clear_pg_pool_from_chain) (auto simp: kpool_inv_def pool_inv_def)
qed

definition empty_kpool :: kpool where
  "empty_kpool = \<lparr>page_list = NULL, link = (\<lambda>_. NULL), mm_pages = [PAGE_SIZE], page_list_len = 0\<rparr>"

theorem kernel_page_pool_stack_witness:
  "\<exists>p' p''. cos_put_pg_pool empty_kpool (2 * PAGE_SIZE) = Some p' \<and>
     cos_get_pg_pool p' = (2 * PAGE_SIZE, p'') \<and> kpool_inv p'' [] \<and> mm_pages p'' = mm_pages empty_kpool \<and>
     clear_pg_pool 1 empty_kpool = Some []"
proof -
  have "kpool_inv empty_kpool []" "(2 * PAGE_SIZE) \<notin> set ([] @ mm_pages empty_kpool)"
    by (simp_all add: kpool_inv_def pool_inv_def empty_kpool_def)
  from kernel_page_pool_stack [OF this(1) _ _ this(2)] show ?thesis by auto
qed

end
