(* ===== verification/Cvect.thy ===== *)
theory Cvect
  imports PagePool
begin

text \<open>
  The id vector of \<^verbatim>\<open>components/include/cvect.h\<close>: a tree of pages with 1024 slots each
  (\<^verbatim>\<open>CVECT_BASE\<close>) and a fixed depth of 2 (\<^verbatim>\<open>CVECT_DEPTH\<close>). An inner page holds
  pointers to pages or \<^verbatim>\<open>NULL\<close>, a page of the last level holds values. The client stubs
  keep their tracking descriptors in these vectors.

  The address of a slot, which \<^verbatim>\<open>__cvect_lookup\<close> returns, is the path of slot indices
  from the root; \<^verbatim>\<open>NULL\<close> is \<^const>\<open>None\<close>. Ids are \<^verbatim>\<open>long\<close>: shifting right is division
  rounding down and masking is \<open>mod 1024\<close>, also for negative ids.
\<close>

section \<open>Pages, trees and slots\<close>

datatype ptree =
    Leaf addr "int list"
  | Dir addr "ptree option list"

type_synonym slot = "nat list"

abbreviation CVECT_BASE :: nat where "CVECT_BASE \<equiv> 1024"
abbreviation CVECT_DEPTH :: nat where "CVECT_DEPTH \<equiv> 2"
abbreviation CVECT_MAX_ID :: int where "CVECT_MAX_ID \<equiv> 1024 * 1024"

fun child :: "ptree \<Rightarrow> nat \<Rightarrow> ptree option" where
  "child (Dir a cs) i = cs ! i"
| "child (Leaf a vs) i = None"

fun set_child :: "ptree \<Rightarrow> nat \<Rightarrow> ptree option \<Rightarrow> ptree" where
  "set_child (Dir a cs) i c = Dir a (cs[i := c])"
| "set_child (Leaf a vs) i c = Leaf a vs"

text \<open>Reading and writing through a slot address.\<close>

fun rd :: "ptree \<Rightarrow> slot \<Rightarrow> int" where
  "rd (Leaf a vs) [i] = vs ! i"
| "rd (Dir a cs) (i # p) = (case cs ! i of None \<Rightarrow> 0 | Some t \<Rightarrow> rd t p)"
| "rd _ _ = 0"

fun wr :: "ptree \<Rightarrow> slot \<Rightarrow> int \<Rightarrow> ptree" where
  "wr (Leaf a vs) [i] x = Leaf a (vs[i := x])"
| "wr (Dir a cs) (i # p) x =
     Dir a (cs[i := (case cs ! i of None \<Rightarrow> None | Some t \<Rightarrow> Some (wr t p x))])"
| "wr t _ x = t"

text \<open>The slot at distance \<open>k\<close> behind a slot of the same page (pointer arithmetic).\<close>

definition slot_next :: "slot \<Rightarrow> slot" where
  "slot_next p = butlast p @ [last p + 1]"

fun page_addr :: "ptree \<Rightarrow> addr" where
  "page_addr (Leaf a vs) = a"
| "page_addr (Dir a cs) = a"

section \<open>The operations of cvect.h\<close>

definition cvect_init :: "addr \<Rightarrow> ptree" where
  "cvect_init a = Dir a (replicate CVECT_BASE None)"

definition cvect_alloc :: "pool \<Rightarrow> ptree option \<times> pool" where
  "cvect_alloc p = (let (v, p) = alloc_page p in
     if v = NULL then (None, p) else (Some (cvect_init v), p))"

text \<open>\<open>page_index vid d\<close> is the slot of a page of level \<open>d\<close> (1 is the last one) used for \<open>vid\<close>.\<close>

definition page_index :: "int \<Rightarrow> nat \<Rightarrow> nat" where
  "page_index vid d = nat (vid div 1024 ^ (d - 1) mod 1024)"

fun cvect_lookup_rec :: "ptree \<Rightarrow> int \<Rightarrow> nat \<Rightarrow> slot option" where
  "cvect_lookup_rec vi vid (Suc (Suc d)) =
     (let n = page_index vid (Suc (Suc d)) in
      case child vi n of None \<Rightarrow> None
      | Some t \<Rightarrow> map_option ((#) n) (cvect_lookup_rec t vid (Suc d)))"
| "cvect_lookup_rec vi vid d = Some [page_index vid 1]"

definition u_cvect_lookup :: "ptree \<Rightarrow> int \<Rightarrow> slot option" where
  "u_cvect_lookup v vid = cvect_lookup_rec v vid CVECT_DEPTH"

definition cvect_lookup :: "ptree \<Rightarrow> int \<Rightarrow> int option" where
  "cvect_lookup v vid = do {
     assert_that (vid \<ge> 0);
     (case u_cvect_lookup v vid of None \<Rightarrow> Some NULL | Some vi \<Rightarrow> Some (rd v vi)) }"

definition cvect_lookup_addr :: "ptree \<Rightarrow> int \<Rightarrow> slot option option" where
  "cvect_lookup_addr v vid = do { assert_that (vid \<ge> 0); Some (u_cvect_lookup v vid) }"

text \<open>A page fresh from the allocator, cleared, at level \<open>d\<close>.\<close>

definition zero_page :: "nat \<Rightarrow> addr \<Rightarrow> ptree" where
  "zero_page d a = (if d > 1 then Dir a (replicate CVECT_BASE None) else Leaf a (replicate CVECT_BASE 0))"

fun cvect_expand_rec :: "ptree \<Rightarrow> int \<Rightarrow> nat \<Rightarrow> pool \<Rightarrow> int \<times> ptree \<times> pool" where
  "cvect_expand_rec vi vid (Suc (Suc d)) p =
     (let n = page_index vid (Suc (Suc d)) in
      case child vi n of
        None \<Rightarrow>
          (let (new, p) = alloc_page p in
           if new = NULL then (-1, vi, p)
           else let (r, t, p) = cvect_expand_rec (zero_page (Suc d) new) vid (Suc d) p
                in (r, set_child vi n (Some t), p))
      | Some t \<Rightarrow>
          (let (r, t, p) = cvect_expand_rec t vid (Suc d) p
           in (r, set_child vi n (Some t), p)))"
| "cvect_expand_rec vi vid d p = (0, vi, p)"

definition u_cvect_expand :: "ptree \<Rightarrow> int \<Rightarrow> pool \<Rightarrow> int \<times> ptree \<times> pool" where
  "u_cvect_expand v vid p = cvect_expand_rec v vid CVECT_DEPTH p"

definition u_cvect_set :: "ptree \<Rightarrow> int \<Rightarrow> int \<Rightarrow> int \<times> ptree" where
  "u_cvect_set v vid x =
     (case u_cvect_lookup v vid of None \<Rightarrow> (-1, v) | Some vi \<Rightarrow> (0, wr v vi x))"

definition cvect_add :: "ptree \<Rightarrow> int \<Rightarrow> int \<Rightarrow> pool \<Rightarrow> (int \<times> ptree \<times> pool) option" where
  "cvect_add v x vid p = do {
     assert_that (x \<noteq> NULL);
     assert_that (vid < CVECT_MAX_ID);
     old \<leftarrow> cvect_lookup v vid;
     assert_that (old = NULL);
     let (r, v) = u_cvect_set v vid x in
     if r \<noteq> 0 then
       let (e, v, p) = u_cvect_expand v vid p in
       if e \<noteq> 0 then Some (-1, v, p)
       else let (r, v) = u_cvect_set v vid x in
            if r \<noteq> 0 then Some (-1, v, p) else Some (0, v, p)
     else Some (0, v, p) }"

definition cvect_del :: "ptree \<Rightarrow> int \<Rightarrow> int \<times> ptree" where
  "cvect_del v vid = (let (r, v) = u_cvect_set v vid NULL in if r \<noteq> 0 then (1, v) else (0, v))"

text \<open>\<^verbatim>\<open>cvect_free\<close> returns the pages below a page first, in slot order, then the page.\<close>

fun cvect_free_rec :: "nat \<Rightarrow> ptree \<Rightarrow> pool \<Rightarrow> pool" where
  "cvect_free_rec (Suc (Suc d)) vi p =
     free_page (case vi of
         Leaf a vs \<Rightarrow> p
       | Dir a cs \<Rightarrow>
           fold (\<lambda>c p. case c of None \<Rightarrow> p | Some t \<Rightarrow> cvect_free_rec (Suc d) t p) cs p)
       (page_addr vi)"
| "cvect_free_rec d vi p = free_page p (page_addr vi)"

definition cvect_free :: "ptree \<Rightarrow> pool \<Rightarrow> pool" where
  "cvect_free v p = cvect_free_rec CVECT_DEPTH v p"

section \<open>Shape of a tree\<close>

fun wf_tree :: "nat \<Rightarrow> ptree \<Rightarrow> bool" where
  "wf_tree 0 t \<longleftrightarrow> False"
| "wf_tree (Suc 0) t \<longleftrightarrow> (case t of Leaf a vs \<Rightarrow> length vs = CVECT_BASE | Dir a cs \<Rightarrow> False)"
| "wf_tree (Suc (Suc d)) t \<longleftrightarrow> (case t of Leaf a vs \<Rightarrow> False
     | Dir a cs \<Rightarrow> length cs = CVECT_BASE \<and>
         list_all (\<lambda>c. case c of None \<Rightarrow> True | Some t' \<Rightarrow> wf_tree (Suc d) t') cs)"

lemma wf_tree_1E:
  assumes "wf_tree (Suc 0) t"
  obtains a vs where "t = Leaf a vs" "length vs = CVECT_BASE"
  using assms by (cases t) auto

lemma wf_tree_SucE:
  assumes "wf_tree (Suc (Suc d)) t"
  obtains a cs where "t = Dir a cs" "length cs = CVECT_BASE"
    "\<And>n t'. n < CVECT_BASE \<Longrightarrow> cs ! n = Some t' \<Longrightarrow> wf_tree (Suc d) t'"
proof (cases t)
  case (Dir a cs)
  with assms have len: "length cs = CVECT_BASE"
    and all: "list_all (\<lambda>c. case c of None \<Rightarrow> True | Some t' \<Rightarrow> wf_tree (Suc d) t') cs" by auto
  have "wf_tree (Suc d) t'" if "n < CVECT_BASE" "cs ! n = Some t'" for n t'
    using all len that by (auto simp: list_all_length dest!: spec [of _ n])
  with Dir len that show thesis by blast
qed (use assms in auto)

lemma wf_tree_DirI:
  assumes "length cs = CVECT_BASE"
    "\<And>n t'. n < CVECT_BASE \<Longrightarrow> cs ! n = Some t' \<Longrightarrow> wf_tree (Suc d) t'"
  shows "wf_tree (Suc (Suc d)) (Dir a cs)"
  using assms by (auto simp: list_all_length split: option.splits)

lemma wf_tree_LeafI: "length vs = CVECT_BASE \<Longrightarrow> wf_tree (Suc 0) (Leaf a vs)"
  by simp

declare wf_tree.simps(2,3) [simp del]

lemma page_index_less [simp]: "page_index vid d < CVECT_BASE"
  by (simp add: page_index_def nat_less_iff)

lemma wf_zero_page: "0 < d \<Longrightarrow> wf_tree d (zero_page d a)"
  by (cases "(d, zero_page d a)" rule: wf_tree.cases) (auto simp: zero_page_def intro: wf_tree_LeafI wf_tree_DirI)

text \<open>The contents of a tree: what the slot for an id holds, if the id has one.\<close>

definition vget :: "nat \<Rightarrow> ptree \<Rightarrow> int \<Rightarrow> int option" where
  "vget d t vid = map_option (rd t) (cvect_lookup_rec t vid d)"

lemma vget_1: "vget (Suc 0) (Leaf a vs) vid = Some (vs ! page_index vid 1)"
  by (simp add: vget_def)

lemma vget_Suc:
  "vget (Suc (Suc d)) (Dir a cs) vid =
     (case cs ! page_index vid (Suc (Suc d)) of None \<Rightarrow> None | Some t \<Rightarrow> vget (Suc d) t vid)"
  by (auto simp: vget_def Let_def option.map_comp o_def split: option.splits)

text \<open>Two ids share their slot exactly when they agree modulo the capacity of the tree.\<close>

lemma same_index:
  "(x :: int) mod 1024 ^ Suc d = y mod 1024 ^ Suc d \<longleftrightarrow>
     page_index x (Suc d) = page_index y (Suc d) \<and> x mod 1024 ^ d = y mod 1024 ^ d"
proof -
  have e: "x mod 1024 ^ Suc d = 1024 ^ d * (x div 1024 ^ d mod 1024) + x mod 1024 ^ d" for x :: int
    using mod_mult2_eq' [of x "1024 ^ d" 1024] by (simp add: mult.commute)
  have "(x div 1024 ^ d mod 1024 = y div 1024 ^ d mod 1024 \<and> x mod 1024 ^ d = y mod 1024 ^ d)"
    if "x mod 1024 ^ Suc d = y mod 1024 ^ Suc d"
  proof -
    have "x mod 1024 ^ d = y mod 1024 ^ d"
      using that mod_mod_cancel [of "1024 ^ d" "1024 ^ Suc d" x] mod_mod_cancel [of "1024 ^ d" "1024 ^ Suc d" y]
      by (simp del: power_Suc add: le_imp_power_dvd)
    then show ?thesis using that by (simp add: e del: power_Suc)
  qed
  then show ?thesis by (auto simp: page_index_def e simp del: power_Suc)
qed


lemma tree_induct [consumes 1, case_names leaf node]:
  assumes "wf_tree d t"
    and "\<And>a vs. length vs = CVECT_BASE \<Longrightarrow> P (Suc 0) (Leaf a vs)"
    and "\<And>d a cs. length cs = CVECT_BASE \<Longrightarrow>
       (\<And>n t'. n < CVECT_BASE \<Longrightarrow> cs ! n = Some t' \<Longrightarrow> wf_tree (Suc d) t') \<Longrightarrow>
       (\<And>n t'. n < CVECT_BASE \<Longrightarrow> cs ! n = Some t' \<Longrightarrow> P (Suc d) t') \<Longrightarrow> P (Suc (Suc d)) (Dir a cs)"
  shows "P d t"
  using assms(1)
proof (induction d arbitrary: t rule: less_induct)
  case (less d)
  show ?case
  proof (cases d)
    case 0
    then show ?thesis using less.prems by simp
  next
    case (Suc e)
    show ?thesis
    proof (cases e)
      case 0
      then show ?thesis using less.prems assms(2) Suc by (auto elim: wf_tree_1E)
    next
      case (Suc f)
      with \<open>d = Suc e\<close> less.prems have wf: "wf_tree (Suc (Suc f)) t" by simp
      from wf_tree_SucE [OF wf] obtain a cs where t: "t = Dir a cs" "length cs = CVECT_BASE"
        and sub: "\<And>n t'. n < CVECT_BASE \<Longrightarrow> cs ! n = Some t' \<Longrightarrow> wf_tree (Suc f) t'" by blast
      have ih: "P (Suc f) t'" if "n < CVECT_BASE" "cs ! n = Some t'" for n t'
        using less.IH [of "Suc f" t'] sub [OF that] Suc \<open>d = Suc e\<close> by simp
      have "P (Suc (Suc f)) (Dir a cs)" by (rule assms(3) [OF t(2)]) (use sub ih in blast)+
      then show ?thesis using t Suc \<open>d = Suc e\<close> by simp
    qed
  qed
qed

section \<open>Writing a slot\<close>

lemma wf_wr: "wf_tree d t \<Longrightarrow> wf_tree d (wr t p x)"
proof (induction d t arbitrary: p rule: tree_induct)
  case (leaf a vs)
  then show ?case by (cases "(Leaf a vs, p, x)" rule: wr.cases) (auto intro: wf_tree_LeafI)
next
  case (node d a cs)
  show ?case
  proof (cases p)
    case Nil
    then show ?thesis using node by (auto intro: wf_tree_DirI)
  next
    case (Cons i q)
    have "wf_tree (Suc d) t'"
      if "n < CVECT_BASE" "cs[i := (case cs ! i of None \<Rightarrow> None | Some t \<Rightarrow> Some (wr t q x))] ! n = Some t'"
      for n t'
      using node that by (cases "i = n"; cases "cs ! n") auto
    then show ?thesis using node(1) Cons by (auto intro!: wf_tree_DirI)
  qed
qed

lemma lookup_rec_wr: "cvect_lookup_rec (wr t p x) vid' d = cvect_lookup_rec t vid' d"
proof (induction t p x arbitrary: d rule: wr.induct)
  case (1 a vs i x)
  show ?case by (cases "(Leaf a vs, vid', d)" rule: cvect_lookup_rec.cases) auto
next
  case (2 a cs i p x)
  show ?case
  proof (cases "(t, vid', d)" rule: cvect_lookup_rec.cases)
    case (1 vi vid e)
    then show ?thesis
      using 2 by (cases "cs ! i"; cases "i = page_index vid' d"; cases "i < length cs") (auto simp: Let_def not_less list_update_beyond)
  qed auto
qed auto

lemma vget_wr:
  assumes "wf_tree d t" "cvect_lookup_rec t vid d = Some p"
  shows "vget d (wr t p x) vid' = (if vid' mod 1024 ^ d = vid mod 1024 ^ d then Some x else vget d t vid')"
  using assms
proof (induction d t arbitrary: p rule: tree_induct)
  case (leaf a vs)
  then show ?case using same_index [of vid' 0 vid] by (auto simp: vget_1)
next
  case (node d a cs)
  let ?n = "page_index vid (Suc (Suc d))"
  from node.prems obtain t q where t: "cs ! ?n = Some t" and q: "cvect_lookup_rec t vid (Suc d) = Some q"
    and p: "p = ?n # q" by (auto simp: Let_def split: option.splits)
  note ih = node(3) [OF page_index_less t q]
  have len: "length cs = CVECT_BASE" by fact
  show ?case
    using ih t len page_index_less [of vid "Suc (Suc d)"] unfolding same_index [of vid' "Suc d" vid]
    by (cases "page_index vid' (Suc (Suc d)) = ?n") (auto simp: p vget_Suc simp del: power_Suc)
qed

lemma lookup_rec_mod:
  "wf_tree d t \<Longrightarrow> vid' mod 1024 ^ d = vid mod 1024 ^ d \<Longrightarrow>
   cvect_lookup_rec t vid' d = cvect_lookup_rec t vid d"
proof (induction d t rule: tree_induct)
  case (leaf a vs)
  then show ?case using same_index [of vid' 0 vid] by simp
next
  case (node d a cs)
  from node.prems have "page_index vid' (Suc (Suc d)) = page_index vid (Suc (Suc d))"
    and "vid' mod 1024 ^ Suc d = vid mod 1024 ^ Suc d"
    using same_index [of vid' "Suc d" vid] by auto
  then show ?case using node(3) [OF page_index_less]
    by (auto simp: Let_def simp del: power_Suc split: option.splits)
qed

section \<open>Expanding the tree\<close>

text \<open>Ids on the same page of the last level.\<close>

definition same_page :: "nat \<Rightarrow> int \<Rightarrow> int \<Rightarrow> bool" where
  "same_page d x y \<longleftrightarrow> x div 1024 mod 1024 ^ (d - 1) = y div 1024 mod 1024 ^ (d - 1)"

lemma same_page_1 [simp]: "same_page (Suc 0) x y"
  by (simp add: same_page_def)

lemma same_page_Suc:
  "same_page (Suc (Suc d)) x y \<longleftrightarrow>
     page_index x (Suc (Suc d)) = page_index y (Suc (Suc d)) \<and> same_page (Suc d) x y"
proof -
  have "page_index (x div 1024) (Suc d) = page_index x (Suc (Suc d))" for x
    by (simp add: page_index_def div_mult2_eq' zdiv_zmult2_eq [symmetric] flip: zdiv_zmult2_eq)
  then show ?thesis using same_index [of "x div 1024" d "y div 1024"] by (simp add: same_page_def)
qed

lemma vget_zero_page: "0 < d \<Longrightarrow> vget d (zero_page d a) vid = (if d = 1 then Some 0 else None)"
proof (cases "(zero_page d a, vid, d)" rule: cvect_lookup_rec.cases)
  case (1 vi vid e)
  then show ?thesis by (auto simp: zero_page_def vget_Suc)
qed (auto simp: zero_page_def vget_1)

text \<open>
  An expansion that succeeds gives every id on the page a slot, empty unless it had one; one
  that fails leaves the contents as they are.
\<close>

lemma cvect_expand_rec_props:
  assumes "wf_tree d t" "cvect_expand_rec t vid d p = (r, t', p')"
  shows "wf_tree d t'"
    and "r = 0 \<or> r = -1"
    and "vget d t' vid' = (if r = 0 \<and> same_page d vid' vid \<and> vget d t vid' = None then Some 0 else vget d t vid')"
proof -
  have "wf_tree d t' \<and> (r = 0 \<or> r = -1) \<and>
     vget d t' vid' = (if r = 0 \<and> same_page d vid' vid \<and> vget d t vid' = None then Some 0 else vget d t vid')"
    using assms
  proof (induction d arbitrary: t p r t' p' rule: less_induct)
    case (less d)
    show ?case
    proof (cases "(t, vid, d, p)" rule: cvect_expand_rec.cases)
      case (1 vi vid0 e p0)
      let ?n = "page_index vid (Suc (Suc e))"
      from 1 have d: "d = Suc (Suc e)" by simp
      from 1 less.prems(1) have "wf_tree (Suc (Suc e)) t" by simp
      then obtain a cs where t: "t = Dir a cs" and len: "length cs = CVECT_BASE"
        and sub: "\<And>n t'. n < CVECT_BASE \<Longrightarrow> cs ! n = Some t' \<Longrightarrow> wf_tree (Suc e) t'"
        by (rule wf_tree_SucE) blast
      have wf_upd: "wf_tree (Suc (Suc e)) (Dir a (cs[?n := Some u]))" if "wf_tree (Suc e) u" for u
        using that sub len by (intro wf_tree_DirI) (auto simp: nth_list_update_if split: if_splits)
      have vget_upd: "vget (Suc (Suc e)) (Dir a (cs[?n := Some u])) vid' =
          (if page_index vid' (Suc (Suc e)) = ?n then vget (Suc e) u vid' else vget (Suc (Suc e)) t vid')" for u
        using len by (auto simp: vget_Suc t)
      have vget_t: "vget (Suc (Suc e)) t vid' =
          (case cs ! page_index vid' (Suc (Suc e)) of None \<Rightarrow> None | Some t \<Rightarrow> vget (Suc e) t vid')"
        by (simp add: t vget_Suc)
      show ?thesis
      proof (cases "cs ! ?n")
        case None
        obtain new q where new: "alloc_page p = (new, q)" by (cases "alloc_page p")
        show ?thesis
        proof (cases "new = NULL")
          case True
          then show ?thesis using less.prems 1 None new by (auto simp: t Let_def)
        next
          case False
          obtain r1 t1 q1 where rec: "cvect_expand_rec (zero_page (Suc e) new) vid (Suc e) q = (r1, t1, q1)"
            by (cases "cvect_expand_rec (zero_page (Suc e) new) vid (Suc e) q")
          from less.prems(2) 1 None new False rec
          have res: "r = r1" "t' = Dir a (cs[?n := Some t1])" by (auto simp: t Let_def)
          have ih: "wf_tree (Suc e) t1 \<and> (r1 = 0 \<or> r1 = -1) \<and>
             vget (Suc e) t1 vid' = (if r1 = 0 \<and> same_page (Suc e) vid' vid
                \<and> vget (Suc e) (zero_page (Suc e) new) vid' = None then Some 0
                else vget (Suc e) (zero_page (Suc e) new) vid')"
            using less.IH [OF _ _ rec] 1 by (simp add: wf_zero_page)
          have z: "e = 0 \<Longrightarrow> r1 = 0" using rec by simp
          show ?thesis
            using ih wf_upd [of t1] None z vget_zero_page [of "Suc e" new vid'] unfolding res d vget_upd vget_t same_page_Suc
            by (cases "e = 0") auto
        qed
      next
        case (Some u)
        obtain r1 t1 q1 where rec: "cvect_expand_rec u vid (Suc e) p = (r1, t1, q1)"
          by (cases "cvect_expand_rec u vid (Suc e) p")
        from less.prems(2) 1 Some rec
        have res: "r = r1" "t' = Dir a (cs[?n := Some t1])" by (auto simp: t Let_def)
        have "wf_tree (Suc e) u" using sub [OF page_index_less Some] .
        then have ih: "wf_tree (Suc e) t1 \<and> (r1 = 0 \<or> r1 = -1) \<and>
             vget (Suc e) t1 vid' = (if r1 = 0 \<and> same_page (Suc e) vid' vid
                \<and> vget (Suc e) u vid' = None then Some 0 else vget (Suc e) u vid')"
          using less.IH [OF _ _ rec] 1 by simp
        show ?thesis
          using ih wf_upd [of t1] Some unfolding res d
          by (auto simp: vget_upd same_page_Suc vget_t)
      qed
    qed (use less.prems in \<open>auto simp: vget_def\<close>)
  qed
  then show "wf_tree d t'" "r = 0 \<or> r = -1"
    "vget d t' vid' = (if r = 0 \<and> same_page d vid' vid \<and> vget d t vid' = None then Some 0 else vget d t vid')"
    by blast+
qed


section \<open>The vector as an array\<close>

text \<open>
  The contract the stubs rely on: on the ids below the capacity a vector is an array whose
  entries are initially \<^verbatim>\<open>NULL\<close>.
\<close>

locale id_vector =
  fixes ok :: "'v \<Rightarrow> bool"
    and find :: "'v \<Rightarrow> int \<Rightarrow> int option"
    and add :: "'v \<Rightarrow> int \<Rightarrow> int \<Rightarrow> pool \<Rightarrow> (int \<times> 'v \<times> pool) option"
    and del :: "'v \<Rightarrow> int \<Rightarrow> int \<times> 'v"
    and cap :: int
  assumes find_total: "ok v \<Longrightarrow> 0 \<le> i \<Longrightarrow> i < cap \<Longrightarrow> \<exists>x. find v i = Some x"
    and add_total: "ok v \<Longrightarrow> 0 \<le> i \<Longrightarrow> i < cap \<Longrightarrow> x \<noteq> NULL \<Longrightarrow> find v i = Some NULL \<Longrightarrow>
        \<exists>r v' p'. add v x i p = Some (r, v', p')"
    and add_ok: "ok v \<Longrightarrow> add v x i p = Some (r, v', p') \<Longrightarrow> ok v'"
    and add_result: "ok v \<Longrightarrow> add v x i p = Some (r, v', p') \<Longrightarrow> r = 0 \<or> r = -1 \<and> fst (alloc_page p) = NULL"
    and add_find: "ok v \<Longrightarrow> add v x i p = Some (r, v', p') \<Longrightarrow> 0 \<le> j \<Longrightarrow> j < cap \<Longrightarrow>
        find v' j = (if r = 0 \<and> j = i then Some x else find v j)"
    and del_ok: "ok v \<Longrightarrow> ok (snd (del v i))"
    and del_find: "ok v \<Longrightarrow> 0 \<le> i \<Longrightarrow> i < cap \<Longrightarrow> 0 \<le> j \<Longrightarrow> j < cap \<Longrightarrow>
        find (snd (del v i)) j = (if j = i then Some NULL else find v j)"
begin

text \<open>Adding a value and deleting it again gives back the contents.\<close>

lemma add_del:
  assumes "ok v" "0 \<le> i" "i < cap" "find v i = Some NULL" "add v x i p = Some (r, v', p')"
    "0 \<le> j" "j < cap"
  shows "find (snd (del v' i)) j = find v j"
  using assms add_ok [OF assms(1,5)] add_find [OF assms(1,5)] by (simp add: del_find)

end

abbreviation vect_ok :: "ptree \<Rightarrow> bool" where
  "vect_ok v \<equiv> wf_tree CVECT_DEPTH v"

lemma cvect_lookup_vget:
  "0 \<le> vid \<Longrightarrow> cvect_lookup v vid = Some (case vget CVECT_DEPTH v vid of None \<Rightarrow> NULL | Some x \<Rightarrow> x)"
  by (auto simp: cvect_lookup_def u_cvect_lookup_def vget_def split: option.splits)

lemma u_cvect_set_props:
  assumes "vect_ok v" "u_cvect_set v vid x = (r, v')"
  shows "vect_ok v'" and "r = (if vget CVECT_DEPTH v vid = None then -1 else 0)"
    and "vget CVECT_DEPTH v' vid' =
      (if vget CVECT_DEPTH v vid \<noteq> None \<and> vid' mod 1024 ^ 2 = vid mod 1024 ^ 2 then Some x
       else vget CVECT_DEPTH v vid')"
proof -
  show "vect_ok v'" using assms by (auto simp: u_cvect_set_def wf_wr split: option.splits)
  show "r = (if vget CVECT_DEPTH v vid = None then -1 else 0)"
    using assms by (auto simp: u_cvect_set_def u_cvect_lookup_def vget_def split: option.splits)
  show "vget CVECT_DEPTH v' vid' =
      (if vget CVECT_DEPTH v vid \<noteq> None \<and> vid' mod 1024 ^ 2 = vid mod 1024 ^ 2 then Some x
       else vget CVECT_DEPTH v vid')"
  proof (cases "cvect_lookup_rec v vid CVECT_DEPTH")
    case None
    then show ?thesis using assms by (auto simp: u_cvect_set_def u_cvect_lookup_def vget_def)
  next
    case (Some p)
    then show ?thesis
      using assms vget_wr [OF assms(1) Some, of x vid']
      by (auto simp: u_cvect_set_def u_cvect_lookup_def vget_def)
  qed
qed

lemma same_page_refl [simp]: "same_page d x x"
  by (simp add: same_page_def)

lemma u_cvect_expand_fails: "u_cvect_expand v vid p = (r, v', p') \<Longrightarrow> r \<noteq> 0 \<Longrightarrow> fst (alloc_page p) = NULL"
  by (auto simp: u_cvect_expand_def numeral_2_eq_2 Let_def split: option.splits prod.splits if_splits)

lemma cvect_add_props:
  assumes ok: "vect_ok v" and add: "cvect_add v x vid p = Some (r, v', p')"
  shows "vect_ok v'" "r = 0 \<or> r = -1 \<and> fst (alloc_page p) = NULL" "0 \<le> vid \<and> vid < CVECT_MAX_ID"
    and "0 \<le> vid' \<Longrightarrow> vid' < CVECT_MAX_ID \<Longrightarrow>
      cvect_lookup v' vid' = (if r = 0 \<and> vid' = vid then Some x else cvect_lookup v vid')"
proof -
  from add have rng: "0 \<le> vid" "vid < CVECT_MAX_ID"
    by (auto simp: cvect_add_def cvect_lookup_def assert_that_bind_Some bind_eq_Some_conv)
  then show "0 \<le> vid \<and> vid < CVECT_MAX_ID" by simp
  have m: "vid' mod 1024 ^ 2 = vid mod 1024 ^ 2 \<longleftrightarrow> vid' = vid" if "0 \<le> vid'" "vid' < CVECT_MAX_ID" for vid'
    using that rng by simp
  obtain r1 v1 where s1: "u_cvect_set v vid x = (r1, v1)" by (cases "u_cvect_set v vid x")
  note p1 = u_cvect_set_props [OF ok s1]
  have goal: "vect_ok v' \<and> (r = 0 \<or> r = -1 \<and> fst (alloc_page p) = NULL) \<and>
    (\<forall>vid'. 0 \<le> vid' \<and> vid' < CVECT_MAX_ID \<longrightarrow>
      cvect_lookup v' vid' = (if r = 0 \<and> vid' = vid then Some x else cvect_lookup v vid'))"
  proof (cases "r1 = 0")
    case True
    with add s1 rng have "r = 0" "v' = v1"
      by (auto simp: cvect_add_def assert_that_bind_Some bind_eq_Some_conv)
    then show ?thesis using p1 True m by (auto simp: cvect_lookup_vget split: if_splits)
  next
    case False
    then have v1: "v1 = v" and none: "vget CVECT_DEPTH v vid = None"
      using s1 p1(2) by (auto simp: u_cvect_set_def split: option.splits if_splits)
    obtain e v2 p2 where ex: "u_cvect_expand v vid p = (e, v2, p2)" by (cases "u_cvect_expand v vid p")
    note p2 = cvect_expand_rec_props [OF ok ex [unfolded u_cvect_expand_def]]
    show ?thesis
    proof (cases "e = 0")
      case True
      obtain r3 v3 where s3: "u_cvect_set v2 vid x = (r3, v3)" by (cases "u_cvect_set v2 vid x")
      note p3 = u_cvect_set_props [OF p2(1) s3]
      have "r3 = 0" using p3(2) p2(3) [of vid] True none by simp
      with add s1 rng False v1 ex True s3 have res: "r = 0" "v' = v3"
        by (auto simp: cvect_add_def assert_that_bind_Some bind_eq_Some_conv)
      show ?thesis
        using p3 p2(3) res True none m by (auto simp: cvect_lookup_vget split: option.splits)
    next
      case False
      with add s1 rng \<open>r1 \<noteq> 0\<close> v1 ex have "r = -1" "v' = v2"
        by (auto simp: cvect_add_def assert_that_bind_Some bind_eq_Some_conv)
      then show ?thesis using p2 False u_cvect_expand_fails [OF ex] by (auto simp: cvect_lookup_vget)
    qed
  qed
  then show "vect_ok v'" "r = 0 \<or> r = -1 \<and> fst (alloc_page p) = NULL"
    "0 \<le> vid' \<Longrightarrow> vid' < CVECT_MAX_ID \<Longrightarrow>
      cvect_lookup v' vid' = (if r = 0 \<and> vid' = vid then Some x else cvect_lookup v vid')" by blast+
qed

lemma cvect_add_total:
  "0 \<le> vid \<Longrightarrow> vid < CVECT_MAX_ID \<Longrightarrow> x \<noteq> NULL \<Longrightarrow> cvect_lookup v vid = Some NULL \<Longrightarrow>
   \<exists>r v' p'. cvect_add v x vid p = Some (r, v', p')"
  by (auto simp: cvect_add_def Let_def split: prod.splits)

interpretation cv: id_vector vect_ok cvect_lookup cvect_add cvect_del CVECT_MAX_ID
proof unfold_locales
  fix v :: ptree and i j
  assume ok: "vect_ok v"
  obtain r v' where s: "u_cvect_set v i NULL = (r, v')" by (cases "u_cvect_set v i NULL")
  have d: "snd (cvect_del v i) = v'" using s by (simp add: cvect_del_def)
  note p = u_cvect_set_props [OF ok s]
  show "vect_ok (snd (cvect_del v i))" using p(1) d by simp
  show "cvect_lookup (snd (cvect_del v i)) j = (if j = i then Some NULL else cvect_lookup v j)"
    if "0 \<le> i" "i < CVECT_MAX_ID" "0 \<le> j" "j < CVECT_MAX_ID"
    using that p(3) [of j] by (auto simp: d cvect_lookup_vget)
  show "\<exists>x. cvect_lookup v i = Some x" if "0 \<le> i" "i < CVECT_MAX_ID"
    using that by (simp add: cvect_lookup_vget)
qed (rule cvect_add_total cvect_add_props; assumption)+


section \<open>Page ownership\<close>

text \<open>The pages of a tree, in the order \<^verbatim>\<open>cvect_free\<close> returns them.\<close>

fun tree_pages :: "nat \<Rightarrow> ptree \<Rightarrow> addr list" where
  "tree_pages (Suc (Suc d)) vi =
     (case vi of Leaf a vs \<Rightarrow> []
      | Dir a cs \<Rightarrow> concat (map (\<lambda>c. case c of None \<Rightarrow> [] | Some t \<Rightarrow> tree_pages (Suc d) t) cs)) @ [page_addr vi]"
| "tree_pages d vi = [page_addr vi]"

text \<open>The pages of a vector are distinct, aligned, and not in the pool.\<close>

definition pages_ok :: "addr list \<Rightarrow> pool \<Rightarrow> bool" where
  "pages_ok as p \<longleftrightarrow> pool_ok p \<and> distinct as \<and> set as \<inter> owned p = {} \<and>
     (\<forall>a \<in> set as. a \<noteq> NULL \<and> PAGE_SIZE dvd a)"

lemma free_pages:
  "pages_ok as p \<Longrightarrow> pool_ok (fold (\<lambda>a p. free_page p a) as p) \<and>
     owned (fold (\<lambda>a p. free_page p a) as p) = set as \<union> owned p"
proof (induction as arbitrary: p)
  case (Cons a as)
  then have "pages_ok as (free_page p a)"
    by (auto simp: pages_ok_def ps.free_ok ps.free_own)
  then show ?case using Cons by (auto simp: pages_ok_def ps.free_own)
qed (simp add: pages_ok_def)

lemma cvect_free_rec_pages: "cvect_free_rec d vi p = fold (\<lambda>a p. free_page p a) (tree_pages d vi) p"
proof (induction d vi p rule: cvect_free_rec.induct)
  case (1 d vi p)
  have "fold (\<lambda>c p. case c of None \<Rightarrow> p | Some t \<Rightarrow> cvect_free_rec (Suc d) t p) cs p =
      fold (\<lambda>a p. free_page p a)
        (concat (map (\<lambda>c. case c of None \<Rightarrow> [] | Some t \<Rightarrow> tree_pages (Suc d) t) cs)) p"
    if "\<And>c t p. c \<in> set cs \<Longrightarrow> c = Some t \<Longrightarrow>
        cvect_free_rec (Suc d) t p = fold (\<lambda>a p. free_page p a) (tree_pages (Suc d) t) p" for cs p
    using that by (induction cs arbitrary: p) (auto split: option.splits)
  then show ?case using 1 by (cases vi) auto
qed auto

lemma tree_pages_add:
  assumes "n < length cs" "cs ! n = None"
  shows "set (tree_pages 2 (Dir a (cs[n := Some (zero_page (Suc 0) b)]))) = insert b (set (tree_pages 2 (Dir a cs)))"
    and "distinct (tree_pages 2 (Dir a (cs[n := Some (zero_page (Suc 0) b)]))) \<longleftrightarrow>
           b \<notin> set (tree_pages 2 (Dir a cs)) \<and> distinct (tree_pages 2 (Dir a cs))"
proof -
  obtain xs ys where cs: "cs = xs @ None # ys" and n: "n = length xs"
    using assms id_take_nth_drop [of n cs] by auto
  show "set (tree_pages 2 (Dir a (cs[n := Some (zero_page (Suc 0) b)]))) = insert b (set (tree_pages 2 (Dir a cs)))"
    by (auto simp: cs n numeral_2_eq_2 zero_page_def)
  show "distinct (tree_pages 2 (Dir a (cs[n := Some (zero_page (Suc 0) b)]))) \<longleftrightarrow>
           b \<notin> set (tree_pages 2 (Dir a cs)) \<and> distinct (tree_pages 2 (Dir a cs))"
    by (auto simp: cs n numeral_2_eq_2 zero_page_def)
qed


lemma page_addr_wr [simp]: "page_addr (wr t p x) = page_addr t"
  by (cases "(t, p, x)" rule: wr.cases) auto

lemma tree_pages_wr: "tree_pages 2 (wr t p x) = tree_pages 2 t"
proof (cases "(t, p, x)" rule: wr.cases)
  case (2 a cs i q y)
  then show ?thesis
  proof (cases "i < length cs")
    case True
    obtain xs c ys where "cs = xs @ c # ys" "i = length xs"
      using True id_take_nth_drop [OF True] by (intro that [of "take i cs" "cs ! i" "drop (Suc i) cs"]) auto
    with 2 show ?thesis by (cases c) (auto simp: numeral_2_eq_2)
  qed (simp add: list_update_beyond)
qed (simp_all add: numeral_2_eq_2)

lemma u_cvect_expand_pages:
  assumes "vect_ok v" "pages_ok (tree_pages 2 v) p" "u_cvect_expand v vid p = (r, v', p')"
  shows "pages_ok (tree_pages 2 v') p' \<and>
    set (tree_pages 2 v') \<union> owned p' = set (tree_pages 2 v) \<union> owned p"
proof -
  from assms(1) obtain a cs where v: "v = Dir a cs" and len: "length cs = CVECT_BASE"
    by (auto simp: numeral_2_eq_2 elim: wf_tree_SucE)
  let ?n = "page_index vid 2"
  have n: "?n < length cs" by (simp add: len)
  show ?thesis
  proof (cases "cs ! ?n")
    case (Some t)
    then have "v' = v \<and> p' = p"
      using assms(3) list_update_id [of cs ?n]
      by (simp add: v u_cvect_expand_def numeral_2_eq_2 Let_def split: prod.splits)
    then show ?thesis using assms(2) by simp
  next
    case None
    have pool: "pool_ok p" using assms(2) by (simp add: pages_ok_def)
    then show ?thesis
    proof (cases rule: ps.alloc_cases)
      case none
      then have "v' = v \<and> p' = p"
        using assms(3) None by (simp add: v u_cvect_expand_def numeral_2_eq_2 Let_def)
      then show ?thesis using assms(2) by simp
    next
      case (page b q)
      have res: "v' = Dir a (cs[?n := Some (zero_page (Suc 0) b)])" "p' = q"
        using assms(3) None page(1,2) by (auto simp: v u_cvect_expand_def numeral_2_eq_2 Let_def)
      note add = tree_pages_add [OF n None, of a b]
      have "b \<notin> set (tree_pages 2 v)" using assms(2) page(4) by (auto simp: pages_ok_def)
      then have "pages_ok (tree_pages 2 v') p'"
        using assms(2) page(2,3,5,6) unfolding res pages_ok_def v add by blast
      moreover have "set (tree_pages 2 v') \<union> owned p' = set (tree_pages 2 v) \<union> owned p"
        using page(4) unfolding res v add page(5) by blast
      ultimately show ?thesis ..
    qed
  qed
qed

lemma u_cvect_set_pages: "tree_pages 2 (snd (u_cvect_set v vid x)) = tree_pages 2 v"
  by (auto simp: u_cvect_set_def tree_pages_wr split: option.splits)

lemma cvect_add_pages:
  assumes "vect_ok v" "pages_ok (tree_pages 2 v) p" "cvect_add v x vid p = Some (r, v', p')"
  shows "pages_ok (tree_pages 2 v') p' \<and>
    set (tree_pages 2 v') \<union> owned p' = set (tree_pages 2 v) \<union> owned p"
proof -
  obtain r1 v1 where s1: "u_cvect_set v vid x = (r1, v1)" by (cases "u_cvect_set v vid x")
  obtain e v2 p2 where ex: "u_cvect_expand v1 vid p = (e, v2, p2)" by (cases "u_cvect_expand v1 vid p")
  obtain r3 v3 where s3: "u_cvect_set v2 vid x = (r3, v3)" by (cases "u_cvect_set v2 vid x")
  have e1: "tree_pages 2 v1 = tree_pages 2 v" using u_cvect_set_pages [of v vid x] s1 by simp
  have e3: "tree_pages 2 v3 = tree_pages 2 v2" using u_cvect_set_pages [of v2 vid x] s3 by simp
  from assms(3) have "v' = v1 \<and> p' = p \<or> v' = v2 \<and> p' = p2 \<or> v' = v3 \<and> p' = p2"
    by (auto simp: cvect_add_def assert_that_bind_Some bind_eq_Some_conv s1 ex s3 split: if_splits)
  moreover note u_cvect_expand_pages [OF u_cvect_set_props(1) [OF assms(1) s1] _ ex, unfolded e1, OF assms(2)]
  ultimately show ?thesis using assms(2) e1 e3 by (elim disjE) simp_all
qed

lemma vect_ok_cvect_init: "vect_ok (cvect_init a)"
  by (auto simp: cvect_init_def numeral_2_eq_2 intro: wf_tree_DirI)

lemma cvect_lookup_init: "0 \<le> vid \<Longrightarrow> cvect_lookup (cvect_init a) vid = Some NULL"
  by (simp add: cvect_lookup_vget cvect_init_def numeral_2_eq_2 vget_Suc)

lemma tree_pages_init: "tree_pages 2 (cvect_init a) = [a]"
proof -
  have "concat (map (\<lambda>c. case c of None \<Rightarrow> [] | Some t \<Rightarrow> f t) (replicate n None)) = []" for n and f :: "ptree \<Rightarrow> addr list"
    by (induction n) auto
  then show ?thesis by (simp add: cvect_init_def numeral_2_eq_2)
qed

section \<open>Properties\<close>

text \<open>
  C31: \<^verbatim>\<open>cvect_add\<close> for a legal id that holds nothing never fails an assertion. It returns 0
  and then exactly that id maps to the value while every other id keeps its value, or it returns
  -1, only because no page could be allocated, and every id keeps its value. The pages of the
  vector and of the allocator stay disjoint, and together are the same pages as before.
\<close>

theorem cvect_add_correct:
  assumes "vect_ok v" "pages_ok (tree_pages CVECT_DEPTH v) p"
    and "0 \<le> vid" "vid < CVECT_MAX_ID" "x \<noteq> NULL" "cvect_lookup v vid = Some NULL"
  shows "\<exists>r v' p'. cvect_add v x vid p = Some (r, v', p') \<and> vect_ok v' \<and>
    (r = 0 \<or> r = -1 \<and> owned p = {}) \<and>
    (\<forall>j. 0 \<le> j \<longrightarrow> j < CVECT_MAX_ID \<longrightarrow>
       cvect_lookup v' j = (if r = 0 \<and> j = vid then Some x else cvect_lookup v j)) \<and>
    pages_ok (tree_pages CVECT_DEPTH v') p' \<and>
    set (tree_pages CVECT_DEPTH v') \<union> owned p' = set (tree_pages CVECT_DEPTH v) \<union> owned p"
proof -
  obtain r v' p' where add: "cvect_add v x vid p = Some (r, v', p')"
    using cv.add_total [OF assms(1,3,4,5,6)] by blast
  have "pool_ok p" using assms(2) by (simp add: pages_ok_def)
  then show ?thesis
    using add cv.add_ok [OF assms(1) add] cv.add_result [OF assms(1) add] cv.add_find [OF assms(1) add]
      cvect_add_pages [OF assms(1,2) add] ps.alloc_NULL
    by auto
qed

text \<open>An allocator that owns two pages, and a vector on a third.\<close>

definition two_pages :: pool where
  "two_pages = \<lparr>page_list = NULL, link = (\<lambda>_. NULL), mm_pages = [PAGE_SIZE, 2 * PAGE_SIZE]\<rparr>"

lemma two_pages_ok: "pool_ok two_pages" "owned two_pages = {PAGE_SIZE, 2 * PAGE_SIZE}"
proof -
  have "pool_inv two_pages []" by (simp add: pool_inv_def two_pages_def)
  then show "pool_ok two_pages" "owned two_pages = {PAGE_SIZE, 2 * PAGE_SIZE}"
    by (auto simp: owned_eq two_pages_def)
qed

theorem cvect_add_correct_witness:
  "\<exists>r v' p'. cvect_add (cvect_init (3 * PAGE_SIZE)) 77 5000 two_pages = Some (r, v', p') \<and> vect_ok v' \<and>
    (r = 0 \<or> r = -1 \<and> owned two_pages = {}) \<and>
    (\<forall>j. 0 \<le> j \<longrightarrow> j < CVECT_MAX_ID \<longrightarrow>
       cvect_lookup v' j = (if r = 0 \<and> j = 5000 then Some 77 else cvect_lookup (cvect_init (3 * PAGE_SIZE)) j)) \<and>
    pages_ok (tree_pages CVECT_DEPTH v') p' \<and>
    set (tree_pages CVECT_DEPTH v') \<union> owned p' =
      set (tree_pages CVECT_DEPTH (cvect_init (3 * PAGE_SIZE))) \<union> owned two_pages"
  by (rule cvect_add_correct)
    (simp_all add: vect_ok_cvect_init cvect_lookup_init tree_pages_init pages_ok_def two_pages_ok)

text \<open>
  C38: freeing a vector returns each of its pages to the allocator exactly once and loses none:
  afterwards the allocator owns its old pages and all pages of the vector.
\<close>

theorem cvect_free_returns_pages:
  assumes "pages_ok (tree_pages CVECT_DEPTH v) p"
  shows "pool_ok (cvect_free v p) \<and> owned (cvect_free v p) = set (tree_pages CVECT_DEPTH v) \<union> owned p"
  unfolding cvect_free_def cvect_free_rec_pages by (rule free_pages [OF assms])

theorem cvect_free_returns_pages_witness:
  "pool_ok (cvect_free (cvect_init (3 * PAGE_SIZE)) two_pages) \<and>
   owned (cvect_free (cvect_init (3 * PAGE_SIZE)) two_pages) = {3 * PAGE_SIZE} \<union> {PAGE_SIZE, 2 * PAGE_SIZE}"
  using cvect_free_returns_pages [of "cvect_init (3 * PAGE_SIZE)" two_pages]
  by (simp add: tree_pages_init pages_ok_def two_pages_ok)

text \<open>
  C40: \<^verbatim>\<open>cvect_lookup\<close> checks an id against 0 only. An id at or beyond \<^verbatim>\<open>CVECT_MAX_ID\<close> is
  not rejected: it reads the slot of the id modulo the capacity.
\<close>

theorem cvect_lookup_aliases:
  assumes "vect_ok v" "0 \<le> vid"
  shows "cvect_lookup v (vid + CVECT_MAX_ID) = cvect_lookup v vid"
  using assms lookup_rec_mod [of CVECT_DEPTH v "vid + CVECT_MAX_ID" vid]
  by (simp add: cvect_lookup_def u_cvect_lookup_def)

theorem cvect_lookup_aliases_witness:
  "cvect_lookup (cvect_init PAGE_SIZE) (7 + CVECT_MAX_ID) = cvect_lookup (cvect_init PAGE_SIZE) 7"
  by (rule cvect_lookup_aliases) (simp_all add: vect_ok_cvect_init)

end
