(* ===== verification/CosVect.thy ===== *)
theory CosVect
  imports Cvect
begin

text \<open>
  The growing vector of \<^verbatim>\<open>components/include/cos_vect.h\<close>. It starts as one page of
  values (\<^verbatim>\<open>depth\<close> 1) and becomes a directory of such pages (\<^verbatim>\<open>depth\<close> 2) when an id
  beyond the first page is added. The pages are the trees of \<^verbatim>\<open>Cvect\<close>. A slot address is
  \<open>[i]\<close> in the first form and \<open>[t, i]\<close> in the second.
\<close>

record cos_vect =
  depth :: nat
  vect :: ptree

definition cos_vect_power_2 :: "u32 \<Rightarrow> bool" where
  "cos_vect_power_2 v = (let smallest_set_bit = v AND - v in v > 1 \<and> smallest_set_bit = v)"

definition u_cos_vect_init :: "cos_vect \<Rightarrow> (int \<times> cos_vect) option" where
  "u_cos_vect_init v = do {
     assert_that (cos_vect_power_2 1024);
     let vs = page_addr (vect v) in do {
     assert_that (vs \<noteq> NULL);
     Some (0, v\<lparr>depth := 1, vect := Leaf vs (replicate 1024 NULL)\<rparr>) } }"

definition cos_vect_alloc_vect_data :: "cos_vect \<Rightarrow> pool \<Rightarrow> int \<times> cos_vect \<times> pool" where
  "cos_vect_alloc_vect_data v p = (let (is, p) = alloc_page p in
     if is = NULL then (-1, v, p)
     else (0, v\<lparr>vect := zero_page 1 is\<rparr>, p))"

text \<open>
  \<^verbatim>\<open>__cos_vect_lookup\<close>; the result is the slot address, \<^const>\<open>None\<close> inside for
  \<^verbatim>\<open>NULL\<close>, and \<^const>\<open>None\<close> outside when an assertion on the depth fails.
\<close>

definition u_cos_vect_lookup :: "cos_vect \<Rightarrow> int \<Rightarrow> slot option option" where
  "u_cos_vect_lookup v vid = do {
     assert_that (depth v \<noteq> 0);
     assert_that (depth v \<le> 2);
     if vid < 0 then Some None
     else if depth v = 2 then
       let t = vid div 1024 in
       if t \<ge> 1024 then Some None
       else (case child (vect v) (nat (t mod 1024)) of
           None \<Rightarrow> Some None
         | Some is \<Rightarrow>
             let vid = vid mod 1024 in
             if vid \<ge> 1024 then Some None else Some (Some [nat (t mod 1024), nat vid]))
     else if vid \<ge> 1024 then Some None
     else Some (Some [nat vid]) }"

definition cos_vect_lookup :: "cos_vect \<Rightarrow> int \<Rightarrow> int option" where
  "cos_vect_lookup v vid = do {
     is \<leftarrow> u_cos_vect_lookup v vid;
     (case is of None \<Rightarrow> Some NULL | Some s \<Rightarrow> Some (rd (vect v) s)) }"

text \<open>The second half of \<^verbatim>\<open>__cos_vect_expand\<close>: a new page of values for the id.\<close>

definition u_cos_vect_expand_page :: "cos_vect \<Rightarrow> int \<Rightarrow> pool \<Rightarrow> (int \<times> cos_vect \<times> pool) option" where
  "u_cos_vect_expand_page v vid p = do {
     assert_that (depth v = 2);
     let (is, p) = alloc_page p in
     if is = NULL then Some (-1, v, p)
     else let n = nat (vid div 1024 mod 1024) in do {
       assert_that (child (vect v) n = None);
       Some (0, v\<lparr>vect := set_child (vect v) n (Some (Leaf is (replicate 1024 NULL)))\<rparr>, p) } }"

definition u_cos_vect_expand :: "cos_vect \<Rightarrow> int \<Rightarrow> pool \<Rightarrow> (int \<times> cos_vect \<times> pool) option" where
  "u_cos_vect_expand v vid p = do {
     is \<leftarrow> u_cos_vect_lookup v vid;
     assert_that (is = None);
     let grown =
       (if vid \<ge> 2 ^ (10 * depth v) then
          if depth v \<ge> 2 then Inl (-1, v, p)
          else let (root, p) = alloc_page p in
            if root = NULL then Inl (-1, v, p)
            else Inr (v\<lparr>depth := depth v + 1,
                        vect := Dir root ((replicate 1024 None)[0 := Some (vect v)])\<rparr>, p)
        else Inr (v, p)) in
     case grown of
       Inl r \<Rightarrow> Some r
     | Inr (v, p) \<Rightarrow> u_cos_vect_expand_page v vid p }"

definition u_cos_vect_set :: "cos_vect \<Rightarrow> int \<Rightarrow> int \<Rightarrow> (int \<times> cos_vect) option" where
  "u_cos_vect_set v vid x = do {
     is \<leftarrow> u_cos_vect_lookup v vid;
     (case is of None \<Rightarrow> Some (-1, v)
      | Some s \<Rightarrow> Some (0, v\<lparr>vect := wr (vect v) s x\<rparr>)) }"

definition cos_vect_add_id :: "cos_vect \<Rightarrow> int \<Rightarrow> int \<Rightarrow> pool \<Rightarrow> (int \<times> cos_vect \<times> pool) option" where
  "cos_vect_add_id v x vid p = do {
     assert_that (x \<noteq> 0);
     is \<leftarrow> u_cos_vect_lookup v vid;
     (case is of
        Some s \<Rightarrow> Some (vid, v\<lparr>vect := wr (vect v) s x\<rparr>, p)
      | None \<Rightarrow> do {
          (e, v, p) \<leftarrow> u_cos_vect_expand v vid p;
          if e \<noteq> 0 then Some (-1, v, p)
          else do {
            is \<leftarrow> u_cos_vect_lookup v vid;
            (case is of None \<Rightarrow> None
             | Some s \<Rightarrow> Some (vid, v\<lparr>vect := wr (vect v) s x\<rparr>, p)) } }) }"

definition cos_vect_del :: "cos_vect \<Rightarrow> int \<Rightarrow> (int \<times> cos_vect) option" where
  "cos_vect_del v vid = do {
     (r, v) \<leftarrow> u_cos_vect_set v vid NULL;
     Some (if r \<noteq> 0 then 1 else 0, v) }"

text \<open>
  \<^verbatim>\<open>cos_vect_free_vect\<close>: only the page the vector points to is returned.
\<close>

definition cos_vect_free_vect :: "cos_vect \<Rightarrow> pool \<Rightarrow> pool option" where
  "cos_vect_free_vect v p = do {
     assert_that (page_addr (vect v) \<noteq> NULL);
     Some (free_page p (page_addr (vect v))) }"

section \<open>Contents\<close>

definition cvect_wf :: "cos_vect \<Rightarrow> bool" where
  "cvect_wf v \<longleftrightarrow> (depth v = 1 \<or> depth v = 2) \<and> wf_tree (depth v) (vect v)"

definition vslot :: "cos_vect \<Rightarrow> int \<Rightarrow> slot option" where
  "vslot v vid = (if 0 \<le> vid \<and> vid < 1024 ^ depth v then cvect_lookup_rec (vect v) vid (depth v) else None)"

definition slots :: "cos_vect \<Rightarrow> int \<Rightarrow> int option" where
  "slots v vid = (if 0 \<le> vid \<and> vid < 1024 ^ depth v then vget (depth v) (vect v) vid else None)"

lemma slots_vslot: "slots v vid = map_option (rd (vect v)) (vslot v vid)"
  by (simp add: slots_def vslot_def vget_def)

lemma vslot_1:
  "depth v = 1 \<Longrightarrow> vslot v vid = (if 0 \<le> vid \<and> vid < 1024 then Some [nat (vid mod 1024)] else None)"
  by (simp add: vslot_def page_index_def)

lemma vslot_2:
  "depth v = 2 \<Longrightarrow> vslot v vid =
     (if 0 \<le> vid \<and> vid < 1024 * 1024
      then map_option (\<lambda>_. [nat (vid div 1024 mod 1024), nat (vid mod 1024)])
        (child (vect v) (nat (vid div 1024 mod 1024)))
      else None)"
  by (cases "child (vect v) (nat (vid div 1024 mod 1024))")
    (simp_all add: vslot_def page_index_def numeral_2_eq_2 Let_def)

lemma u_cos_vect_lookup_eq:
  assumes "cvect_wf v"
  shows "u_cos_vect_lookup v vid = Some (vslot v vid)"
proof (cases "depth v = 1")
  case True
  then show ?thesis by (auto simp: u_cos_vect_lookup_def vslot_1)
next
  case False
  with assms have d: "depth v = 2" by (simp add: cvect_wf_def)
  have m: "\<not> 1024 \<le> vid mod 1024" by (simp add: not_le)
  have t: "1024 \<le> vid div 1024 \<longleftrightarrow> \<not> vid < 1024 * 1024"
    using div_mult_mod_eq [of vid 1024] pos_mod_bound [of 1024 vid] pos_mod_sign [of 1024 vid] by linarith
  define n where "n = nat (vid div 1024 mod 1024)"
  have "u_cos_vect_lookup v vid =
      (if vid < 0 \<or> \<not> vid < 1024 * 1024 then Some None
       else case child (vect v) n of None \<Rightarrow> Some None | Some is \<Rightarrow> Some (Some [n, nat (vid mod 1024)]))"
    unfolding u_cos_vect_lookup_def Let_def n_def [symmetric] t by (simp add: d m del: not_le cong: option.case_cong)
  then show ?thesis
    unfolding vslot_2 [OF d] n_def [symmetric] by (cases "child (vect v) n") auto
qed

lemma cvect_wf_wr: "cvect_wf v \<Longrightarrow> cvect_wf (v\<lparr>vect := wr (vect v) s x\<rparr>)"
  by (auto simp: cvect_wf_def wf_wr)

lemma vslot_wr: "vslot (v\<lparr>vect := wr (vect v) s x\<rparr>) vid = vslot v vid"
  by (simp add: vslot_def lookup_rec_wr)

lemma slots_wr:
  assumes "cvect_wf v" "vslot v vid = Some s"
  shows "slots (v\<lparr>vect := wr (vect v) s x\<rparr>) = (slots v)(vid \<mapsto> x)"
proof
  fix j
  from assms have wf: "wf_tree (depth v) (vect v)" and r: "0 \<le> vid" "vid < 1024 ^ depth v"
    and l: "cvect_lookup_rec (vect v) vid (depth v) = Some s"
    by (auto simp: cvect_wf_def vslot_def split: if_splits)
  show "slots (v\<lparr>vect := wr (vect v) s x\<rparr>) j = ((slots v)(vid \<mapsto> x)) j"
    using vget_wr [OF wf l, of x j] r by (auto simp: slots_def)
qed

lemma vslot_next:
  assumes "cvect_wf v" "even vid" "vslot v vid = Some s"
  shows "vslot v (vid + 1) = Some (slot_next s)"
proof -
  obtain k where k: "vid = 2 * k" using assms(2) by blast
  have d: "(vid + 1) div 1024 = vid div 1024"
    using zdiv_zmult2_eq [of 512 "vid + 1" 2] zdiv_zmult2_eq [of 512 vid 2] by (simp add: k)
  have m: "(vid + 1) mod 1024 = vid mod 1024 + 1"
    using d div_mult_mod_eq [of "vid + 1" 1024] div_mult_mod_eq [of vid 1024] by linarith
  have n: "nat (vid mod 1024 + 1) = Suc (nat (vid mod 1024))" by (simp add: nat_add_distrib)
  have r1: "vid + 1 < 1024" if "vid < 1024" using that unfolding k by presburger
  have r2: "vid + 1 < 1024 * 1024" if "vid < 1024 * 1024" using that unfolding k by presburger
  show ?thesis
  proof (cases "depth v = 1")
    case True
    then show ?thesis using assms(3) r1 m n by (auto simp: vslot_1 slot_next_def split: if_splits)
  next
    case False
    with assms(1) have "depth v = 2" by (simp add: cvect_wf_def)
    then show ?thesis using assms(3) r2 by (auto simp: vslot_2 d m n slot_next_def split: if_splits)
  qed
qed

lemma slots_next: "cvect_wf v \<Longrightarrow> even vid \<Longrightarrow> slots v vid \<noteq> None \<Longrightarrow> slots v (vid + 1) \<noteq> None"
  using vslot_next [of v vid] by (auto simp: slots_vslot)

lemma u_cos_vect_set_props:
  assumes "cvect_wf v"
  shows "u_cos_vect_set v vid x =
    (if slots v vid = None then Some (-1, v) else Some (0, v\<lparr>vect := wr (vect v) (the (vslot v vid)) x\<rparr>))"
  by (auto simp: u_cos_vect_set_def u_cos_vect_lookup_eq [OF assms] slots_vslot split: option.splits)

lemma u_cos_vect_set_Some:
  assumes "cvect_wf v" "slots v vid \<noteq> None"
  obtains v' where "u_cos_vect_set v vid x = Some (0, v')" "cvect_wf v'" "slots v' = (slots v)(vid \<mapsto> x)"
    "depth v' = depth v"
proof -
  from assms(2) obtain s where s: "vslot v vid = Some s" by (auto simp: slots_vslot)
  show thesis
    using assms s cvect_wf_wr [OF assms(1)] slots_wr [OF assms(1) s]
    by (intro that [of "v\<lparr>vect := wr (vect v) s x\<rparr>"]) (simp_all add: u_cos_vect_set_props)
qed

text \<open>Growing from one page to a directory keeps the contents.\<close>

lemma grow_props:
  fixes root :: addr and v :: cos_vect
  assumes "cvect_wf v" "depth v = 1"
  defines "v' \<equiv> v\<lparr>depth := 2, vect := Dir root ((replicate 1024 None)[0 := Some (vect v)])\<rparr>"
  shows "cvect_wf v'" "slots v' = slots v"
proof -
  have wf: "wf_tree (Suc 0) (vect v)" using assms by (simp add: cvect_wf_def)
  show "cvect_wf v'"
    using wf by (auto simp: v'_def cvect_wf_def numeral_2_eq_2 nth_list_update_if intro!: wf_tree_DirI split: if_splits)
  have i: "page_index j 2 = 0 \<longleftrightarrow> j < 1024" if "0 \<le> j" "j < 1024 ^ 2" for j
  proof -
    have "j div 1024 < 1024" using that by simp
    then have "page_index j 2 = nat (j div 1024)" using that by (simp add: page_index_def)
    then show ?thesis using that by (auto simp: nat_eq_iff)
  qed
  obtain a vs where l: "vect v = Leaf a vs" using wf by (auto elim: wf_tree_1E)
  have "slots v' j = slots v j" for j
    using i [of j] wf assms(2)
    by (auto simp: slots_def v'_def numeral_2_eq_2 vget_Suc nth_list_update_if)
  then show "slots v' = slots v" ..
qed

lemma add_page_props:
  fixes pg :: addr and v :: cos_vect
  assumes "cvect_wf v" "depth v = 2" "0 \<le> vid" "vid < 1024 ^ 2" "child (vect v) (page_index vid 2) = None"
  defines "v' \<equiv> v\<lparr>vect := set_child (vect v) (page_index vid 2) (Some (Leaf pg (replicate 1024 NULL)))\<rparr>"
  shows "cvect_wf v'" "slots v' j = (if j div 1024 = vid div 1024 then Some 0 else slots v j)"
    "slots v vid = None"
proof -
  from assms(1,2) obtain a cs where v: "vect v = Dir a cs" and len: "length cs = CVECT_BASE"
    and sub: "\<And>n t'. n < CVECT_BASE \<Longrightarrow> cs ! n = Some t' \<Longrightarrow> wf_tree (Suc 0) t'"
    by (auto simp: cvect_wf_def numeral_2_eq_2 elim: wf_tree_SucE)
  show "cvect_wf v'"
    using assms(1,2) len sub
    by (auto simp: v'_def cvect_wf_def v numeral_2_eq_2 nth_list_update_if
        intro!: wf_tree_DirI wf_tree_LeafI split: if_splits)
  show "slots v vid = None"
    using assms by (simp add: slots_def v numeral_2_eq_2 vget_Suc)
  have i: "page_index j 2 = page_index vid 2 \<longleftrightarrow> j div 1024 = vid div 1024" if "0 \<le> j" "j < 1024 ^ 2"
    using that assms(3,4) by (auto simp: page_index_def nat_eq_iff2)
  have out: "j div 1024 \<noteq> vid div 1024" if "\<not> (0 \<le> j \<and> j < 1024 ^ 2)" 
  proof
    assume e: "j div 1024 = vid div 1024"
    have "0 \<le> vid div 1024" "vid div 1024 < 1024" using assms(3,4) by simp_all
    then have "0 \<le> j" "j < 1024 * 1024"
      using e div_mult_mod_eq [of j 1024] pos_mod_bound [of 1024 j] pos_mod_sign [of 1024 j] by linarith+
    with that show False by simp
  qed
  show "slots v' j = (if j div 1024 = vid div 1024 then Some 0 else slots v j)"
  proof (cases "0 \<le> j \<and> j < 1024 ^ 2")
    case True
    then show ?thesis
      using i len assms(2) by (auto simp: slots_def v'_def v numeral_2_eq_2 vget_Suc vget_1 nth_list_update_if)
  next
    case False
    then show ?thesis using out assms(2) by (auto simp: slots_def v'_def)
  qed
qed


lemma slots_None_child:
  assumes "cvect_wf v" "depth v = 2" "slots v vid = None" "0 \<le> vid" "vid < 1024 ^ 2"
  shows "child (vect v) (page_index vid 2) = None"
  using assms by (auto simp: slots_vslot vslot_2 page_index_def)

text \<open>
  Expansion for an id without a slot: it gives the whole page of the id empty slots, or fails
  (no memory, or an id beyond the second level) and keeps the contents.
\<close>

lemma u_cos_vect_expand_props:
  assumes wf: "cvect_wf v" and none: "slots v vid = None" and pos: "0 \<le> vid"
    and one: "depth v = 1 \<Longrightarrow> vid < 1024 ^ 2"
  obtains r v' p' where "u_cos_vect_expand v vid p = Some (r, v', p')" "cvect_wf v'"
    "r = -1 \<and> slots v' = slots v \<or>
     r = 0 \<and> slots v' = (\<lambda>j. if j div 1024 = vid div 1024 then Some 0 else slots v j)"
proof -
  have lk: "u_cos_vect_lookup v vid = Some None"
    using none u_cos_vect_lookup_eq [OF wf] by (simp add: slots_vslot)
  have two: "\<exists>r v' p'. u_cos_vect_expand_page v vid p = Some (r, v', p') \<and> cvect_wf v' \<and>
       (r = -1 \<and> slots v' = slots v \<or>
        r = 0 \<and> slots v' = (\<lambda>j. if j div 1024 = vid div 1024 then Some 0 else slots v j))"
    if v: "cvect_wf v" "depth v = 2" "slots v vid = None" and lt: "vid < 1024 ^ 2" for v p
  proof -
    have i: "nat (vid div 1024 mod 1024) = page_index vid 2" by (simp add: page_index_def)
    have c: "child (vect v) (page_index vid 2) = None" using slots_None_child [OF v pos lt] .
    obtain "is" q where a: "alloc_page p = (is, q)" by (cases "alloc_page p")
    show ?thesis
      using v add_page_props [OF v(1,2) pos lt c] by (cases "is = NULL") (auto simp: u_cos_vect_expand_page_def a i c)
  qed
  show thesis
  proof (cases "depth v = 1")
    case True
    have big: "2 ^ (10 * depth v) \<le> vid"
      using none True pos wf by (auto simp: slots_vslot vslot_1 split: if_splits)
    obtain root q where a: "alloc_page p = (root, q)" by (cases "alloc_page p")
    show thesis
    proof (cases "root = NULL")
      case True
      then show thesis using that [of "-1" v q] lk big wf \<open>depth v = 1\<close>
        by (simp add: u_cos_vect_expand_def a)
    next
      case False
      let ?v = "v\<lparr>depth := 2, vect := Dir root ((replicate 1024 None)[0 := Some (vect v)])\<rparr>"
      note g = grow_props [OF wf \<open>depth v = 1\<close>, of root]
      have "slots ?v vid = None" using g none by simp
      moreover have "u_cos_vect_expand v vid p = u_cos_vect_expand_page ?v vid q"
        using lk big False \<open>depth v = 1\<close> by (simp add: u_cos_vect_expand_def a numeral_2_eq_2)
      ultimately show thesis
        using two [of ?v q, OF g(1) _ _ one [OF \<open>depth v = 1\<close>], unfolded g(2)] none that by auto
    qed
  next
    case False
    with wf have d: "depth v = 2" by (simp add: cvect_wf_def)
    show thesis
    proof (cases "vid < 1024 ^ 2")
      case True
      from two [OF wf d none True, of p] obtain r v' p' where "u_cos_vect_expand v vid p = Some (r, v', p')"
        "cvect_wf v'" "r = -1 \<and> slots v' = slots v \<or>
         r = 0 \<and> slots v' = (\<lambda>j. if j div 1024 = vid div 1024 then Some 0 else slots v j)"
        using lk True d by (auto simp: u_cos_vect_expand_def)
      then show thesis using that by blast
    next
      case False
      then show thesis using that [of "-1" v p] lk wf d by (simp add: u_cos_vect_expand_def)
    qed
  qed
qed


lemma cos_vect_add_id_props:
  assumes wf: "cvect_wf v" and pos: "0 \<le> vid" and one: "depth v = 1 \<Longrightarrow> vid < 1024 ^ 2" and x: "x \<noteq> 0"
  obtains r v' p' where "cos_vect_add_id v x vid p = Some (r, v', p')" "cvect_wf v'"
    "r = -1 \<and> slots v' = slots v \<or>
     r = vid \<and> slots v' =
       (\<lambda>j. if j div 1024 = vid div 1024 \<and> slots v vid = None then Some 0 else slots v j)(vid \<mapsto> x)"
proof (cases "vslot v vid")
  case (Some s)
  then show thesis
    using that [of vid "v\<lparr>vect := wr (vect v) s x\<rparr>" p] wf x cvect_wf_wr slots_wr [OF wf Some]
    by (simp add: cos_vect_add_id_def u_cos_vect_lookup_eq slots_vslot [of v vid])
next
  case None
  then have none: "slots v vid = None" by (simp add: slots_vslot)
  obtain e v1 p1 where ex: "u_cos_vect_expand v vid p = Some (e, v1, p1)" and wf1: "cvect_wf v1"
    and c: "e = -1 \<and> slots v1 = slots v \<or>
     e = 0 \<and> slots v1 = (\<lambda>j. if j div 1024 = vid div 1024 then Some 0 else slots v j)"
    by (rule u_cos_vect_expand_props [OF wf none pos one, of p])
  from c show thesis
  proof
    assume "e = -1 \<and> slots v1 = slots v"
    then show thesis using that [of "-1" v1 p1] wf1 wf x None ex
      by (simp add: cos_vect_add_id_def u_cos_vect_lookup_eq)
  next
    assume e: "e = 0 \<and> slots v1 = (\<lambda>j. if j div 1024 = vid div 1024 then Some 0 else slots v j)"
    then have "slots v1 vid = Some 0" by simp
    then obtain s where s: "vslot v1 vid = Some s" by (auto simp: slots_vslot)
    then show thesis
      using that [of vid "v1\<lparr>vect := wr (vect v1) s x\<rparr>" p1] wf wf1 x None ex e cvect_wf_wr [OF wf1]
        slots_wr [OF wf1 s, of x] none
      by (simp add: cos_vect_add_id_def u_cos_vect_lookup_eq)
  qed
qed

lemma cos_vect_lookup_slots:
  "cvect_wf v \<Longrightarrow> cos_vect_lookup v vid = Some (case slots v vid of None \<Rightarrow> NULL | Some x \<Rightarrow> x)"
  by (auto simp: cos_vect_lookup_def u_cos_vect_lookup_eq slots_vslot split: option.splits)

lemma u_cos_vect_init_props:
  assumes "page_addr (vect v) \<noteq> NULL"
  obtains v' where "u_cos_vect_init v = Some (0, v')" "cvect_wf v'" "depth v' = 1"
    "slots v' = (\<lambda>j. if 0 \<le> j \<and> j < 1024 then Some NULL else None)"
proof -
  let ?v = "v\<lparr>depth := 1, vect := Leaf (page_addr (vect v)) (replicate 1024 NULL)\<rparr>"
  have p2: "cos_vect_power_2 1024" by (simp add: cos_vect_power_2_def)
  show thesis
  proof (rule that [of ?v])
    show "u_cos_vect_init v = Some (0, ?v)" using assms p2 by (simp add: u_cos_vect_init_def Let_def)
    show "cvect_wf ?v" by (simp add: cvect_wf_def wf_tree_LeafI)
    show "slots ?v = (\<lambda>j. if 0 \<le> j \<and> j < 1024 then Some NULL else None)"
      by (rule ext) (simp add: slots_def vget_1)
  qed simp
qed

end
