(* ===== verification/CosMap.thy ===== *)
theory CosMap
  imports CosVect
begin

text \<open>
  The id map of \<^verbatim>\<open>components/include/cos_map.h\<close>: a \<^verbatim>\<open>cos_vect\<close> whose even slots hold
  the values and whose odd slots hold the list of free ids, linked by id and ended by -1. The
  client stubs allocate their descriptor ids from it.
\<close>

record cos_map =
  data :: cos_vect
  free_list :: int
  id_boundary :: int

abbreviation COS_MAP_BASE :: nat where "COS_MAP_BASE \<equiv> 512"

definition cos_map_to_vect_id :: "int \<Rightarrow> int" where
  "cos_map_to_vect_id mid = mid * 2"

definition cos_map_to_vect_freeid :: "int \<Rightarrow> int" where
  "cos_map_to_vect_freeid mid = cos_map_to_vect_id mid + 1"

text \<open>
  The loop that links \<open>n\<close> ids from \<open>lower\<close> on into a free list; it stands in the
  initialisation and in \<^verbatim>\<open>cos_map_add\<close>. A slot that is not there is a \<^verbatim>\<open>BUG()\<close>.
\<close>

fun link_free_ids :: "nat \<Rightarrow> cos_vect \<Rightarrow> int \<Rightarrow> cos_vect option" where
  "link_free_ids 0 v lower = Some v"
| "link_free_ids (Suc n) v lower = do {
     (r, v) \<leftarrow> u_cos_vect_set v (cos_map_to_vect_freeid lower) (lower + 1);
     assert_that (r = 0);
     link_free_ids n v (lower + 1) }"

definition cos_map_init :: "cos_map \<Rightarrow> cos_map option" where
  "cos_map_init m = do {
     (r, v) \<leftarrow> u_cos_vect_init (data m);
     assert_that (r = 0);
     v \<leftarrow> link_free_ids COS_MAP_BASE v 0;
     (r, v) \<leftarrow> u_cos_vect_set v (cos_map_to_vect_freeid (int COS_MAP_BASE - 1)) (-1);
     assert_that (r = 0);
     Some (m\<lparr>data := v, free_list := 0, id_boundary := int COS_MAP_BASE\<rparr>) }"

definition cos_map_lookup :: "cos_map \<Rightarrow> int \<Rightarrow> int option" where
  "cos_map_lookup m mid = cos_vect_lookup (data m) (cos_map_to_vect_id mid)"

text \<open>The part of \<^verbatim>\<open>cos_map_add\<close> that creates more ids when the free list is empty.\<close>

definition cos_map_grow :: "cos_map \<Rightarrow> int \<Rightarrow> pool \<Rightarrow> (int \<times> cos_map \<times> pool) option" where
  "cos_map_grow m x p = do {
     (r, v, p) \<leftarrow> (if x \<noteq> NULL
        then cos_vect_add_id (data m) x (cos_map_to_vect_id (id_boundary m)) p
        else Some (0, data m, p));
     if x \<noteq> NULL \<and> 0 > r then Some (-1, m\<lparr>data := v\<rparr>, p)
     else let lower = id_boundary m; upper = lower + int COS_MAP_BASE in do {
       v \<leftarrow> link_free_ids COS_MAP_BASE v lower;
       (r, v) \<leftarrow> u_cos_vect_set v (cos_map_to_vect_freeid (upper - 1)) (-1);
       assert_that (r = 0);
       Some (lower, m\<lparr>data := v, id_boundary := upper\<rparr>, p) } }"

text \<open>The rest of \<^verbatim>\<open>cos_map_add\<close>: the value goes to the free id, whose link is taken off.\<close>

definition cos_map_take :: "cos_map \<Rightarrow> int \<Rightarrow> int \<Rightarrow> pool \<Rightarrow> (int \<times> cos_map \<times> pool) option" where
  "cos_map_take m free x p = do {
     is \<leftarrow> u_cos_vect_lookup (data m) (cos_map_to_vect_id free);
     (case is of None \<Rightarrow> None
      | Some s \<Rightarrow>
          let t = wr (vect (data m)) s x;
              is_free = slot_next s;
              nx = rd t is_free;
              t = wr t is_free (-1)
          in Some (free, m\<lparr>data := (data m)\<lparr>vect := t\<rparr>, free_list := nx\<rparr>, p)) }"

definition cos_map_add :: "cos_map \<Rightarrow> int \<Rightarrow> pool \<Rightarrow> (int \<times> cos_map \<times> pool) option" where
  "cos_map_add m x p =
     (if free_list m = -1 then do {
        (free, m, p) \<leftarrow> cos_map_grow m x p;
        if free = -1 then Some (-1, m, p) else cos_map_take m free x p }
      else cos_map_take m (free_list m) x p)"

definition cos_map_del :: "cos_map \<Rightarrow> int \<Rightarrow> (int \<times> cos_map) option" where
  "cos_map_del m mid = do {
     is \<leftarrow> u_cos_vect_lookup (data m) (cos_map_to_vect_id mid);
     (case is of None \<Rightarrow> Some (-1, m)
      | Some s \<Rightarrow>
          let v = (data m)\<lparr>vect := wr (vect (data m)) s NULL\<rparr> in do {
          is \<leftarrow> u_cos_vect_lookup v (cos_map_to_vect_freeid mid);
          (case is of None \<Rightarrow> None
           | Some s \<Rightarrow>
               Some (0, m\<lparr>data := v\<lparr>vect := wr (vect v) s (free_list m)\<rparr>, free_list := mid\<rparr>)) }) }"

text \<open>
  \<^verbatim>\<open>cos_map_alloc_map\<close> and \<^verbatim>\<open>cos_map_free_map\<close>; \<open>mem\<close> is what \<^verbatim>\<open>malloc\<close> returned
  for the descriptor of the map. Only the page \<^verbatim>\<open>data.vect\<close> points to is freed.
\<close>

definition cos_map_alloc_map :: "addr \<Rightarrow> cos_map \<Rightarrow> pool \<Rightarrow> (cos_map option \<times> pool) option" where
  "cos_map_alloc_map mem m p =
     (if mem = NULL then Some (None, p)
      else let (r, v, p) = cos_vect_alloc_vect_data (data m) p in
        if r \<noteq> 0 then Some (None, p)
        else do { m \<leftarrow> cos_map_init (m\<lparr>data := v\<rparr>); Some (Some m, p) })"

definition cos_map_free_map :: "cos_map \<Rightarrow> pool \<Rightarrow> pool" where
  "cos_map_free_map m p = free_page p (page_addr (vect (data m)))"

section \<open>The free list\<close>

fun free_chain :: "(int \<Rightarrow> int option) \<Rightarrow> int \<Rightarrow> int list \<Rightarrow> bool" where
  "free_chain g h [] \<longleftrightarrow> h = -1"
| "free_chain g h (m # ms) \<longleftrightarrow> h = m \<and> 0 \<le> m \<and>
     (case g (2 * m + 1) of None \<Rightarrow> False | Some nx \<Rightarrow> free_chain g nx ms)"

lemma free_chain_cong:
  "(\<And>i. i \<in> set ms \<Longrightarrow> g (2 * i + 1) = g' (2 * i + 1)) \<Longrightarrow> free_chain g h ms = free_chain g' h ms"
  by (induction ms arbitrary: h) (auto split: option.splits)

lemma free_chain_unique: "free_chain g h xs \<Longrightarrow> free_chain g h ys \<Longrightarrow> xs = ys"
proof (induction xs arbitrary: h ys)
  case Nil
  then show ?case by (cases ys) auto
next
  case (Cons x xs)
  then show ?case by (cases ys) (auto split: option.splits)
qed

definition ids :: "int \<Rightarrow> int \<Rightarrow> int list" where
  "ids lo hi = [lo..hi - 1]"

lemma ids_simps [simp]: "set (ids lo hi) = {lo..<hi}" "distinct (ids lo hi)"
  by (auto simp: ids_def)

lemma ids_Cons: "lo < hi \<Longrightarrow> ids lo hi = lo # ids (lo + 1) hi"
  unfolding ids_def by (subst upto_rec1) auto

lemma free_chain_ids:
  assumes "\<And>i. lo \<le> i \<Longrightarrow> i < hi \<Longrightarrow> g (2 * i + 1) = Some (if i = hi - 1 then -1 else i + 1)"
    and "0 \<le> lo" "lo < hi"
  shows "free_chain g lo (ids lo hi)"
  using assms
proof (induction "nat (hi - lo)" arbitrary: lo)
  case (Suc n)
  show ?case
  proof (cases "lo = hi - 1")
    case True
    then show ?thesis using Suc.prems(1) [of lo] Suc.prems(2,3) by (simp add: ids_def)
  next
    case False
    then have "free_chain g (lo + 1) (ids (lo + 1) hi)" using Suc.prems Suc.hyps(2) by (intro Suc.hyps(1)) auto
    then show ?thesis using Suc.prems False by (subst ids_Cons) auto
  qed
qed auto

lemma link_free_ids_props:
  assumes "cvect_wf v" "\<And>k. lower \<le> k \<Longrightarrow> k < lower + int n \<Longrightarrow> slots v (2 * k + 1) \<noteq> None"
  obtains v' where "link_free_ids n v lower = Some v'" "cvect_wf v'" "depth v' = depth v"
    "slots v' = (\<lambda>j. if odd j \<and> lower \<le> j div 2 \<and> j div 2 < lower + int n then Some (j div 2 + 1) else slots v j)"
proof -
  have "\<exists>v'. link_free_ids n v lower = Some v' \<and> cvect_wf v' \<and> depth v' = depth v \<and>
    slots v' = (\<lambda>j. if odd j \<and> lower \<le> j div 2 \<and> j div 2 < lower + int n then Some (j div 2 + 1) else slots v j)"
    using assms
  proof (induction n arbitrary: v lower)
    case 0
    then show ?case by (auto simp: fun_eq_iff)
  next
    case (Suc n)
    have f: "cos_map_to_vect_freeid lower = 2 * lower + 1"
      by (simp add: cos_map_to_vect_freeid_def cos_map_to_vect_id_def)
    have "slots v (2 * lower + 1) \<noteq> None" using Suc.prems by simp
    then obtain v1 where s: "u_cos_vect_set v (2 * lower + 1) (lower + 1) = Some (0, v1)"
      and v1: "cvect_wf v1" "slots v1 = (slots v)(2 * lower + 1 \<mapsto> lower + 1)" "depth v1 = depth v"
      by (rule u_cos_vect_set_Some [OF Suc.prems(1)])
    have "slots v1 (2 * k + 1) \<noteq> None" if "lower + 1 \<le> k" "k < lower + 1 + int n" for k
      using Suc.prems(2) [of k] that v1(2) by auto
    from Suc.IH [OF v1(1) this] obtain v' where v': "link_free_ids n v1 (lower + 1) = Some v'" "cvect_wf v'"
      "depth v' = depth v1"
      "slots v' = (\<lambda>j. if odd j \<and> lower + 1 \<le> j div 2 \<and> j div 2 < lower + 1 + int n
         then Some (j div 2 + 1) else slots v1 j)" by blast
    have "slots v' = (\<lambda>j. if odd j \<and> lower \<le> j div 2 \<and> j div 2 < lower + int (Suc n)
        then Some (j div 2 + 1) else slots v j)"
    proof
      fix j
      have "j = 2 * lower + 1 \<longleftrightarrow> odd j \<and> j div 2 = lower" by presburger
      then show "slots v' j = (if odd j \<and> lower \<le> j div 2 \<and> j div 2 < lower + int (Suc n)
        then Some (j div 2 + 1) else slots v j)"
        by (auto simp: v'(4) v1(2))
    qed
    then show ?case using v' v1(3) by (auto simp: f s)
  qed
  then show thesis using that by blast
qed


section \<open>The map invariant\<close>

text \<open>
  The ids below \<^verbatim>\<open>id_boundary\<close> have slots and no others do; \<open>fl\<close> is the list of free ids
  in the order of the links, and a free id holds \<^verbatim>\<open>NULL\<close>.
\<close>

definition map_inv :: "cos_map \<Rightarrow> int list \<Rightarrow> bool" where
  "map_inv m fl \<longleftrightarrow> cvect_wf (data m) \<and> 0 < id_boundary m \<and> 512 dvd id_boundary m
     \<and> (\<forall>j. slots (data m) j \<noteq> None \<longleftrightarrow> 0 \<le> j \<and> j < 2 * id_boundary m)
     \<and> free_chain (slots (data m)) (free_list m) fl \<and> distinct fl
     \<and> (\<forall>i \<in> set fl. i < id_boundary m \<and> slots (data m) (2 * i) = Some NULL)"

definition map_ok :: "cos_map \<Rightarrow> bool" where
  "map_ok m \<longleftrightarrow> (\<exists>fl. map_inv m fl)"

text \<open>The ids in use.\<close>

definition used :: "cos_map \<Rightarrow> int set" where
  "used m = {i. \<exists>fl. map_inv m fl \<and> 0 \<le> i \<and> i < id_boundary m \<and> i \<notin> set fl}"

lemma used_eq: "map_inv m fl \<Longrightarrow> used m = {0..<id_boundary m} - set fl"
  by (auto simp: used_def map_inv_def dest: free_chain_unique)

lemma map_inv_depth1:
  assumes "map_inv m fl" "depth (data m) = 1"
  shows "id_boundary m \<le> 512"
proof -
  have "slots (data m) (2 * id_boundary m - 1) \<noteq> None" using assms(1) by (auto simp: map_inv_def)
  then show ?thesis using assms(2) by (auto simp: slots_def split: if_splits)
qed

lemma map_inv_dom: "map_inv m fl \<Longrightarrow> slots (data m) j = None \<longleftrightarrow> \<not> (0 \<le> j \<and> j < 2 * id_boundary m)"
proof -
  assume "map_inv m fl"
  then have "slots (data m) j \<noteq> None \<longleftrightarrow> 0 \<le> j \<and> j < 2 * id_boundary m" unfolding map_inv_def by metis
  then show ?thesis by argo
qed

lemma cos_map_lookup_slots:
  "map_inv m fl \<Longrightarrow> cos_map_lookup m i = Some (case slots (data m) (2 * i) of None \<Rightarrow> NULL | Some x \<Rightarrow> x)"
  by (simp add: map_inv_def cos_map_lookup_def cos_vect_lookup_slots cos_map_to_vect_id_def mult.commute)

lemma free_chain_ge0: "free_chain g h fl \<Longrightarrow> i \<in> set fl \<Longrightarrow> 0 \<le> i"
  by (induction fl arbitrary: h) (auto split: option.splits)

lemma lookup_unused:
  assumes "map_inv m fl" "i \<notin> used m"
  shows "cos_map_lookup m i = Some NULL"
proof (cases "0 \<le> i \<and> i < id_boundary m")
  case True
  then have "i \<in> set fl" using assms used_eq by auto
  then show ?thesis using assms(1) cos_map_lookup_slots [OF assms(1)] by (auto simp: map_inv_def)
next
  case False
  then have "slots (data m) (2 * i) = None" using map_inv_dom [OF assms(1), of "2 * i"] by auto
  then show ?thesis using cos_map_lookup_slots [OF assms(1)] by simp
qed

lemma used_range: "i \<in> used m \<Longrightarrow> 0 \<le> i \<and> i < id_boundary m"
  by (auto simp: used_def)

lemma cos_map_init_props:
  assumes "page_addr (vect (data m)) \<noteq> NULL"
  obtains m' where "cos_map_init m = Some m'" "map_inv m' (ids 0 512)" "used m' = {}"
proof -
  obtain v1 where i1: "u_cos_vect_init (data m) = Some (0, v1)" and w1: "cvect_wf v1"
    and s1: "slots v1 = (\<lambda>j. if 0 \<le> j \<and> j < 1024 then Some NULL else None)"
    by (rule u_cos_vect_init_props [OF assms])
  obtain v2 where i2: "link_free_ids COS_MAP_BASE v1 0 = Some v2" and w2: "cvect_wf v2"
    and s2: "slots v2 = (\<lambda>j. if odd j \<and> 0 \<le> j div 2 \<and> j div 2 < 0 + int COS_MAP_BASE
                then Some (j div 2 + 1) else slots v1 j)"
    by (rule link_free_ids_props [of v1 0 COS_MAP_BASE]) (use w1 s1 in auto)
  have "slots v2 1023 \<noteq> None" by (simp add: s2)
  then obtain v3 where i3: "u_cos_vect_set v2 1023 (-1) = Some (0, v3)" and w3: "cvect_wf v3"
    and s3: "slots v3 = (slots v2)(1023 \<mapsto> -1)"
    by (rule u_cos_vect_set_Some [OF w2])
  let ?m = "m\<lparr>data := v3, free_list := 0, id_boundary := 512\<rparr>"
  have init: "cos_map_init m = Some ?m"
    by (simp add: cos_map_init_def i1 i2 i3 cos_map_to_vect_freeid_def cos_map_to_vect_id_def)
  have chain: "free_chain (slots v3) 0 (ids 0 512)"
  proof (rule free_chain_ids)
    fix i :: int assume "0 \<le> i" "i < 512"
    then show "slots v3 (2 * i + 1) = Some (if i = 512 - 1 then -1 else i + 1)" by (simp add: s3 s2)
  qed simp_all
  have dom: "slots v3 j \<noteq> None \<longleftrightarrow> 0 \<le> j \<and> j < 1024" for j
  proof -
    have "odd j \<and> 0 \<le> j div 2 \<and> j div 2 < 512 \<Longrightarrow> 0 \<le> j \<and> j < 1024" by presburger
    then show ?thesis by (auto simp: s3 s2 s1)
  qed
  have "slots v3 (2 * i) = Some NULL" if "0 \<le> i" "i < 512" for i
  proof -
    have "2 * i \<noteq> 1023" by presburger
    with that show ?thesis by (simp add: s3 s2 s1)
  qed
  then have inv: "map_inv ?m (ids 0 512)"
    using chain w3 dom by (simp add: map_inv_def del: not_None_eq)
  have "used ?m = {}" using used_eq [OF inv] by simp
  then show thesis by (rule that [OF init inv])
qed


section \<open>Adding and deleting\<close>

lemma cos_map_take_props:
  assumes wf: "cvect_wf (data m)" and some: "slots (data m) (2 * f) \<noteq> None"
  obtains v nx where "cos_map_take m f x p = Some (f, m\<lparr>data := v, free_list := nx\<rparr>, p)" "cvect_wf v"
    "slots (data m) (2 * f + 1) = Some nx" "slots v = (slots (data m))(2 * f \<mapsto> x, 2 * f + 1 \<mapsto> -1)"
proof -
  let ?v = "data m"
  from some obtain s where s: "vslot ?v (2 * f) = Some s" by (auto simp: slots_vslot)
  define v1 where "v1 = ?v\<lparr>vect := wr (vect ?v) s x\<rparr>"
  have w1: "cvect_wf v1" and s1: "slots v1 = (slots ?v)(2 * f \<mapsto> x)"
    using cvect_wf_wr [OF wf] slots_wr [OF wf s] by (simp_all add: v1_def)
  have n: "vslot v1 (2 * f + 1) = Some (slot_next s)"
    using vslot_next [OF w1 _ , of "2 * f" s] s by (simp add: v1_def vslot_wr)
  define v2 where "v2 = v1\<lparr>vect := wr (vect v1) (slot_next s) (-1)\<rparr>"
  have w2: "cvect_wf v2" and s2: "slots v2 = (slots v1)(2 * f + 1 \<mapsto> -1)"
    using cvect_wf_wr [OF w1] slots_wr [OF w1 n] by (simp_all add: v2_def)
  have nx: "slots ?v (2 * f + 1) = Some (rd (vect v1) (slot_next s))"
    using s1 n slots_vslot [of v1 "2 * f + 1"] by (simp add: fun_eq_iff)
  have "cos_map_take m f x p = Some (f, m\<lparr>data := v2, free_list := rd (vect v1) (slot_next s)\<rparr>, p)"
    using s wf by (simp add: cos_map_take_def u_cos_vect_lookup_eq cos_map_to_vect_id_def Let_def
        mult.commute v1_def v2_def)
  then show thesis using that [OF _ w2 nx] s1 s2 by simp
qed

text \<open>What a successful or failed addition does to the invariant, the ids in use and the values.\<close>

definition add_effect :: "cos_map \<Rightarrow> int \<Rightarrow> int \<Rightarrow> cos_map \<Rightarrow> bool" where
  "add_effect m x r m' \<longleftrightarrow> map_ok m' \<and>
     (r = -1 \<and> used m' = used m \<and> cos_map_lookup m' = cos_map_lookup m \<or>
      0 \<le> r \<and> r \<notin> used m \<and> used m' = insert r (used m) \<and>
        cos_map_lookup m' = (cos_map_lookup m)(r := Some x))"

lemma map_okI: "map_inv m fl \<Longrightarrow> map_ok m"
  by (auto simp: map_ok_def)

lemma cos_map_add_free:
  assumes inv: "map_inv m (f # fl)"
  obtains m' where "cos_map_add m x p = Some (f, m', p)" "add_effect m x f m'" "map_inv m' fl"
proof -
  let ?v = "data m"
  have wf: "cvect_wf ?v" and fe: "free_list m = f" "0 \<le> f" "f < id_boundary m" "f \<notin> set fl" "distinct fl"
    and fs: "\<And>i. i \<in> set fl \<Longrightarrow> i < id_boundary m \<and> slots ?v (2 * i) = Some NULL"
    and ch: "free_chain (slots ?v) f (f # fl)"
    using inv by (auto simp: map_inv_def split: option.splits)
  have "slots ?v (2 * f) \<noteq> None" using map_inv_dom [OF inv, of "2 * f"] fe by simp
  then obtain v nx where t: "cos_map_take m f x p = Some (f, m\<lparr>data := v, free_list := nx\<rparr>, p)"
    and w: "cvect_wf v" and nx: "slots ?v (2 * f + 1) = Some nx"
    and sl: "slots v = (slots ?v)(2 * f \<mapsto> x, 2 * f + 1 \<mapsto> -1)"
    by (rule cos_map_take_props [OF wf])
  let ?m = "m\<lparr>data := v, free_list := nx\<rparr>"
  have ne: "2 * f + 1 \<noteq> 2 * i" "2 * i + 1 \<noteq> 2 * f" for i by presburger+
  have "slots v (2 * i + 1) = slots ?v (2 * i + 1)" if "i \<in> set fl" for i
    using that fe(4) ne by (auto simp: sl)
  then have "free_chain (slots v) nx fl = free_chain (slots ?v) nx fl" by (rule free_chain_cong)
  then have ch': "free_chain (slots v) nx fl" using ch nx by simp
  have dom: "slots v j \<noteq> None \<longleftrightarrow> slots ?v j \<noteq> None" for j
    using nx \<open>slots ?v (2 * f) \<noteq> None\<close> by (auto simp: sl)
  have null: "slots v (2 * i) = Some NULL" if "i \<in> set fl" for i
    using that fe(4) fs [OF that] ne by (auto simp: sl)
  have inv': "map_inv ?m fl"
    using inv w ch' dom fe(5) fs null by (simp add: map_inv_def del: not_None_eq)
  have "used ?m = insert f (used m)" unfolding used_eq [OF inv] used_eq [OF inv'] using fe by auto
  moreover have "f \<notin> used m" unfolding used_eq [OF inv] by simp
  moreover have "cos_map_lookup ?m = (cos_map_lookup m)(f := Some x)"
    by (rule ext) (simp add: cos_map_lookup_slots [OF inv] cos_map_lookup_slots [OF inv'] sl ne)
  ultimately have "add_effect m x f ?m" using fe(2) map_okI [OF inv'] by (simp add: add_effect_def)
  moreover have "cos_map_add m x p = Some (f, ?m, p)" using t fe by (simp add: cos_map_add_def)
  ultimately show thesis using that inv' by blast
qed


lemma div_1024_eq: "(j :: int) div 1024 = k \<longleftrightarrow> 1024 * k \<le> j \<and> j < 1024 * k + 1024"
proof -
  have "j = 1024 * (j div 1024) + j mod 1024" "0 \<le> j mod 1024" "j mod 1024 < 1024" by simp_all
  then show ?thesis by linarith
qed

text \<open>
  Growing: the value is stored at the first new id, the new ids are linked, and only a failure
  to allocate the page, or a full vector, makes it return -1.
\<close>

lemma cos_map_grow_props:
  assumes inv: "map_inv m []" and x: "x \<noteq> NULL"
  defines "b \<equiv> id_boundary m"
  obtains (fails) v p' where "cos_map_grow m x p = Some (-1, m\<lparr>data := v\<rparr>, p')" "cvect_wf v" "slots v = slots (data m)"
  | (grows) v p' where "cos_map_grow m x p = Some (b, m\<lparr>data := v, id_boundary := b + 512\<rparr>, p')" "cvect_wf v"
      "\<And>j. slots v j = (if 2 * b \<le> j \<and> j < 2 * b + 1024
         then Some (if j = 2 * b then x else if even j then NULL else if j = 2 * b + 1023 then -1 else j div 2 + 1)
         else slots (data m) j)"
proof -
  let ?v = "data m"
  have wf: "cvect_wf ?v" and b: "0 < b" "512 dvd b" using inv by (auto simp: map_inv_def b_def)
  have none: "slots ?v (2 * b) = None" using map_inv_dom [OF inv] by (simp add: b_def)
  have one: "2 * b < 1024 ^ 2" if "depth ?v = 1" using map_inv_depth1 [OF inv that] by (simp add: b_def)
  have vb: "cos_map_to_vect_id b = 2 * b" by (simp add: cos_map_to_vect_id_def)
  obtain k where k: "b = 512 * k" using b by (elim dvdE)
  have pg: "j div 1024 = 2 * b div 1024 \<longleftrightarrow> 2 * b \<le> j \<and> j < 2 * b + 1024" for j
  proof -
    have "2 * b div 1024 = k" by (simp add: k)
    then show ?thesis using div_1024_eq [of j k] by (simp add: k)
  qed
  obtain r v1 p1 where a: "cos_vect_add_id ?v x (2 * b) p = Some (r, v1, p1)" and w1: "cvect_wf v1"
    and c: "r = -1 \<and> slots v1 = slots ?v \<or> r = 2 * b \<and> slots v1 =
       (\<lambda>j. if j div 1024 = 2 * b div 1024 \<and> slots ?v (2 * b) = None then Some 0 else slots ?v j)(2 * b \<mapsto> x)"
    by (rule cos_vect_add_id_props [OF wf _ one x, where p = p]) (use b in simp_all)
  from c show thesis
  proof
    assume "r = -1 \<and> slots v1 = slots ?v"
    then show thesis using fails [of v1 p1] w1 a x by (simp add: cos_map_grow_def vb flip: b_def)
  next
    assume "r = 2 * b \<and> slots v1 =
       (\<lambda>j. if j div 1024 = 2 * b div 1024 \<and> slots ?v (2 * b) = None then Some 0 else slots ?v j)(2 * b \<mapsto> x)"
    then have r: "r = 2 * b" and s1: "\<And>j. slots v1 j = (if j = 2 * b then Some x
        else if 2 * b \<le> j \<and> j < 2 * b + 1024 then Some 0 else slots ?v j)" unfolding pg none by auto
    obtain v2 where l: "link_free_ids COS_MAP_BASE v1 b = Some v2" and w2: "cvect_wf v2"
      and s2: "slots v2 = (\<lambda>j. if odd j \<and> b \<le> j div 2 \<and> j div 2 < b + int COS_MAP_BASE
         then Some (j div 2 + 1) else slots v1 j)"
      by (rule link_free_ids_props [OF w1, of b COS_MAP_BASE]) (simp add: s1)
    have f: "cos_map_to_vect_freeid (b + 512 - 1) = 2 * b + 1023"
      by (simp add: cos_map_to_vect_freeid_def cos_map_to_vect_id_def)
    have od: "odd j \<and> b \<le> j div 2 \<and> j div 2 < b + 512 \<longleftrightarrow> odd j \<and> 2 * b \<le> j \<and> j < 2 * b + 1024" for j
      by presburger
    have "slots v2 (2 * b + 1023) \<noteq> None" by (simp add: s2)
    then obtain v3 where u: "u_cos_vect_set v2 (2 * b + 1023) (-1) = Some (0, v3)" and w3: "cvect_wf v3"
      and s3: "slots v3 = (slots v2)(2 * b + 1023 \<mapsto> -1)" by (rule u_cos_vect_set_Some [OF w2])
    have "cos_map_grow m x p = Some (b, m\<lparr>data := v3, id_boundary := b + 512\<rparr>, p1)"
      using x r b a l u f by (simp add: cos_map_grow_def vb Let_def flip: b_def)
    moreover have "slots v3 j = (if 2 * b \<le> j \<and> j < 2 * b + 1024
         then Some (if j = 2 * b then x else if even j then NULL else if j = 2 * b + 1023 then -1 else j div 2 + 1)
         else slots ?v j)" for j
    proof -
      have "odd (2 * b + 1023)" by simp
      then show ?thesis using od [of j] by (auto simp: s3 s2 s1)
    qed
    ultimately show thesis using grows w3 by blast
  qed
qed


lemma cos_map_add_full:
  assumes inv: "map_inv m []" and x: "x \<noteq> NULL"
  obtains r m' p' where "cos_map_add m x p = Some (r, m', p')" "add_effect m x r m'"
proof -
  let ?b = "id_boundary m" and ?v = "data m"
  have fl: "free_list m = -1" and b: "0 < ?b" "512 dvd ?b" using inv by (auto simp: map_inv_def)
  have dom0: "slots ?v j = None \<longleftrightarrow> \<not> (0 \<le> j \<and> j < 2 * ?b)" for j by (rule map_inv_dom [OF inv])
  show thesis
  proof (rule cos_map_grow_props [OF inv x, of p])
    fix v p' assume g: "cos_map_grow m x p = Some (-1, m\<lparr>data := v\<rparr>, p')" and v: "cvect_wf v" "slots v = slots ?v"
    have inv': "map_inv (m\<lparr>data := v\<rparr>) []" using inv v by (simp add: map_inv_def)
    have "add_effect m x (-1) (m\<lparr>data := v\<rparr>)"
      using map_okI [OF inv'] v unfolding add_effect_def used_eq [OF inv] used_eq [OF inv']
      by (auto simp: fun_eq_iff cos_map_lookup_slots [OF inv] cos_map_lookup_slots [OF inv'])
    then show thesis using that [of "-1" "m\<lparr>data := v\<rparr>" p'] fl g by (simp add: cos_map_add_def)
  next
    fix v p' assume g: "cos_map_grow m x p = Some (?b, m\<lparr>data := v, id_boundary := ?b + 512\<rparr>, p')"
      and v: "cvect_wf v"
      and sl: "\<And>j. slots v j = (if 2 * ?b \<le> j \<and> j < 2 * ?b + 1024
         then Some (if j = 2 * ?b then x else if even j then NULL else if j = 2 * ?b + 1023 then -1 else j div 2 + 1)
         else slots ?v j)"
    let ?m = "m\<lparr>data := v, id_boundary := ?b + 512\<rparr>"
    have wfm: "cvect_wf (data ?m)" and "slots (data ?m) (2 * ?b) \<noteq> None" using v by (simp_all add: sl)
    from this(2) obtain w nx where t: "cos_map_take ?m ?b x p' = Some (?b, ?m\<lparr>data := w, free_list := nx\<rparr>, p')"
      and w: "cvect_wf w" and nx: "slots (data ?m) (2 * ?b + 1) = Some nx"
      and s2: "slots w = (slots (data ?m))(2 * ?b \<mapsto> x, 2 * ?b + 1 \<mapsto> -1)"
      by (rule cos_map_take_props [OF wfm])
    let ?n = "?m\<lparr>data := w, free_list := nx\<rparr>" and ?fl = "ids (?b + 1) (?b + 512)"
    have nx': "nx = ?b + 1" using nx by (simp add: sl)
    have ch: "free_chain (slots w) (?b + 1) ?fl"
    proof (rule free_chain_ids)
      fix i assume "?b + 1 \<le> i" "i < ?b + 512"
      then show "slots w (2 * i + 1) = Some (if i = ?b + 512 - 1 then -1 else i + 1)"
        by (simp add: s2 sl)
    qed (use b in simp_all)
    have dom: "slots w j \<noteq> None \<longleftrightarrow> 0 \<le> j \<and> j < 2 * (?b + 512)" for j
      using dom0 [of j] b by (simp add: s2 sl del: not_None_eq) linarith
    have null: "slots w (2 * i) = Some NULL" if "i \<in> set ?fl" for i
    proof -
      have "2 * i \<noteq> 2 * ?b + 1" by presburger
      then show ?thesis using that by (simp add: s2 sl)
    qed
    have inv': "map_inv ?n ?fl"
      using w b ch dom null nx' by (simp add: map_inv_def del: not_None_eq)
    have "used ?n = insert ?b (used m)" unfolding used_eq [OF inv] used_eq [OF inv'] using b by auto
    moreover have "?b \<notin> used m" unfolding used_eq [OF inv] by simp
    moreover have "cos_map_lookup ?n = (cos_map_lookup m)(?b := Some x)"
    proof
      fix i
      have "2 * i \<noteq> 2 * ?b + 1" by presburger
      then show "cos_map_lookup ?n i = ((cos_map_lookup m)(?b := Some x)) i"
        using dom0 [of "2 * i"] unfolding cos_map_lookup_slots [OF inv'] fun_upd_apply cos_map_lookup_slots [OF inv]
        by (auto simp: s2 sl split: option.splits)
    qed
    ultimately have "add_effect m x ?b ?n" using b map_okI [OF inv'] by (simp add: add_effect_def)
    moreover have "cos_map_add m x p = Some (?b, ?n, p')" using g t fl b by (simp add: cos_map_add_def)
    ultimately show thesis using that by blast
  qed
qed

lemma cos_map_add_props:
  assumes "map_ok m" "x \<noteq> NULL"
  shows "\<exists>r m' p'. cos_map_add m x p = Some (r, m', p') \<and> add_effect m x r m'"
proof -
  obtain fl where inv: "map_inv m fl" using assms(1) by (auto simp: map_ok_def)
  show ?thesis
  proof (cases fl)
    case Nil
    with inv have "map_inv m []" by simp
    then show ?thesis by (rule cos_map_add_full [OF _ assms(2), of m p]) blast
  next
    case (Cons f rest)
    with inv have "map_inv m (f # rest)" by simp
    then show ?thesis by (rule cos_map_add_free [of m f rest x p]) blast
  qed
qed

lemma cos_map_del_slots:
  assumes wf: "cvect_wf (data m)" and some: "slots (data m) (2 * i) \<noteq> None"
  obtains v where "cos_map_del m i = Some (0, m\<lparr>data := v, free_list := i\<rparr>)" "cvect_wf v"
    "slots v = (slots (data m))(2 * i \<mapsto> NULL, 2 * i + 1 \<mapsto> free_list m)"
proof -
  let ?v = "data m"
  obtain s where s: "vslot ?v (2 * i) = Some s" using some by (auto simp: slots_vslot)
  define v1 where "v1 = ?v\<lparr>vect := wr (vect ?v) s NULL\<rparr>"
  have w1: "cvect_wf v1" and s1: "slots v1 = (slots ?v)(2 * i \<mapsto> NULL)"
    using cvect_wf_wr [OF wf] slots_wr [OF wf s] by (simp_all add: v1_def)
  have n: "vslot v1 (2 * i + 1) = Some (slot_next s)"
    using vslot_next [OF w1 _ , of "2 * i" s] s by (simp add: v1_def vslot_wr)
  define v2 where "v2 = v1\<lparr>vect := wr (vect v1) (slot_next s) (free_list m)\<rparr>"
  have w2: "cvect_wf v2" and s2: "slots v2 = (slots ?v)(2 * i \<mapsto> NULL, 2 * i + 1 \<mapsto> free_list m)"
    using cvect_wf_wr [OF w1] slots_wr [OF w1 n] s1 by (simp_all add: v2_def)
  have "cos_map_del m i = Some (0, m\<lparr>data := v2, free_list := i\<rparr>)"
    using s n wf w1 by (simp add: cos_map_del_def u_cos_vect_lookup_eq cos_map_to_vect_id_def
        cos_map_to_vect_freeid_def mult.commute v2_def flip: v1_def)
  then show thesis using w2 s2 by (rule that)
qed

lemma cos_map_del_props:
  assumes ok: "map_ok m" and i: "i \<in> used m"
  shows "\<exists>m'. cos_map_del m i = Some (0, m') \<and> map_ok m' \<and> used m' = used m - {i} \<and>
    cos_map_lookup m' = (cos_map_lookup m)(i := Some NULL)"
proof -
  obtain fl where inv: "map_inv m fl" using ok by (auto simp: map_ok_def)
  let ?v = "data m"
  have wf: "cvect_wf ?v" using inv by (simp add: map_inv_def)
  have r: "0 \<le> i" "i < id_boundary m" "i \<notin> set fl" using i used_eq [OF inv] by auto
  have "slots ?v (2 * i) \<noteq> None" using map_inv_dom [OF inv, of "2 * i"] r by simp
  then obtain v2 where del: "cos_map_del m i = Some (0, m\<lparr>data := v2, free_list := i\<rparr>)" and w2: "cvect_wf v2"
    and s2: "slots v2 = (slots ?v)(2 * i \<mapsto> NULL, 2 * i + 1 \<mapsto> free_list m)"
    by (rule cos_map_del_slots [OF wf])
  let ?m = "m\<lparr>data := v2, free_list := i\<rparr>"
  have ne: "2 * i + 1 \<noteq> 2 * j" "2 * j + 1 \<noteq> 2 * i" for j by presburger+
  have "slots v2 (2 * j + 1) = slots ?v (2 * j + 1)" if "j \<in> set fl" for j
    using that r ne by (auto simp: s2)
  then have "free_chain (slots v2) (free_list m) fl = free_chain (slots ?v) (free_list m) fl"
    by (rule free_chain_cong)
  then have ch: "free_chain (slots v2) i (i # fl)" using inv r by (simp add: s2 map_inv_def)
  have dom: "slots v2 j \<noteq> None \<longleftrightarrow> 0 \<le> j \<and> j < 2 * id_boundary m" for j
    using map_inv_dom [OF inv, of j] r by (auto simp: s2)
  have null: "slots v2 (2 * j) = Some NULL" if "j \<in> set (i # fl)" for j
    using that inv ne by (auto simp: s2 map_inv_def)
  have inv': "map_inv ?m (i # fl)"
    using inv w2 ch dom null r by (simp add: map_inv_def del: not_None_eq free_chain.simps)
  have "used ?m = used m - {i}" unfolding used_eq [OF inv] used_eq [OF inv'] by auto
  moreover have "cos_map_lookup ?m = (cos_map_lookup m)(i := Some NULL)"
    by (rule ext) (simp add: cos_map_lookup_slots [OF inv] cos_map_lookup_slots [OF inv'] s2 ne)
  ultimately show ?thesis using del map_okI [OF inv'] by blast
qed


section \<open>The map as an interface\<close>

text \<open>
  What the clients of a map rely on. \<open>uses\<close> are the ids handed out and not deleted since. An
  addition hands out an id that is not in use, and no operation disturbs another id.
\<close>

locale id_map =
  fixes ok :: "'m \<Rightarrow> bool"
    and uses :: "'m \<Rightarrow> int set"
    and find :: "'m \<Rightarrow> int \<Rightarrow> int option"
    and add :: "'m \<Rightarrow> int \<Rightarrow> pool \<Rightarrow> (int \<times> 'm \<times> pool) option"
    and del :: "'m \<Rightarrow> int \<Rightarrow> (int \<times> 'm) option"
  assumes find_total: "ok m \<Longrightarrow> \<exists>x. find m i = Some x"
    and find_unused: "ok m \<Longrightarrow> i \<notin> uses m \<Longrightarrow> find m i = Some NULL"
    and uses_ge: "i \<in> uses m \<Longrightarrow> 0 \<le> i"
    and add_total: "ok m \<Longrightarrow> x \<noteq> NULL \<Longrightarrow> \<exists>r m' p'. add m x p = Some (r, m', p')"
    and add_ok: "ok m \<Longrightarrow> x \<noteq> NULL \<Longrightarrow> add m x p = Some (r, m', p') \<Longrightarrow> ok m'"
    and add_res: "ok m \<Longrightarrow> x \<noteq> NULL \<Longrightarrow> add m x p = Some (r, m', p') \<Longrightarrow> r = -1 \<or> 0 \<le> r \<and> r \<notin> uses m"
    and add_uses: "ok m \<Longrightarrow> x \<noteq> NULL \<Longrightarrow> add m x p = Some (r, m', p') \<Longrightarrow>
        uses m' = (if r = -1 then uses m else insert r (uses m))"
    and add_find: "ok m \<Longrightarrow> x \<noteq> NULL \<Longrightarrow> add m x p = Some (r, m', p') \<Longrightarrow>
        find m' i = (if r \<noteq> -1 \<and> i = r then Some x else find m i)"
    and del_total: "ok m \<Longrightarrow> i \<in> uses m \<Longrightarrow> \<exists>m'. del m i = Some (0, m')"
    and del_ok: "ok m \<Longrightarrow> i \<in> uses m \<Longrightarrow> del m i = Some (r, m') \<Longrightarrow> ok m'"
    and del_uses: "ok m \<Longrightarrow> i \<in> uses m \<Longrightarrow> del m i = Some (r, m') \<Longrightarrow> uses m' = uses m - {i}"
    and del_find: "ok m \<Longrightarrow> i \<in> uses m \<Longrightarrow> del m i = Some (r, m') \<Longrightarrow>
        find m' j = (if j = i then Some NULL else find m j)"
begin

lemma found_used: "ok m \<Longrightarrow> find m i = Some x \<Longrightarrow> x \<noteq> NULL \<Longrightarrow> i \<in> uses m"
  using find_unused [of m i] by auto

text \<open>Two additions in a row give different ids.\<close>

lemma add_distinct:
  "ok m \<Longrightarrow> x \<noteq> NULL \<Longrightarrow> y \<noteq> NULL \<Longrightarrow> add m x p = Some (r, m', p') \<Longrightarrow> r \<noteq> -1 \<Longrightarrow>
   add m' y p' = Some (s, m'', p'') \<Longrightarrow> s \<noteq> -1 \<Longrightarrow> r \<noteq> s"
  using add_res [of m' y p' s m'' p''] add_ok [of m x p r m' p'] add_uses [of m x p r m' p'] by auto

text \<open>Adding and deleting again restores the map.\<close>

lemma add_then_del:
  assumes "ok m" "x \<noteq> NULL" "add m x p = Some (r, m', p')" "r \<noteq> -1"
  shows "\<exists>m''. del m' r = Some (0, m'') \<and> ok m'' \<and> uses m'' = uses m \<and> find m'' = find m"
proof -
  have ok': "ok m'" and u: "uses m' = insert r (uses m)" "r \<notin> uses m"
    using add_ok [OF assms(1-3)] add_uses [OF assms(1-3)] add_res [OF assms(1-3)] assms(4) by auto
  then obtain m'' where d: "del m' r = Some (0, m'')" using del_total by blast
  have r: "r \<in> uses m'" using u by simp
  have "find m'' i = find m i" for i
    using del_find [OF ok' r d, of i] add_find [OF assms(1-3), of i] find_unused [OF assms(1) u(2)] assms(4) by auto
  then show ?thesis using d del_ok [OF ok' r d] del_uses [OF ok' r d] u by auto
qed

end

interpretation cm: id_map map_ok used cos_map_lookup cos_map_add cos_map_del
proof unfold_locales
  fix m i x p r m' p' j
  assume ok: "map_ok m"
  then obtain fl where inv: "map_inv m fl" by (auto simp: map_ok_def)
  show "\<exists>x. cos_map_lookup m i = Some x" by (simp add: cos_map_lookup_slots [OF inv])
  show "i \<notin> used m \<Longrightarrow> cos_map_lookup m i = Some NULL" by (rule lookup_unused [OF inv])
  show "i \<in> used m \<Longrightarrow> \<exists>m'. cos_map_del m i = Some (0, m')" using cos_map_del_props [OF ok] by blast
  { assume i: "i \<in> used m" and d: "cos_map_del m i = Some (r, m')"
    note props = cos_map_del_props [OF ok i]
    show "map_ok m'" using props d by auto
    show "used m' = used m - {i}" using props d by auto
    show "cos_map_lookup m' j = (if j = i then Some NULL else cos_map_lookup m j)" using props d by auto }
  { assume x: "x \<noteq> NULL"
    note props = cos_map_add_props [OF ok x, of p]
    show "\<exists>r m' p'. cos_map_add m x p = Some (r, m', p')" using props by blast
    assume a: "cos_map_add m x p = Some (r, m', p')"
    then have e: "add_effect m x r m'" using props by auto
    show "map_ok m'" using e by (simp add: add_effect_def)
    show "r = -1 \<or> 0 \<le> r \<and> r \<notin> used m" using e by (auto simp: add_effect_def)
    show "used m' = (if r = -1 then used m else insert r (used m))" using e by (auto simp: add_effect_def)
    show "cos_map_lookup m' i = (if r \<noteq> -1 \<and> i = r then Some x else cos_map_lookup m i)"
      using e by (auto simp: add_effect_def) }
qed (use used_range in blast)

section \<open>Properties\<close>

text \<open>
  C29: \<^verbatim>\<open>cos_map_add\<close> of a value other than \<^verbatim>\<open>NULL\<close> to a well-formed map never hits a
  \<^verbatim>\<open>BUG()\<close> or an assertion. It returns -1 and changes no value, or an id that was not in use,
  and then that id maps to the value, every other id maps to what it did, and the ids in use are
  the old ones and the new one.
\<close>

theorem cos_map_add_correct:
  assumes "map_ok m" "x \<noteq> NULL"
  shows "\<exists>r m' p'. cos_map_add m x p = Some (r, m', p') \<and> map_ok m' \<and>
    (if r = -1 then used m' = used m \<and> cos_map_lookup m' = cos_map_lookup m
     else 0 \<le> r \<and> r \<notin> used m \<and> used m' = insert r (used m) \<and>
       cos_map_lookup m' = (cos_map_lookup m)(r := Some x))"
proof -
  obtain r m' p' where a: "cos_map_add m x p = Some (r, m', p')" and e: "add_effect m x r m'"
    using cos_map_add_props [OF assms, of p] by blast
  show ?thesis by (intro exI conjI, rule a) (use e in \<open>auto simp: add_effect_def\<close>)
qed

definition blank_map :: cos_map where
  "blank_map = \<lparr>data = \<lparr>depth = 0, vect = Leaf PAGE_SIZE []\<rparr>, free_list = 0, id_boundary = 0\<rparr>"

definition empty_map :: cos_map where
  "empty_map = the (cos_map_init blank_map)"

lemma empty_map_ok: "map_ok empty_map" "used empty_map = {}" "map_inv empty_map (ids 0 512)"
proof -
  have "page_addr (vect (data blank_map)) \<noteq> NULL" by (simp add: blank_map_def)
  then obtain m where m: "cos_map_init blank_map = Some m" "map_inv m (ids 0 512)" "used m = {}"
    by (rule cos_map_init_props)
  then show "map_ok empty_map" "used empty_map = {}" "map_inv empty_map (ids 0 512)"
    by (simp_all add: empty_map_def map_okI)
qed

theorem cos_map_add_correct_witness:
  "\<exists>r m' p'. cos_map_add empty_map 42 two_pages = Some (r, m', p') \<and> map_ok m' \<and>
    (if r = -1 then used m' = used empty_map \<and> cos_map_lookup m' = cos_map_lookup empty_map
     else 0 \<le> r \<and> r \<notin> used empty_map \<and> used m' = insert r (used empty_map) \<and>
       cos_map_lookup m' = (cos_map_lookup empty_map)(r := Some 42))"
  by (rule cos_map_add_correct) (simp_all add: empty_map_ok)

text \<open>
  C30: an id obtained from \<^verbatim>\<open>cos_map_add\<close> can be given back: deleting it succeeds and the map
  is as it was before, with the same ids in use and the same values.
\<close>

theorem cos_map_add_del:
  assumes "map_ok m" "x \<noteq> NULL" "cos_map_add m x p = Some (r, m', p')" "r \<noteq> -1"
  shows "\<exists>m''. cos_map_del m' r = Some (0, m'') \<and> map_ok m'' \<and> used m'' = used m \<and>
    cos_map_lookup m'' = cos_map_lookup m"
  by (rule cm.add_then_del [OF assms])

theorem cos_map_add_del_witness:
  "\<exists>m' m''. cos_map_add empty_map 42 two_pages = Some (0, m', two_pages) \<and>
     cos_map_del m' 0 = Some (0, m'') \<and> map_ok m'' \<and> used m'' = {} \<and>
     cos_map_lookup m'' = cos_map_lookup empty_map"
proof -
  have "map_inv empty_map (0 # ids 1 512)" using empty_map_ok(3) ids_Cons [of 0 512] by simp
  then obtain m' where a: "cos_map_add empty_map 42 two_pages = Some (0, m', two_pages)"
    by (rule cos_map_add_free [where x = 42 and p = two_pages])
  show ?thesis using a cos_map_add_del [OF empty_map_ok(1) _ a] by (auto simp: empty_map_ok)
qed

text \<open>
  \<^verbatim>\<open>cos_map_del\<close> does not check that the id is in use. Deleting an id twice puts it on
  the free list twice: the next two additions both return it, and the second overwrites the first.
\<close>

theorem cos_map_double_delete:
  assumes "map_ok m" "i \<in> used m" "x \<noteq> NULL"
  shows "\<exists>m1 m2 m3 m4 p1 p2. cos_map_del m i = Some (0, m1) \<and> cos_map_del m1 i = Some (0, m2) \<and>
    cos_map_add m2 x p = Some (i, m3, p1) \<and> cos_map_add m3 y p1 = Some (i, m4, p2)"
proof -
  obtain fl where inv: "map_inv m fl" using assms(1) by (auto simp: map_ok_def)
  have i: "0 \<le> i" "i < id_boundary m" using used_range [OF assms(2)] by auto
  have "cvect_wf (data m)" "slots (data m) (2 * i) \<noteq> None"
    using inv map_inv_dom [OF inv, of "2 * i"] i by (simp_all add: map_inv_def)
  then obtain v1 where d1: "cos_map_del m i = Some (0, m\<lparr>data := v1, free_list := i\<rparr>)" and w1: "cvect_wf v1"
    and s1: "slots v1 = (slots (data m))(2 * i \<mapsto> NULL, 2 * i + 1 \<mapsto> free_list m)"
    by (rule cos_map_del_slots)
  let ?m1 = "m\<lparr>data := v1, free_list := i\<rparr>"
  have "cvect_wf (data ?m1)" "slots (data ?m1) (2 * i) \<noteq> None" using w1 s1 by simp_all
  then obtain v2 where d2: "cos_map_del ?m1 i = Some (0, ?m1\<lparr>data := v2, free_list := i\<rparr>)" and w2: "cvect_wf v2"
    and s2: "slots v2 = (slots (data ?m1))(2 * i \<mapsto> NULL, 2 * i + 1 \<mapsto> free_list ?m1)"
    by (rule cos_map_del_slots)
  let ?m2 = "?m1\<lparr>data := v2, free_list := i\<rparr>"
  have "cvect_wf (data ?m2)" "slots (data ?m2) (2 * i) \<noteq> None" using w2 s2 by simp_all
  then obtain v3 nx where a1: "cos_map_take ?m2 i x p = Some (i, ?m2\<lparr>data := v3, free_list := nx\<rparr>, p)"
    and w3: "cvect_wf v3" and nx: "slots (data ?m2) (2 * i + 1) = Some nx"
    and s3: "slots v3 = (slots (data ?m2))(2 * i \<mapsto> x, 2 * i + 1 \<mapsto> -1)"
    by (rule cos_map_take_props)
  have nx': "nx = i" using nx by (simp add: s2)
  let ?m3 = "?m2\<lparr>data := v3, free_list := i\<rparr>"
  have "cvect_wf (data ?m3)" "slots (data ?m3) (2 * i) \<noteq> None" using w3 s3 by simp_all
  then obtain v4 nx4 where a2: "cos_map_take ?m3 i y p = Some (i, ?m3\<lparr>data := v4, free_list := nx4\<rparr>, p)"
    by (rule cos_map_take_props)
  have "cos_map_add ?m2 x p = Some (i, ?m3, p)" using a1 i nx' by (simp add: cos_map_add_def)
  moreover have "cos_map_add ?m3 y p = Some (i, ?m3\<lparr>data := v4, free_list := nx4\<rparr>, p)"
    using a2 i by (simp add: cos_map_add_def)
  ultimately show ?thesis using d1 d2 by blast
qed

theorem cos_map_double_delete_witness:
  "\<exists>m. map_ok m \<and> used m = {0} \<and>
    (\<exists>m1 m2 m3 m4 p1 p2. cos_map_del m 0 = Some (0, m1) \<and> cos_map_del m1 0 = Some (0, m2) \<and>
      cos_map_add m2 42 two_pages = Some (0, m3, p1) \<and> cos_map_add m3 43 p1 = Some (0, m4, p2))"
proof -
  have "map_inv empty_map (0 # ids 1 512)" using empty_map_ok(3) ids_Cons [of 0 512] by simp
  then obtain m where a: "cos_map_add empty_map 42 two_pages = Some (0, m, two_pages)"
    by (rule cos_map_add_free [where x = 42 and p = two_pages])
  have m: "map_ok m" "used m = {0}"
    using cm.add_ok [OF empty_map_ok(1) _ a] cm.add_uses [OF empty_map_ok(1) _ a] by (simp_all add: empty_map_ok)
  then show ?thesis using cos_map_double_delete [of m 0 42 two_pages 43] by auto
qed

end
