(* ===== verification/Bitmap.thy ===== *)
theory Bitmap
  imports Prelude
begin

text \<open>
  \<^verbatim>\<open>components/include/bitmap.h\<close>: 32-bit word tricks and bitmaps stored as arrays of
  32-bit words. The array is a list of words; bit \<open>v\<close> of the bitmap is bit
  \<open>v mod 32\<close> of word \<open>v div 32\<close>. Indices are \<open>nat\<close> (the callers never pass a
  negative one); an index past the array is undefined behaviour in C, so the lemmas assume
  the index is in range. A search that finds nothing returns -1.
\<close>

abbreviation WORD_SIZE :: nat where
  "WORD_SIZE \<equiv> 32"

section \<open>Word arithmetic\<close>

definition ones :: "u32 \<Rightarrow> u32" where
  "ones x0 =
     (let x1 = x0 - (drop_bit 1 x0 AND 0x55555555);
          x2 = (drop_bit 2 x1 AND 0x33333333) + (x1 AND 0x33333333);
          x3 = (drop_bit 4 x2 + x2) AND 0x0F0F0F0F;
          x4 = x3 + drop_bit 8 x3;
          x5 = x4 + drop_bit 16 x4
      in x5 AND 0x0000003f)"

text \<open>The five statements \<^verbatim>\<open>x |= x >> 1; ... x |= x >> 16;\<close> that several functions share.\<close>

definition smear :: "u32 \<Rightarrow> u32" where
  "smear x0 =
     (let x1 = x0 OR drop_bit 1 x0;
          x2 = x1 OR drop_bit 2 x1;
          x3 = x2 OR drop_bit 4 x2;
          x4 = x3 OR drop_bit 8 x3
      in x4 OR drop_bit 16 x4)"

definition nlpow2 :: "u32 \<Rightarrow> u32" where
  "nlpow2 x = smear x + 1"

definition leqpow2 :: "u32 \<Rightarrow> u32" where
  "leqpow2 orig =
     (let v = smear (orig - 1) + 1
      in if v = orig then v else drop_bit 1 v)"

definition pow2 :: "u32 \<Rightarrow> u32" where
  "pow2 x = (if x AND (x - 1) = 0 then 1 else 0)"

definition power_2 :: "u32 \<Rightarrow> bool" where
  "power_2 v = (let smallest_set_bit = v AND - v in 1 < v \<and> smallest_set_bit = v)"

definition nlepow2 :: "u32 \<Rightarrow> u32" where
  "nlepow2 x = drop_bit (unat (pow2 x)) (nlpow2 x)"

definition ls_one :: "u32 \<Rightarrow> u32" where
  "ls_one x = x AND - x"

definition u_log32 :: "u32 \<Rightarrow> u32" where
  "u_log32 x =
     (let y0 = x AND (x - 1);
          y1 = y0 OR - y0;
          y = drop_bit (WORD_SIZE - 1) y1
      in ones (drop_bit 1 (smear x)) - y)"

definition log32 :: "u32 \<Rightarrow> u32" where
  "log32 x = ones (drop_bit 1 (smear x))"

definition log32up :: "u32 \<Rightarrow> u32" where
  "log32up x = (log32 x + 1) - pow2 x"

section \<open>Bitmaps\<close>

definition bitmap_set1 :: "u32 \<Rightarrow> nat \<Rightarrow> u32" where
  "bitmap_set1 x v = x OR push_bit v 1"

definition bitmap_check1 :: "u32 \<Rightarrow> nat \<Rightarrow> u32" where
  "bitmap_check1 x v = x AND push_bit v 1"

definition bitmap_unset1 :: "u32 \<Rightarrow> nat \<Rightarrow> u32" where
  "bitmap_unset1 x v = x AND NOT (push_bit v 1)"

definition bitmap_set :: "u32 list \<Rightarrow> nat \<Rightarrow> u32 list" where
  "bitmap_set x v =
     (let idx = v div WORD_SIZE; off = v mod WORD_SIZE
      in x[idx := bitmap_set1 (x ! idx) off])"

definition bitmap_check :: "u32 list \<Rightarrow> nat \<Rightarrow> u32" where
  "bitmap_check x v =
     (let idx = v div WORD_SIZE; off = v mod WORD_SIZE
      in bitmap_check1 (x ! idx) off)"

definition bitmap_unset :: "u32 list \<Rightarrow> nat \<Rightarrow> u32 list" where
  "bitmap_unset x v =
     (let idx = v div WORD_SIZE; off = v mod WORD_SIZE
      in x[idx := bitmap_unset1 (x ! idx) off])"

text \<open>\<open>bitmap_one x mx\<close>: the loop over \<open>i < mx\<close>, entered at \<open>i\<close>.\<close>

function bitmap_one_from :: "u32 list \<Rightarrow> nat \<Rightarrow> nat \<Rightarrow> int" where
  "bitmap_one_from x i mx =
     (if i < mx then
        if x ! i = 0 then bitmap_one_from x (Suc i) mx
        else int (i * WORD_SIZE) + uint (u_log32 (ls_one (x ! i)))
      else -1)"
  by pat_completeness auto
termination
  by (relation "measure (\<lambda>(x, i, mx). mx - i)") auto

declare bitmap_one_from.simps [simp del]

definition bitmap_one :: "u32 list \<Rightarrow> nat \<Rightarrow> int" where
  "bitmap_one x mx = bitmap_one_from x 0 mx"

definition bitmap_one_offset :: "u32 list \<Rightarrow> nat \<Rightarrow> nat \<Rightarrow> int" where
  "bitmap_one_offset x off mx =
     (let subword = off mod WORD_SIZE; words = off div WORD_SIZE;
          rest = (\<lambda>words.
            let ret = bitmap_one (drop words x) (mx - words)
            in if ret \<noteq> -1 then ret + int (words * WORD_SIZE) else ret)
      in if subword \<noteq> 0 then
           let v = drop_bit subword (x ! words)
           in if v \<noteq> 0 then uint (u_log32 (ls_one v)) + int off
              else rest (words + 1)
         else rest words)"

function bitmap_set_contig_from :: "u32 list \<Rightarrow> nat \<Rightarrow> nat \<Rightarrow> bool \<Rightarrow> u32 list" where
  "bitmap_set_contig_from x i upper one =
     (if i < upper then
        bitmap_set_contig_from (if one then bitmap_set x i else bitmap_unset x i)
          (Suc i) upper one
      else x)"
  by pat_completeness auto
termination
  by (relation "measure (\<lambda>(x, i, upper, one). upper - i)") auto

declare bitmap_set_contig_from.simps [simp del]

definition bitmap_set_contig :: "u32 list \<Rightarrow> nat \<Rightarrow> nat \<Rightarrow> bool \<Rightarrow> u32 list" where
  "bitmap_set_contig x off extent one = bitmap_set_contig_from x off (off + extent) one"

section \<open>The word tricks compute logarithms\<close>

lemma bit_u32_less: "bit (x :: u32) n \<Longrightarrow> n < 32"
  using bit_imp_le_length [of x n] by simp

lemma window_split:
  "(\<exists>m. n \<le> m \<and> m < n + 2 * w \<and> P m) \<longleftrightarrow>
   (\<exists>m. n \<le> m \<and> m < n + w \<and> P m) \<or> (\<exists>m. w + n \<le> m \<and> m < w + n + w \<and> P (m :: nat))"
  (is "?l \<longleftrightarrow> ?r")
proof
  assume ?l
  then obtain m where m: "n \<le> m" "m < n + 2 * w" "P m" by blast
  then show ?r by (cases "m < n + w") (auto intro!: exI [of _ m])
next
  assume ?r
  then obtain m where "P m" and "n \<le> m \<and> m < n + w \<or> w + n \<le> m \<and> m < w + n + w" by blast
  then have "n \<le> m \<and> m < n + 2 * w \<and> P m" by auto
  then show ?l by blast
qed

lemma smear_stage:
  assumes "\<And>n. bit (y :: u32) n \<longleftrightarrow> (\<exists>m. n \<le> m \<and> m < n + w \<and> bit (x :: u32) m)"
  shows "bit (y OR drop_bit w y) n \<longleftrightarrow> (\<exists>m. n \<le> m \<and> m < n + 2 * w \<and> bit x m)"
  by (simp only: bit_or_iff bit_drop_bit_eq comp_apply assms window_split)

lemma bit_smear: "bit (smear x) n \<longleftrightarrow> (\<exists>m. n \<le> m \<and> m < n + 32 \<and> bit x m)"
proof -
  have s0: "bit x n \<longleftrightarrow> (\<exists>m. n \<le> m \<and> m < n + 1 \<and> bit x m)" for n
    by (auto simp: less_Suc_eq_le dest: le_antisym)
  note s1 = smear_stage [OF s0, simplified mult_1_right]
  note s2 = smear_stage [OF s1]
  note s3 = smear_stage [OF s2]
  note s4 = smear_stage [OF s3]
  note s5 = smear_stage [OF s4]
  show ?thesis unfolding smear_def Let_def using s5 [of n] by simp
qed

lemma smear_mask:
  assumes "bit x k" and "\<And>m. bit x m \<Longrightarrow> m \<le> k"
  shows "smear x = mask (Suc k)"
proof (rule bit_eqI)
  fix n assume "possible_bit TYPE(u32) n"
  then have "n < 32" by simp
  have "k < 32" using assms(1) by (rule bit_u32_less)
  show "bit (smear x) n = bit (mask (Suc k) :: u32) n"
  proof (cases "n \<le> k")
    case True
    then have "bit (smear x) n" unfolding bit_smear using assms(1) \<open>k < 32\<close> by force
    with True \<open>k < 32\<close> show ?thesis by (simp add: bit_mask_iff)
  next
    case False
    then have "\<not> bit (smear x) n" unfolding bit_smear using assms(2) by force
    with False show ?thesis by (simp add: bit_mask_iff)
  qed
qed

lemma odd_and_minus: "odd (q :: u32) \<Longrightarrow> q AND - q = 1"
proof (rule bit_eqI)
  fix n assume "odd q" and "possible_bit TYPE(u32) n"
  then have n: "n < 32" by simp
  have "bit (- q) n = (\<not> bit (q - 1) n)"
    using n by (simp add: minus_eq_not_minus_1 bit_not_iff)
  moreover have "bit (q - 1) n = (bit q n \<and> n \<noteq> 0)"
    using even_bit_succ_iff [of "q - 1" n] \<open>odd q\<close> by (cases "n = 0") (auto simp: bit_0)
  ultimately show "bit (q AND - q) n = bit (1 :: u32) n"
    using \<open>odd q\<close> by (auto simp: bit_and_iff bit_1_iff bit_0)
qed

lemma ls_one_push_bit:
  assumes "x = push_bit k q" and "odd q"
  shows "ls_one x = 2 ^ k"
proof -
  have "- x = push_bit k (- q)"
    by (simp add: assms(1) push_bit_eq_mult)
  then have "ls_one x = push_bit k (q AND - q)"
    by (simp only: ls_one_def assms(1) push_bit_and)
  then show ?thesis by (simp add: odd_and_minus [OF assms(2)])
qed

lemma ls_one_least:
  assumes "bit x k" and "\<And>m. m < k \<Longrightarrow> \<not> bit x m"
  shows "ls_one x = 2 ^ k"
proof -
  let ?q = "drop_bit k x"
  have odd: "odd ?q" using assms(1) by (simp add: bit_iff_odd_drop_bit)
  have "take_bit k x = 0"
    by (rule bit_eqI) (use assms(2) in \<open>auto simp: bit_take_bit_iff\<close>)
  then have "x = push_bit k ?q"
    using bits_ident [of k x] by simp
  then show ?thesis using odd by (rule ls_one_push_bit)
qed

lemma ones_mask: "k \<le> 32 \<Longrightarrow> ones (mask k) = of_nat k"
proof -
  have "list_all (\<lambda>k. ones (mask k) = of_nat k) [0..<33]" by code_simp
  then show "k \<le> 32 \<Longrightarrow> ?thesis" by (simp add: list_all_iff)
qed

lemma obtain_greatest_bit:
  assumes "x \<noteq> (0 :: u32)"
  obtains k where "bit x k" and "\<And>m. bit x m \<Longrightarrow> m \<le> k"
proof -
  from assms obtain n where "bit x n" by (auto simp: bit_eq_iff)
  moreover have bounded: "\<And>m. bit x m \<Longrightarrow> m \<le> 32" by (auto dest: bit_u32_less)
  ultimately have "bit x (GREATEST m. bit x m)" by (rule GreatestI_nat)
  then show ?thesis using that Greatest_le_nat [of "bit x" _ 32] bounded by blast
qed

lemma unat_highest_bit:
  assumes "bit x k" and "\<And>m. bit x m \<Longrightarrow> m \<le> k"
  shows "2 ^ k \<le> unat (x :: u32)" and "unat x < 2 ^ Suc k"
proof -
  have "bit (unat x) k" using assms(1) by (simp add: bit_unsigned_iff bit_u32_less)
  then have "odd (unat x div 2 ^ k)" by (simp only: bit_iff_odd not_False_eq_True)
  then show "2 ^ k \<le> unat x" by (metis div_less even_zero linorder_not_le)
  have "take_bit (Suc k) x = x"
    by (rule bit_eqI) (use assms(2) in \<open>auto simp: bit_take_bit_iff less_Suc_eq_le\<close>)
  then show "unat x < 2 ^ Suc k"
    by (metis take_bit_nat_less_exp unsigned_take_bit_eq)
qed

lemma unat_exp_u32: "n < 32 \<Longrightarrow> unat (2 ^ n :: u32) = 2 ^ n"
  using unat_of_nat [where ?'a = 32, of "2 ^ n"] power_strict_increasing [of n 32 "2 :: nat"]
  by simp

lemma log32_floor:
  assumes "bit x k" and "\<And>m. bit x m \<Longrightarrow> m \<le> k"
  shows "log32 x = of_nat k"
proof -
  have "k < 32" using assms(1) by (rule bit_u32_less)
  have "drop_bit 1 (mask (Suc k) :: u32) = mask k"
    by (rule bit_eqI) (use \<open>k < 32\<close> in \<open>auto simp: bit_drop_bit_eq bit_mask_iff\<close>)
  then show ?thesis
    using \<open>k < 32\<close> by (simp add: log32_def smear_mask [OF assms] ones_mask)
qed

lemma u_log32_exp:
  assumes "k < 32"
  shows "u_log32 (2 ^ k) = of_nat k"
proof -
  have bit_exp: "bit (2 ^ k :: u32) m \<longleftrightarrow> m = k" for m
    using assms by (auto simp: bit_exp_iff)
  have "2 ^ k - 1 = (mask k :: u32)"
    by (simp add: mask_eq_exp_minus_1)
  then have "2 ^ k AND (2 ^ k - 1 :: u32) = 0"
    by (intro bit_eqI) (simp add: bit_and_iff bit_exp bit_mask_iff)
  then have "u_log32 (2 ^ k) = log32 (2 ^ k)"
    by (simp add: u_log32_def log32_def Let_def)
  also have "\<dots> = of_nat k"
    by (rule log32_floor) (simp_all add: bit_exp)
  finally show ?thesis .
qed

lemma u_log32_ls_one:
  assumes "bit x k" and "\<And>m. m < k \<Longrightarrow> \<not> bit x m"
  shows "uint (u_log32 (ls_one x)) = int k"
proof -
  have "k < 32" using assms(1) by (rule bit_u32_less)
  then show ?thesis
    by (simp add: ls_one_least [OF assms] u_log32_exp uint_nat unat_of_nat)
qed

lemma obtain_least_bit:
  assumes "x \<noteq> (0 :: u32)"
  obtains k where "bit x k" and "\<And>m. m < k \<Longrightarrow> \<not> bit x m"
proof -
  from assms obtain n where "bit x n" by (auto simp: bit_eq_iff)
  then have "bit x (LEAST n. bit x n)" by (rule LeastI)
  then show ?thesis using that not_less_Least by blast
qed


section \<open>Bitmaps as sets of indices\<close>

text \<open>The set a bitmap stands for: \<open>bit_at x v\<close> says that index \<open>v\<close> is in it.\<close>

definition bit_at :: "u32 list \<Rightarrow> nat \<Rightarrow> bool" where
  "bit_at x v = bit (x ! (v div WORD_SIZE)) (v mod WORD_SIZE)"

lemma div_less_length: "v < WORD_SIZE * length x \<Longrightarrow> v div WORD_SIZE < length x"
  by (simp add: less_mult_imp_div_less mult.commute)

lemma same_slot: "(v :: nat) div n = w div n \<Longrightarrow> v mod n = w mod n \<Longrightarrow> v = w"
  by (metis div_mult_mod_eq)

lemma bit_exp_u32: "bit (2 ^ v :: u32) n \<longleftrightarrow> n = v \<and> v < 32"
  by (auto simp: bit_exp_iff)

lemma and_exp_eq_0_iff: "v < 32 \<Longrightarrow> (x :: u32) AND 2 ^ v = 0 \<longleftrightarrow> \<not> bit x v"
  by (auto simp: bit_eq_iff [of "x AND 2 ^ v" 0] bit_and_iff bit_exp_u32)

lemma bit_at_update:
  assumes "v < WORD_SIZE * length x"
  shows "bit_at (x[v div WORD_SIZE := y]) w =
    (if w div WORD_SIZE = v div WORD_SIZE then bit y (w mod WORD_SIZE) else bit_at x w)"
  using div_less_length [OF assms] by (simp add: bit_at_def nth_list_update_if)

lemma bit_at_bitmap_set:
  assumes "v < WORD_SIZE * length x"
  shows "bit_at (bitmap_set x v) w \<longleftrightarrow> w = v \<or> bit_at x w"
  unfolding bitmap_set_def bitmap_set1_def Let_def bit_at_update [OF assms]
  using same_slot [of w 32 v] by (auto simp: bit_or_iff bit_exp_u32 bit_at_def)

lemma bit_at_bitmap_unset:
  assumes "v < WORD_SIZE * length x"
  shows "bit_at (bitmap_unset x v) w \<longleftrightarrow> w \<noteq> v \<and> bit_at x w"
  unfolding bitmap_unset_def bitmap_unset1_def Let_def bit_at_update [OF assms]
  using same_slot [of w 32 v]
  by (auto simp: bit_and_iff bit_not_iff bit_exp_u32 bit_at_def)

lemma bitmap_check_iff: "bitmap_check x v \<noteq> 0 \<longleftrightarrow> bit_at x v"
  by (simp add: bit_at_def bitmap_check_def bitmap_check1_def Let_def and_exp_eq_0_iff)

lemma length_bitmap_set [simp]: "length (bitmap_set x v) = length x"
  by (simp add: bitmap_set_def Let_def)

lemma length_bitmap_unset [simp]: "length (bitmap_unset x v) = length x"
  by (simp add: bitmap_unset_def Let_def)

definition first_one :: "u32 list \<Rightarrow> nat \<Rightarrow> nat \<Rightarrow> int \<Rightarrow> bool" where
  "first_one x lo hi r \<longleftrightarrow>
     r = -1 \<and> (\<forall>v. lo \<le> v \<and> v < hi \<longrightarrow> \<not> bit_at x v)
   \<or> (\<exists>k. r = int k \<and> lo \<le> k \<and> k < hi \<and> bit_at x k \<and> (\<forall>v. lo \<le> v \<and> v < k \<longrightarrow> \<not> bit_at x v))"

lemma bit_at_word: "32 * i \<le> v \<Longrightarrow> v < 32 * Suc i \<Longrightarrow> bit_at x v = bit (x ! i) (v - 32 * i)"
proof -
  assume "32 * i \<le> v" "v < 32 * Suc i"
  then have "v div 32 = i" and "v mod 32 = v - 32 * i"
    by (simp_all add: div_nat_eqI minus_mult_div_eq_mod [symmetric])
  then show ?thesis by (simp add: bit_at_def)
qed

lemma first_one_word:
  assumes "32 * i + s \<le> lo" "lo = 32 * i + s" "s < 32" "drop_bit s (x ! i) \<noteq> 0" "Suc i \<le> mx"
  shows "first_one x lo (32 * mx) (uint (u_log32 (ls_one (drop_bit s (x ! i)))) + int lo)"
proof -
  from assms(4) obtain k where k: "bit (drop_bit s (x ! i)) k"
    and least: "\<And>m. m < k \<Longrightarrow> \<not> bit (drop_bit s (x ! i)) m" by (rule obtain_least_bit) blast
  have sk: "bit (x ! i) (s + k)" using k by (simp add: bit_drop_bit_eq)
  then have "s + k < 32" by (rule bit_u32_less)
  have "bit_at x (lo + k)" using sk \<open>s + k < 32\<close> assms(2) by (subst bit_at_word [of i]) (simp_all add: ac_simps)
  moreover have "\<not> bit_at x v" if "lo \<le> v" "v < lo + k" for v
    using least [of "v - lo"] that \<open>s + k < 32\<close> assms(2)
    by (subst bit_at_word [of i]) (auto simp: bit_drop_bit_eq)
  moreover have "lo + k < 32 * mx" using \<open>s + k < 32\<close> assms(2,5) by simp
  ultimately show ?thesis
    using u_log32_ls_one [OF k least] unfolding first_one_def by (auto intro!: exI [of _ "lo + k"])
qed

lemma first_one_extend:
  assumes "first_one x lo hi r" and "lo' \<le> lo" and "\<And>v. lo' \<le> v \<Longrightarrow> v < lo \<Longrightarrow> \<not> bit_at x v"
  shows "first_one x lo' hi r"
proof -
  have "lo \<le> v \<or> \<not> bit_at x v" if "lo' \<le> v" for v
    using assms(3) [OF that] by (cases "lo \<le> v") auto
  then show ?thesis
    using assms(1,2) unfolding first_one_def by (blast intro: order_trans)
qed

lemma bitmap_one_from_first:
  "i \<le> mx \<Longrightarrow> first_one x (32 * i) (32 * mx) (bitmap_one_from x i mx)"
proof (induction x i mx rule: bitmap_one_from.induct)
  case (1 x i mx)
  show ?case
  proof (cases "i < mx")
    case False
    with "1.prems" show ?thesis by (auto simp: bitmap_one_from.simps first_one_def)
  next
    case True
    show ?thesis
    proof (cases "x ! i = 0")
      case False
      with True show ?thesis
        using first_one_word [of i 0 "32 * i" x mx] by (simp add: bitmap_one_from.simps ac_simps)
    next
      case z: True
      have none: "\<not> bit_at x v" if "32 * i \<le> v" "v < 32 * Suc i" for v
        using bit_at_word [OF that, of x] z by simp
      have "first_one x (32 * Suc i) (32 * mx) (bitmap_one_from x (Suc i) mx)"
        using "1.IH" True z by simp
      then have "first_one x (32 * i) (32 * mx) (bitmap_one_from x (Suc i) mx)"
        by (rule first_one_extend) (use none in auto)
      with True z show ?thesis by (simp add: bitmap_one_from.simps [of x i])
    qed
  qed
qed

lemma bitmap_one_first: "first_one x 0 (32 * mx) (bitmap_one x mx)"
  using bitmap_one_from_first [of 0 mx x] by (simp add: bitmap_one_def)

lemma bitmap_one_from_ge: "bitmap_one_from x i mx = -1 \<or> int (32 * i) \<le> bitmap_one_from x i mx"
proof (induction x i mx rule: bitmap_one_from.induct)
  case (1 x i mx)
  then show ?case by (subst (1 2) bitmap_one_from.simps) auto
qed

lemma bitmap_one_offset_ge:
  "bitmap_one_offset x off mx = -1 \<or> int off \<le> bitmap_one_offset x off mx"
proof -
  have rest: "off \<le> 32 * w \<Longrightarrow> r = bitmap_one (drop w x) (mx - w) \<Longrightarrow> r \<noteq> -1 \<Longrightarrow> int off \<le> r + int (w * 32)" for w r
    using bitmap_one_from_ge [of "drop w x" 0 "mx - w"] by (auto simp: bitmap_one_def)
  show ?thesis
  proof (cases "off mod 32 = 0")
    case True
    then have "off \<le> 32 * (off div 32)" by auto
    from rest [OF this refl] True show ?thesis by (simp add: bitmap_one_offset_def Let_def)
  next
    case False
    have "off \<le> 32 * (off div 32 + 1)" by auto
    from rest [OF this refl] False show ?thesis
      by (cases "drop_bit (off mod 32) (x ! (off div 32)) = 0")
        (simp_all add: bitmap_one_offset_def Let_def)
  qed
qed

lemma bit_at_drop: "w \<le> length x \<Longrightarrow> bit_at (drop w x) v = bit_at x (v + 32 * w)"
  by (simp add: bit_at_def ac_simps)

lemma first_one_drop:
  assumes "w \<le> length x" and "w \<le> mx" and "first_one (drop w x) 0 (32 * (mx - w)) r"
  shows "first_one x (32 * w) (32 * mx) (if r \<noteq> -1 then r + int (w * 32) else r)"
proof -
  have eq: "bit_at x v = bit_at (drop w x) (v - 32 * w)" if "32 * w \<le> v" for v
    using that assms(1) by (simp add: bit_at_drop)
  from assms(3) [unfolded first_one_def] show ?thesis
  proof (elim disjE exE conjE)
    assume "r = -1" and "\<forall>v. 0 \<le> v \<and> v < 32 * (mx - w) \<longrightarrow> \<not> bit_at (drop w x) v"
    then show "first_one x (32 * w) (32 * mx) (if r \<noteq> -1 then r + int (w * 32) else r)"
      unfolding first_one_def using eq by auto
  next
    fix k assume k: "r = int k" "k < 32 * (mx - w)" "bit_at (drop w x) k"
      and least: "\<forall>v. 0 \<le> v \<and> v < k \<longrightarrow> \<not> bit_at (drop w x) v"
    have "bit_at x (k + 32 * w)" using k(3) assms(1) by (simp add: bit_at_drop)
    moreover have "\<not> bit_at x v" if "32 * w \<le> v" "v < k + 32 * w" for v
      using that least eq [of v] by auto
    ultimately show "first_one x (32 * w) (32 * mx) (if r \<noteq> -1 then r + int (w * 32) else r)"
      unfolding first_one_def using k by (auto intro!: exI [of _ "k + 32 * w"])
  qed
qed

lemma bitmap_one_offset_first:
  assumes "off < 32 * mx" and "mx \<le> length x"
  shows "first_one x off (32 * mx) (bitmap_one_offset x off mx)"
proof -
  let ?w = "off div 32" and ?s = "off mod 32"
  have off: "off = 32 * ?w + ?s" by simp
  have w: "Suc ?w \<le> mx" using assms(1) by (simp add: less_mult_imp_div_less Suc_le_eq mult.commute)
  have rest: "first_one x (32 * w) (32 * mx)
      (let ret = bitmap_one (drop w x) (mx - w)
       in if ret \<noteq> -1 then ret + int (w * 32) else ret)" if "w \<le> mx" for w
    unfolding Let_def using that assms(2) by (intro first_one_drop bitmap_one_first) auto
  show ?thesis
  proof (cases "?s = 0")
    case True
    then have "32 * ?w = off" by auto
    with True rest [of ?w] w show ?thesis
      unfolding bitmap_one_offset_def Let_def by simp
  next
    case s: False
    show ?thesis
    proof (cases "drop_bit ?s (x ! ?w) = 0")
      case False
      with s w off show ?thesis
        using first_one_word [of ?w ?s off x mx] by (simp add: bitmap_one_offset_def Let_def)
    next
      case True
      have index: "v - 32 * ?w = ?s + (v - off)" if "off \<le> v" for v
        using that off by linarith
      have none: "\<not> bit_at x v" if "off \<le> v" "v < 32 * (?w + 1)" for v
      proof -
        have "bit_at x v = bit (drop_bit ?s (x ! ?w)) (v - off)"
          using that off index [OF that(1)] by (subst bit_at_word [of ?w]) (simp_all add: bit_drop_bit_eq)
        with True show ?thesis by simp
      qed
      have le: "off \<le> 32 * (?w + 1)" and mx: "?w + 1 \<le> mx" using off w by simp_all
      have "first_one x off (32 * mx)
          (let ret = bitmap_one (drop (?w + 1) x) (mx - (?w + 1))
           in if ret \<noteq> -1 then ret + int ((?w + 1) * 32) else ret)"
        by (rule first_one_extend [OF rest [OF mx] le none])
      with s True show ?thesis by (simp add: bitmap_one_offset_def Let_def split: if_splits)
    qed
  qed
qed
lemma bitmap_one_offset_progress:
  "\<not> bitmap_one_offset x i mx < 0 \<Longrightarrow> i < Suc (nat (bitmap_one_offset x i mx))"
  using bitmap_one_offset_ge [of x i mx] by auto

section \<open>Searching for a run of ones\<close>

text \<open>
  \<^verbatim>\<open>bitmap_contiguous_ones\<close>: the loop variable \<^verbatim>\<open>i\<close> is both the loop counter and the
  position of the one found; \<^verbatim>\<open>(int)(max * sizeof(u32_t))\<close> is 4 times the number of words.
  The parameter \<^verbatim>\<open>off\<close> is never read.
\<close>

function contiguous_from :: "u32 list \<Rightarrow> nat \<Rightarrow> nat \<Rightarrow> nat \<Rightarrow> nat \<Rightarrow> int" where
  "contiguous_from x i start extent mx =
     (if i < mx * 4 then
        let prev = i; i' = bitmap_one_offset x i mx
        in if i' < 0 then -1
           else if i' \<noteq> int prev then contiguous_from x (nat i' + 1) (nat i') extent mx
           else if i' - int start = int extent then int start
           else contiguous_from x (nat i' + 1) start extent mx
      else -1)"
  by pat_completeness auto
termination
  by (relation "measure (\<lambda>(x, i, start, extent, mx). mx * 4 - i)")
    (auto intro!: diff_less_mono2 bitmap_one_offset_progress)

declare contiguous_from.simps [simp del]

definition bitmap_contiguous_ones :: "u32 list \<Rightarrow> nat \<Rightarrow> nat \<Rightarrow> nat \<Rightarrow> int" where
  "bitmap_contiguous_ones x off extent mx = contiguous_from x 0 0 extent mx"

definition bitmap_extent_find_set ::
    "u32 list \<Rightarrow> nat \<Rightarrow> nat \<Rightarrow> nat \<Rightarrow> int \<times> u32 list" where
  "bitmap_extent_find_set x off extent mx =
     (let r = bitmap_contiguous_ones x off extent mx
      in if r < 0 then (r, x) else (r, bitmap_set_contig x (nat r) extent False))"

lemma contiguous_from_run:
  assumes "contiguous_from x i start extent mx = r" and "0 \<le> r" and "mx \<le> length x"
    and "start \<le> i" and "\<And>v. start \<le> v \<Longrightarrow> v < i \<Longrightarrow> bit_at x v"
  shows "\<exists>k. r = int k \<and> k + extent < 32 * mx \<and> (\<forall>v. k \<le> v \<and> v \<le> k + extent \<longrightarrow> bit_at x v)"
  using assms
proof (induction x i start extent mx rule: contiguous_from.induct)
  case (1 x i start extent mx)
  let ?o = "bitmap_one_offset x i mx"
  have lt: "i < mx * 4" using "1.prems"(1,2) by (auto simp: contiguous_from.simps [of x i] split: if_splits)
  have nn: "\<not> ?o < 0" using "1.prems"(1,2) lt by (auto simp: contiguous_from.simps [of x i] Let_def split: if_splits)
  have "first_one x i (32 * mx) ?o"
    using lt "1.prems"(3) by (intro bitmap_one_offset_first) auto
  with nn obtain k where k: "?o = int k" "i \<le> k" "k < 32 * mx" "bit_at x k"
    by (auto simp: first_one_def)
  show ?case
  proof (cases "k = i")
    case False
    then have "contiguous_from x (nat ?o + 1) (nat ?o) extent mx = r"
      using "1.prems"(1) lt nn k by (simp add: contiguous_from.simps [of x i] Let_def)
    with False show ?thesis
      using "1.IH"(1) [OF lt refl refl nn] "1.prems"(2,3) k by (force simp: less_Suc_eq)
  next
    case ki: True
    have run: "bit_at x v" if "start \<le> v" "v < i + 1" for v
      using "1.prems"(5) [of v] that k ki by (cases "v = i") auto
    show ?thesis
    proof (cases "?o - int start = int extent")
      case True
      then have "r = int start" and "start + extent = i"
        using "1.prems"(1) lt nn k ki by (auto simp: contiguous_from.simps [of x i] Let_def)
      with run k ki show ?thesis by (auto intro!: exI [of _ start])
    next
      case False
      then have "contiguous_from x (nat ?o + 1) start extent mx = r"
        using "1.prems"(1) lt nn k ki by (simp add: contiguous_from.simps [of x i] Let_def)
      moreover have "start \<le> nat ?o + 1" and "\<And>v. start \<le> v \<Longrightarrow> v < nat ?o + 1 \<Longrightarrow> bit_at x v"
        using "1.prems"(4) k ki run by auto
      ultimately show ?thesis
        using "1.IH"(2) [OF lt refl refl nn _ False] "1.prems"(2,3) k ki by auto
    qed
  qed
qed

lemma contiguous_from_range: "-1 \<le> contiguous_from x i start extent mx"
  by (induction x i start extent mx rule: contiguous_from.induct)
    (subst contiguous_from.simps, simp add: Let_def)

lemma set_contig_from_False:
  assumes "upper \<le> 32 * length x"
  shows "bit_at (bitmap_set_contig_from x i upper False) w \<longleftrightarrow> \<not> (i \<le> w \<and> w < upper) \<and> bit_at x w"
  using assms
proof (induction x i upper False rule: bitmap_set_contig_from.induct)
  case (1 x i upper)
  show ?case
  proof (cases "i < upper")
    case True
    with "1" show ?thesis
      by (subst bitmap_set_contig_from.simps) (auto simp: bit_at_bitmap_unset)
  next
    case False
    then show ?thesis by (subst bitmap_set_contig_from.simps) simp
  qed
qed

section \<open>The interface the slab allocator uses\<close>

text \<open>
  A client of the bitmap keeps one bit per object: set means free. What it needs of
  \<^verbatim>\<open>bitmap_set\<close>, \<^verbatim>\<open>bitmap_unset\<close>, \<^verbatim>\<open>bitmap_check\<close> and \<^verbatim>\<open>bitmap_one\<close>
  is stated as a locale, with the counting lemmas of such a client proved once.
\<close>

definition nset :: "(nat \<Rightarrow> bool) \<Rightarrow> nat \<Rightarrow> nat" where
  "nset P n = card {v. v < n \<and> P v}"

lemma nset_remove: "P v \<Longrightarrow> v < n \<Longrightarrow> nset (\<lambda>w. w \<noteq> v \<and> P w) n = nset P n - 1"
proof -
  assume "P v" "v < n"
  moreover have "{w. w < n \<and> w \<noteq> v \<and> P w} = {w. w < n \<and> P w} - {v}" by auto
  ultimately show ?thesis by (simp add: nset_def)
qed

lemma nset_insert: "\<not> P v \<Longrightarrow> v < n \<Longrightarrow> nset (\<lambda>w. w = v \<or> P w) n = nset P n + 1"
proof -
  assume "\<not> P v" "v < n"
  moreover have "{w. w < n \<and> (w = v \<or> P w)} = insert v {w. w < n \<and> P w}" using \<open>v < n\<close> by auto
  ultimately show ?thesis by (simp add: nset_def)
qed

lemma nset_pos: "v < n \<Longrightarrow> P v \<Longrightarrow> 0 < nset P n"
  by (auto simp: nset_def card_gt_0_iff)

lemma nset_posE: "0 < nset P n \<Longrightarrow> \<exists>v < n. P v"
  by (auto simp: nset_def card_gt_0_iff)

lemma nset_le: "nset P n \<le> n"
  using card_mono [of "{..<n}" "{v. v < n \<and> P v}"] by (auto simp: nset_def)

lemma nset_full: "nset P n = n \<longleftrightarrow> (\<forall>v < n. P v)"
proof
  assume "nset P n = n"
  then have "{v. v < n \<and> P v} = {..<n}"
    by (intro card_subset_eq) (auto simp: nset_def)
  then show "\<forall>v < n. P v" by auto
next
  assume "\<forall>v < n. P v"
  then have "{v. v < n \<and> P v} = {..<n}" by auto
  then show "nset P n = n" by (simp add: nset_def)
qed

locale slot_set =
  fixes ok :: "'b \<Rightarrow> bool"
    and test :: "'b \<Rightarrow> nat \<Rightarrow> bool"
    and put :: "'b \<Rightarrow> nat \<Rightarrow> 'b"
    and clr :: "'b \<Rightarrow> nat \<Rightarrow> 'b"
    and first :: "'b \<Rightarrow> int"
    and cap :: nat
  assumes ok_put: "ok b \<Longrightarrow> ok (put b v)"
    and ok_clr: "ok b \<Longrightarrow> ok (clr b v)"
    and test_put: "ok b \<Longrightarrow> v < cap \<Longrightarrow> test (put b v) w \<longleftrightarrow> w = v \<or> test b w"
    and test_clr: "ok b \<Longrightarrow> v < cap \<Longrightarrow> test (clr b v) w \<longleftrightarrow> w \<noteq> v \<and> test b w"
    and first_test: "ok b \<Longrightarrow> v < cap \<Longrightarrow> test b v \<Longrightarrow>
      \<exists>k \<le> v. first b = int k \<and> test b k \<and> (\<forall>u < k. \<not> test b u)"
begin

lemma nset_clr: "ok b \<Longrightarrow> n \<le> cap \<Longrightarrow> v < n \<Longrightarrow> test b v \<Longrightarrow> nset (test (clr b v)) n = nset (test b) n - 1"
  using nset_remove [of "test b" v n] by (simp add: nset_def test_clr)

lemma nset_put: "ok b \<Longrightarrow> n \<le> cap \<Longrightarrow> v < n \<Longrightarrow> \<not> test b v \<Longrightarrow> nset (test (put b v)) n = nset (test b) n + 1"
  using nset_insert [of "test b" v n] by (simp add: nset_def test_put)

lemma first_free:
  assumes "ok b" and "n \<le> cap" and "0 < nset (test b) n"
  shows "\<exists>k < n. first b = int k \<and> test b k"
proof -
  from nset_posE [OF assms(3)] obtain v where "v < n" "test b v" by blast
  with first_test [of b v] assms(1,2) show ?thesis by (meson le_less_trans order_less_le_trans)
qed

end

text \<open>The slab's bitmap has four words (\<^verbatim>\<open>CSLAB_BITMAP_SIZE\<close>), that is 128 slots.\<close>

interpretation bm128: slot_set
  "\<lambda>b. length b = 4" bit_at bitmap_set bitmap_unset "\<lambda>b. bitmap_one b 4" 128
proof unfold_locales
  fix b :: "u32 list" and v :: nat
  assume len: "length b = 4" and "v < 128" and bit: "bit_at b v"
  have "first_one b 0 (32 * 4) (bitmap_one b 4)"
    by (rule bitmap_one_first)
  with bit \<open>v < 128\<close> show "\<exists>k\<le>v. bitmap_one b 4 = int k \<and> bit_at b k \<and> (\<forall>u<k. \<not> bit_at b u)"
    by (auto simp: first_one_def dest: leI)
qed (auto simp: bit_at_bitmap_set bit_at_bitmap_unset)

section \<open>Properties\<close>

text \<open>
  C36: \<^verbatim>\<open>bitmap_one_offset\<close> is a correct search. Started at a bit of a bitmap of
  \<open>mx\<close> words it returns the least index, from the start on, whose bit
  \<^verbatim>\<open>bitmap_check\<close> reports as set, and -1 when there is none.
\<close>

theorem bitmap_one_offset_correct:
  assumes "off < WORD_SIZE * mx" and "mx \<le> length x"
  shows "bitmap_one_offset x off mx =
    (if \<exists>v. off \<le> v \<and> v < WORD_SIZE * mx \<and> bitmap_check x v \<noteq> 0
     then int (LEAST v. off \<le> v \<and> bitmap_check x v \<noteq> 0) else -1)"
proof -
  have "first_one x off (32 * mx) (bitmap_one_offset x off mx)"
    using assms by (rule bitmap_one_offset_first)
  then show ?thesis
    unfolding bitmap_check_iff first_one_def
    by (auto intro!: Least_equality [symmetric] leI)
qed

theorem bitmap_one_offset_correct_witness:
  "bitmap_one_offset [0, 0x1100] 9 2 = 40"
proof -
  have none: "\<not> bit_at [0, 0x1100] v" if "v < 40" for v
  proof -
    have "list_all (\<lambda>v. \<not> bit_at [0, 0x1100] v) [0..<40]" by code_simp
    with that show ?thesis by (simp add: list_all_iff)
  qed
  have one: "bit_at [0, 0x1100] 40" by code_simp
  have "(LEAST v. 9 \<le> v \<and> bit_at [0, 0x1100] v) = 40"
    using none one by (intro Least_equality) (auto intro: leI)
  moreover have "\<exists>v. 9 \<le> v \<and> v < 32 * 2 \<and> bit_at [0, 0x1100] v"
    using one by (intro exI [of _ 40]) simp
  ultimately show ?thesis
    using bitmap_one_offset_correct [of 9 2 "[0, 0x1100]"] by (simp add: bitmap_check_iff)
qed

text \<open>
  C37: \<^verbatim>\<open>bitmap_extent_find_set\<close> only hands out runs that are free: when it returns an
  index \<open>r\<close>, every bit of \<open>r, ..., r + extent - 1\<close> was set before the call, is clear
  after it, and no other bit changes.
\<close>

theorem bitmap_extent_find_set_correct:
  assumes "bitmap_extent_find_set x off extent mx = (r, x')" and "0 \<le> r" and "mx \<le> length x"
  shows "\<exists>k. r = int k \<and> k + extent < WORD_SIZE * mx
    \<and> (\<forall>v. k \<le> v \<and> v < k + extent \<longrightarrow> bitmap_check x v \<noteq> 0)
    \<and> (\<forall>v. bitmap_check x' v \<noteq> 0 \<longleftrightarrow> bitmap_check x v \<noteq> 0 \<and> \<not> (k \<le> v \<and> v < k + extent))"
proof -
  from assms(1,2) have r: "contiguous_from x 0 0 extent mx = r"
    and x': "x' = bitmap_set_contig x (nat r) extent False"
    by (auto simp: bitmap_extent_find_set_def bitmap_contiguous_ones_def Let_def split: if_splits)
  from contiguous_from_run [OF r assms(2,3)]
  obtain k where k: "r = int k" "k + extent < 32 * mx"
    and run: "\<forall>v. k \<le> v \<and> v \<le> k + extent \<longrightarrow> bit_at x v" by auto
  have "bit_at x' v \<longleftrightarrow> bit_at x v \<and> \<not> (k \<le> v \<and> v < k + extent)" for v
    unfolding x' bitmap_set_contig_def using k assms(3)
    by (subst set_contig_from_False) auto
  with k run show ?thesis by (auto simp: bitmap_check_iff)
qed

theorem bitmap_extent_find_set_correct_witness:
  "\<exists>k. bitmap_extent_find_set [0xF] 0 3 1 = (0, [8]) \<and> (0::int) = int k \<and> k + 3 < 32 * 1
    \<and> (\<forall>v. bitmap_check [8] v \<noteq> 0 \<longleftrightarrow> bitmap_check [0xF] v \<noteq> 0 \<and> \<not> (k \<le> v \<and> v < k + 3))"
proof -
  have run: "bitmap_extent_find_set [0xF] 0 3 1 = (0, [8])" by code_simp
  show ?thesis
    using bitmap_extent_find_set_correct [OF run] run by auto
qed

text \<open>
  \<^verbatim>\<open>log32\<close> is the integer logarithm and \<^verbatim>\<open>nlpow2\<close> the next power of two: for a
  nonzero word, \<open>2 ^ log32 x \<le> x < 2 ^ (log32 x + 1)\<close>, and \<open>nlpow2 x\<close> is that upper
  power of two whenever it fits in 32 bits.
\<close>

theorem log32_correct:
  assumes "x \<noteq> 0"
  shows "2 ^ unat (log32 x) \<le> unat x \<and> unat x < 2 ^ (unat (log32 x) + 1)
    \<and> (unat x < 2 ^ 31 \<longrightarrow> unat (nlpow2 x) = 2 ^ (unat (log32 x) + 1))"
proof -
  from assms obtain k where k: "bit x k" and high: "\<And>m. bit x m \<Longrightarrow> m \<le> k"
    by (rule obtain_greatest_bit) blast
  have "k < 32" using k by (rule bit_u32_less)
  have log: "unat (log32 x) = k"
    using \<open>k < 32\<close> by (simp add: log32_floor [OF k high] unat_of_nat)
  note bounds = unat_highest_bit [OF k high]
  have "unat (nlpow2 x) = 2 ^ Suc k" if "unat x < 2 ^ 31"
  proof -
    have "(2::nat) ^ k < 2 ^ 31" using bounds(1) that by (rule le_less_trans)
    then have "k < 31" by (rule power_less_imp_less_exp [rotated]) simp
    then have "Suc k < 32" by simp
    moreover have "nlpow2 x = 2 ^ Suc k"
      by (simp add: nlpow2_def smear_mask [OF k high] mask_eq_exp_minus_1)
    ultimately show ?thesis by (simp only: unat_exp_u32)
  qed
  with log bounds show ?thesis by simp
qed

theorem log32_correct_witness:
  "(3000 :: u32) \<noteq> 0 \<and> log32 3000 = 11 \<and> unat (nlpow2 3000) = 4096"
proof -
  have "log32 3000 = 11" by code_simp
  with log32_correct [of 3000] show ?thesis by simp
qed

text \<open>
  \<^verbatim>\<open>bitmap_extent_find_set\<close> asks for one bit more than it hands out: a bitmap that
  has no run of \<open>extent + 1\<close> ones makes it fail and leaves the bitmap alone, whatever
  runs of exactly \<open>extent\<close> ones there are.
\<close>

theorem bitmap_extent_find_set_needs_one_more:
  assumes "mx \<le> length x"
    and "\<And>k. k + extent < WORD_SIZE * mx \<Longrightarrow> \<exists>v. k \<le> v \<and> v \<le> k + extent \<and> bitmap_check x v = 0"
  shows "bitmap_extent_find_set x off extent mx = (-1, x)"
proof -
  have "contiguous_from x 0 0 extent mx = -1"
  proof (rule ccontr)
    assume "contiguous_from x 0 0 extent mx \<noteq> -1"
    then have "0 \<le> contiguous_from x 0 0 extent mx"
      using contiguous_from_range [of x 0 0 extent mx] by simp
    from contiguous_from_run [OF refl this assms(1)]
    obtain k where "k + extent < 32 * mx" "\<forall>v. k \<le> v \<and> v \<le> k + extent \<longrightarrow> bit_at x v" by auto
    with assms(2) [of k] show False by (metis bitmap_check_iff)
  qed
  then show ?thesis
    by (simp add: bitmap_extent_find_set_def bitmap_contiguous_ones_def)
qed

theorem bitmap_extent_find_set_needs_one_more_witness:
  "bitmap_check [3] 0 \<noteq> 0 \<and> bitmap_check [3] 1 \<noteq> 0 \<and> bitmap_extent_find_set [3] 0 2 1 = (-1, [3])"
proof -
  have two: "bitmap_check [3] 0 \<noteq> 0" "bitmap_check [3] 1 \<noteq> 0" by code_simp+
  have "list_all (\<lambda>v. bitmap_check [3] v = 0) [2..<32]" by code_simp
  then have rest: "\<forall>v \<in> {2..<32}. bitmap_check [3] v = 0" by (simp only: list_all_iff set_upt)
  have "\<exists>v. k \<le> v \<and> v \<le> k + 2 \<and> bitmap_check [3] v = 0" if "k + 2 < 32 * 1" for k
    using rest [THEN bspec, of "k + 2"] that by (intro exI [of _ "k + 2"]) simp
  then show ?thesis
    using bitmap_extent_find_set_needs_one_more [of 1 "[3]" 2 0] two by simp
qed

end
