(* ===== verification/DList.thy ===== *)
theory DList
  imports Prelude
begin

text \<open>
  \<^verbatim>\<open>components/include/cos_list.h\<close> and \<^verbatim>\<open>components/include/clist.h\<close>: intrusive
  circular doubly linked lists. The two link fields of every object are functions from
  addresses to addresses; each macro is the sequence of its assignments, in the order of
  the source. A list is a ring of distinct objects one of which serves as the head.
\<close>

record links =
  nxt :: "addr \<Rightarrow> addr"
  prv :: "addr \<Rightarrow> addr"

definition set_nxt :: "links \<Rightarrow> addr \<Rightarrow> addr \<Rightarrow> links" where
  "set_nxt l a v = l\<lparr>nxt := (nxt l)(a := v)\<rparr>"

definition set_prv :: "links \<Rightarrow> addr \<Rightarrow> addr \<Rightarrow> links" where
  "set_prv l a v = l\<lparr>prv := (prv l)(a := v)\<rparr>"

lemma links_simps [simp]:
  "nxt (set_nxt l a v) = (nxt l)(a := v)"
  "prv (set_nxt l a v) = prv l"
  "prv (set_prv l a v) = (prv l)(a := v)"
  "nxt (set_prv l a v) = nxt l"
  by (simp_all add: set_nxt_def set_prv_def)

section \<open>cos\_list.h\<close>

definition INIT_LIST :: "links \<Rightarrow> addr \<Rightarrow> links" where
  "INIT_LIST l obj = set_nxt (set_prv l obj obj) obj obj"

definition ADD_LIST :: "links \<Rightarrow> addr \<Rightarrow> addr \<Rightarrow> links" where
  "ADD_LIST l head new =
     (let l1 = set_nxt l new (nxt l head);
          l2 = set_prv l1 new head;
          l3 = set_nxt l2 head new
      in set_prv l3 (nxt l3 new) new)"

definition APPEND_LIST :: "links \<Rightarrow> addr \<Rightarrow> addr \<Rightarrow> links" where
  "APPEND_LIST l lst head =
     (let l1 = set_prv l (nxt l lst) (prv l head);
          l2 = set_nxt l1 (prv l1 head) (nxt l1 lst);
          l3 = set_nxt l2 lst head
      in set_prv l3 head lst)"

definition REM_LIST :: "links \<Rightarrow> addr \<Rightarrow> links" where
  "REM_LIST l obj =
     (let l1 = set_prv l (nxt l obj) (prv l obj);
          l2 = set_nxt l1 (prv l1 obj) (nxt l1 obj);
          l3 = set_prv l2 obj obj
      in set_nxt l3 obj obj)"

definition FIRST_LIST :: "links \<Rightarrow> addr \<Rightarrow> addr" where
  "FIRST_LIST l obj = nxt l obj"

definition LAST_LIST :: "links \<Rightarrow> addr \<Rightarrow> addr" where
  "LAST_LIST l obj = prv l obj"

definition EMPTY_LIST :: "links \<Rightarrow> addr \<Rightarrow> bool" where
  "EMPTY_LIST l obj \<longleftrightarrow> nxt l obj = obj"

definition ADD_END_LIST :: "links \<Rightarrow> addr \<Rightarrow> addr \<Rightarrow> links" where
  "ADD_END_LIST l head new = ADD_LIST l (LAST_LIST l head) new"

section \<open>clist.h\<close>

definition clist_ll_init :: "links \<Rightarrow> addr \<Rightarrow> links" where
  "clist_ll_init l o' = set_nxt (set_prv l o' o') o' o'"

definition clist_ll_empty :: "links \<Rightarrow> addr \<Rightarrow> bool" where
  "clist_ll_empty l o' \<longleftrightarrow> nxt l o' = o'"

definition clist_ll_add :: "links \<Rightarrow> addr \<Rightarrow> addr \<Rightarrow> links" where
  "clist_ll_add l o' new =
     (let l1 = set_nxt l new (nxt l o');
          l2 = set_prv l1 new o';
          l3 = set_nxt l2 o' new
      in set_prv l3 (nxt l3 new) new)"

definition clist_ll_rem :: "links \<Rightarrow> addr \<Rightarrow> links" where
  "clist_ll_rem l o' =
     (let l1 = set_prv l (nxt l o') (prv l o');
          l2 = set_nxt l1 (prv l1 o') (nxt l1 o');
          l3 = set_nxt l2 o' o'
      in set_prv l3 o' o')"

definition clist_head_add :: "links \<Rightarrow> addr \<Rightarrow> addr \<Rightarrow> links" where
  "clist_head_add l lh o' = clist_ll_add l lh o'"

definition clist_head_append :: "links \<Rightarrow> addr \<Rightarrow> addr \<Rightarrow> links" where
  "clist_head_append l lh o' = clist_ll_add l (prv l lh) o'"

section \<open>Rings\<close>

text \<open>
  \<open>linked l a xs b\<close>: the links lead from \<open>a\<close> through \<open>xs\<close> to \<open>b\<close> and back.
  \<open>ring l (x # xs)\<close>: the objects form one ring.
\<close>

fun linked :: "links \<Rightarrow> addr \<Rightarrow> addr list \<Rightarrow> addr \<Rightarrow> bool" where
  "linked l a [] b \<longleftrightarrow> nxt l a = b \<and> prv l b = a"
| "linked l a (x # xs) b \<longleftrightarrow> nxt l a = x \<and> prv l x = a \<and> linked l x xs b"

fun ring :: "links \<Rightarrow> addr list \<Rightarrow> bool" where
  "ring l [] \<longleftrightarrow> False"
| "ring l (x # xs) \<longleftrightarrow> distinct (x # xs) \<and> linked l x xs x"

lemma linked_append:
  "linked l a (xs @ y # ys) b \<longleftrightarrow> linked l a xs y \<and> linked l y ys b"
  by (induction xs arbitrary: a) auto

lemma linked_cong:
  assumes "\<And>x. x \<in> set (a # xs) \<Longrightarrow> nxt l' x = nxt l x"
    and "\<And>x. x \<in> set (xs @ [b]) \<Longrightarrow> prv l' x = prv l x"
  shows "linked l' a xs b = linked l a xs b"
  using assms by (induction xs arbitrary: a) auto

lemma ring_distinct: "ring l xs \<Longrightarrow> distinct xs"
  by (cases xs) auto

lemma ring_cong:
  assumes "\<And>x. x \<in> set xs \<Longrightarrow> nxt l' x = nxt l x" and "\<And>x. x \<in> set xs \<Longrightarrow> prv l' x = prv l x"
  shows "ring l' xs = ring l xs"
proof (cases xs)
  case (Cons y ys)
  then have "linked l' y ys y = linked l y ys y"
    using assms by (intro linked_cong) auto
  with Cons show ?thesis by simp
qed simp

lemma ring_rotate: "ring l (xs @ ys) = ring l (ys @ xs)"
proof (cases xs; cases ys)
  fix x xs' y ys' assume "xs = x # xs'" "ys = y # ys'"
  then show ?thesis by (auto simp: linked_append)
qed auto

lemma linked_last: "linked l a xs b \<Longrightarrow> prv l b = last (a # xs)"
  by (induction xs arbitrary: a) auto

lemma ring_neighbours:
  assumes "ring l xs" and "x \<in> set xs"
  shows "nxt l x \<in> set xs" and "prv l x \<in> set xs"
proof -
  from assms(2) obtain ys zs where "xs = ys @ x # zs" by (auto simp: in_set_conv_decomp)
  with assms(1) have r: "ring l (x # zs @ ys)" using ring_rotate [of l ys "x # zs"] by simp
  have "set xs = set (x # zs @ ys)" using \<open>xs = ys @ x # zs\<close> by auto
  moreover from r have "nxt l x \<in> set (x # zs @ ys)" by (cases "zs @ ys") auto
  moreover from r have "prv l x = last (x # zs @ ys)" by (auto dest: linked_last)
  then have "prv l x \<in> set (x # zs @ ys)" by (metis last_in_set list.distinct(1))
  ultimately show "nxt l x \<in> set xs" and "prv l x \<in> set xs" by simp_all
qed

lemma ADD_LIST_ring:
  assumes r: "ring l (h # xs)" and n: "n \<notin> set (h # xs)"
  shows "ring (ADD_LIST l h n) (h # n # xs)"
proof -
  let ?l = "ADD_LIST l h n"
  have nx: "nxt ?l = (nxt l)(n := nxt l h, h := n)"
    and pv: "prv ?l = (prv l)(n := h, nxt l h := n)"
    using n by (simp_all add: ADD_LIST_def Let_def)
  have "nxt l h \<noteq> n" using ring_neighbours(1) [OF r, of h] n by auto
  have "linked ?l n xs h"
  proof (cases xs)
    case Nil
    with r n show ?thesis by (simp add: nx pv)
  next
    case (Cons x xs')
    with r n have "linked ?l x xs' h = linked l x xs' h"
      by (intro linked_cong) (auto simp: nx pv)
    with Cons r n show ?thesis by (simp add: nx pv)
  qed
  with r n \<open>nxt l h \<noteq> n\<close> show ?thesis by (simp add: nx pv)
qed

lemma REM_LIST_ring:
  assumes r: "ring l (obj # x # xs)"
  shows "ring (REM_LIST l obj) (x # xs)"
proof -
  let ?l = "REM_LIST l obj" and ?z = "last (x # xs)"
  have z: "prv l obj = ?z" using r by (auto dest: linked_last)
  have ne: "?z \<noteq> obj" using r by (metis distinct.simps(2) last_in_set list.distinct(1) ring.simps(2))
  have nx: "nxt ?l = (nxt l)(?z := x, obj := obj)" and pv: "prv ?l = (prv l)(x := ?z, obj := obj)"
    using r z ne by (auto simp: REM_LIST_def Let_def fun_eq_iff)
  have "linked ?l x xs x"
  proof (cases xs rule: rev_cases)
    case Nil
    with r show ?thesis by (simp add: nx pv)
  next
    case (snoc ys y)
    with r have "linked ?l x ys y = linked l x ys y"
      by (intro linked_cong) (auto simp: nx pv)
    with snoc r show ?thesis by (auto simp: nx pv linked_append)
  qed
  with r show ?thesis by simp
qed

lemma REM_LIST_single: "ring l [obj] \<Longrightarrow> ring (REM_LIST l obj) [obj]"
  by (simp add: REM_LIST_def Let_def)

lemma REM_LIST_self: "ring (REM_LIST l obj) [obj]"
  by (simp add: REM_LIST_def Let_def)

lemma INIT_LIST_ring: "ring (INIT_LIST l obj) [obj]"
  by (simp add: INIT_LIST_def)

lemma APPEND_LIST_ring:
  assumes "ring l (lst # xs)" and "ring l (head # ys)" and "set (lst # xs) \<inter> set (head # ys) = {}"
  shows "ring (APPEND_LIST l lst head) (lst # head # ys @ xs)"
proof -
  let ?l = "APPEND_LIST l lst head" and ?z = "last (head # ys)" and ?f = "nxt l lst"
  have z: "prv l head = ?z" using assms(2) by (auto dest: linked_last)
  have f: "?f \<in> set (lst # xs)" using ring_neighbours(1) [OF assms(1)] by simp
  have "?z \<in> set (head # ys)" by (metis last_in_set list.distinct(1))
  then have ne: "?f \<noteq> head" "?z \<noteq> lst" "?f \<noteq> ?z" using f assms(3) by auto
  have nx: "nxt ?l = (nxt l)(?z := ?f, lst := head)" and pv: "prv ?l = (prv l)(?f := ?z, head := lst)"
    using z ne by (auto simp: APPEND_LIST_def Let_def fun_eq_iff)
  have first: "linked ?l head ys ?f"
  proof (cases ys rule: rev_cases)
    case Nil
    with ne show ?thesis by (auto simp: nx pv)
  next
    case (snoc zs y)
    with assms f have "linked ?l head zs y = linked l head zs y"
      by (intro linked_cong) (auto simp: nx pv)
    with snoc assms ne show ?thesis by (auto simp: nx pv linked_append)
  qed
  have "linked ?l head (ys @ xs) lst"
  proof (cases xs)
    case Nil
    with assms(1) first show ?thesis by simp
  next
    case (Cons x xs')
    then have "?f = x" using assms(1) by simp
    from Cons assms have "linked ?l x xs' lst = linked l x xs' lst"
      by (intro linked_cong) (auto simp: nx pv)
    with Cons assms(1) first \<open>?f = x\<close> show ?thesis by (simp add: linked_append)
  qed
  then show ?thesis using assms ne by (auto simp: nx pv)
qed

section \<open>The list interface\<close>

text \<open>
  What a client of either header relies on: initialising, adding behind the head and
  removing an object act on the ring of that object and on no other ring.
\<close>

locale ring_ops =
  fixes init :: "links \<Rightarrow> addr \<Rightarrow> links"
    and add :: "links \<Rightarrow> addr \<Rightarrow> addr \<Rightarrow> links"
    and rem :: "links \<Rightarrow> addr \<Rightarrow> links"
    and is_empty :: "links \<Rightarrow> addr \<Rightarrow> bool"
  assumes init_ring: "ring (init l x) [x]"
    and init_frame: "ring l ys \<Longrightarrow> x \<notin> set ys \<Longrightarrow> ring (init l x) ys"
    and add_ring: "ring l (h # xs) \<Longrightarrow> n \<notin> set (h # xs) \<Longrightarrow> ring (add l h n) (h # n # xs)"
    and add_frame: "ring l (h # xs) \<Longrightarrow> ring l ys \<Longrightarrow> set (n # h # xs) \<inter> set ys = {} \<Longrightarrow> ring (add l h n) ys"
    and rem_ring: "ring l (x # xs) \<Longrightarrow> xs \<noteq> [] \<Longrightarrow> ring (rem l x) xs"
    and rem_self: "ring (rem l x) [x]"
    and rem_frame: "ring l (x # xs) \<Longrightarrow> ring l ys \<Longrightarrow> set (x # xs) \<inter> set ys = {} \<Longrightarrow> ring (rem l x) ys"
    and is_empty_iff: "ring l (x # xs) \<Longrightarrow> is_empty l x \<longleftrightarrow> xs = []"
begin

lemma rem_member:
  assumes "ring l (h # xs @ x # ys)"
  shows "ring (rem l x) (h # xs @ ys)"
proof -
  have "ring l (x # ys @ h # xs)"
    using assms ring_rotate [of l "h # xs" "x # ys"] by simp
  then have "ring (rem l x) (ys @ h # xs)" by (rule rem_ring) simp
  then show ?thesis using ring_rotate [of "rem l x" ys "h # xs"] by simp
qed

lemma add_then_rem:
  assumes "ring l (h # xs)" and "n \<notin> set (h # xs)"
  shows "ring (rem (add l h n) n) (h # xs)"
  using rem_member [of "add l h n" h "[]" n xs] add_ring [OF assms] by simp

lemma add_fresh:
  assumes "ring l (h # xs)" and "n \<notin> set (h # xs)"
  shows "ring (add (init l n) h n) (h # n # xs)"
  using assms by (intro add_ring init_frame) auto

end

lemma ring_frame:
  assumes "ring l ys" and "\<And>x. x \<in> set ys \<Longrightarrow> nxt l' x = nxt l x \<and> prv l' x = prv l x"
  shows "ring l' ys"
  using assms ring_cong [of ys l' l] by simp

lemma ADD_LIST_frame:
  assumes "ring l (h # xs)" and "ring l ys" and "set (n # h # xs) \<inter> set ys = {}"
  shows "ring (ADD_LIST l h n) ys"
  using assms(2)
proof (rule ring_frame)
  fix x assume "x \<in> set ys"
  moreover have "nxt l h \<in> set (h # xs)" using ring_neighbours(1) [OF assms(1)] by simp
  ultimately have "x \<noteq> n" "x \<noteq> h" "x \<noteq> nxt l h" using assms(3) by auto
  then show "nxt (ADD_LIST l h n) x = nxt l x \<and> prv (ADD_LIST l h n) x = prv l x"
    by (auto simp: ADD_LIST_def Let_def)
qed

lemma REM_LIST_frame:
  assumes "ring l (obj # xs)" and "ring l ys" and "set (obj # xs) \<inter> set ys = {}"
  shows "ring (REM_LIST l obj) ys"
  using assms(2)
proof (rule ring_frame)
  fix x assume "x \<in> set ys"
  moreover have "nxt l obj \<in> set (obj # xs)" "prv l obj \<in> set (obj # xs)"
    using ring_neighbours [OF assms(1)] by simp_all
  ultimately have "x \<noteq> obj" "x \<noteq> nxt l obj" "x \<noteq> prv l obj" using assms(3) by auto
  then show "nxt (REM_LIST l obj) x = nxt l x \<and> prv (REM_LIST l obj) x = prv l x"
    by (auto simp: REM_LIST_def Let_def)
qed

lemma REM_LIST_rest: "ring l (obj # xs) \<Longrightarrow> xs \<noteq> [] \<Longrightarrow> ring (REM_LIST l obj) xs"
  by (cases xs) (auto simp del: ring.simps intro: REM_LIST_ring)

lemma INIT_LIST_frame: "ring l ys \<Longrightarrow> x \<notin> set ys \<Longrightarrow> ring (INIT_LIST l x) ys"
  by (erule ring_frame) (auto simp: INIT_LIST_def)

lemma EMPTY_LIST_iff: "ring l (x # xs) \<Longrightarrow> EMPTY_LIST l x \<longleftrightarrow> xs = []"
  by (cases xs) (auto simp: EMPTY_LIST_def)

interpretation cos_list: ring_ops INIT_LIST ADD_LIST REM_LIST EMPTY_LIST
  by unfold_locales
    (fact INIT_LIST_ring INIT_LIST_frame ADD_LIST_ring ADD_LIST_frame REM_LIST_rest
      REM_LIST_self REM_LIST_frame EMPTY_LIST_iff)+

lemma clist_eq:
  "clist_ll_init = INIT_LIST" "clist_ll_add = ADD_LIST" "clist_ll_rem = REM_LIST"
  "clist_ll_empty = EMPTY_LIST"
  by (simp_all add: fun_eq_iff clist_ll_init_def INIT_LIST_def clist_ll_add_def ADD_LIST_def
      clist_ll_rem_def REM_LIST_def clist_ll_empty_def EMPTY_LIST_def Let_def set_nxt_def set_prv_def)

interpretation clist: ring_ops clist_ll_init clist_ll_add clist_ll_rem clist_ll_empty
  unfolding clist_eq by (rule cos_list.ring_ops_axioms)

section \<open>Walking a list\<close>

text \<open>
  The iteration \<^verbatim>\<open>for (o = FIRST_LIST(h); o != h; o = FIRST_LIST(o))\<close>: the objects it
  visits, with a bound on the number of turns.
\<close>

fun walk :: "nat \<Rightarrow> links \<Rightarrow> addr \<Rightarrow> addr \<Rightarrow> addr list option" where
  "walk 0 l h x = None"
| "walk (Suc n) l h x =
     (if x = h then Some [] else map_option ((#) x) (walk n l h (FIRST_LIST l x)))"

lemma walk_linked:
  "linked l a xs h \<Longrightarrow> h \<notin> set xs \<Longrightarrow> length xs < n \<Longrightarrow> walk n l h (nxt l a) = Some xs"
proof (induction xs arbitrary: a n)
  case Nil
  then show ?case by (cases n) auto
next
  case (Cons x xs)
  then show ?case by (cases n) (auto simp: FIRST_LIST_def)
qed

lemma walk_ring:
  "ring l (h # xs) \<Longrightarrow> length xs < n \<Longrightarrow> walk n l h (FIRST_LIST l h) = Some xs"
  by (simp add: FIRST_LIST_def walk_linked)

section \<open>Properties\<close>

text \<open>
  The list macros implement rings. After \<^verbatim>\<open>INIT_LIST\<close> and \<^verbatim>\<open>ADD_LIST\<close> of a new
  object the iteration over the head visits the new object first and then the old members;
  \<^verbatim>\<open>ADD_END_LIST\<close> makes it the last one visited; \<^verbatim>\<open>REM_LIST\<close> of any member makes the
  iteration skip exactly that member and leaves the removed object alone in its own ring.
\<close>

theorem cos_list_iteration:
  assumes "ring l (h # xs @ x # ys)" and "n \<notin> set (h # xs @ x # ys)"
    and "length (xs @ x # ys) + 1 < k"
  shows "walk k (ADD_LIST (INIT_LIST l n) h n) h (FIRST_LIST (ADD_LIST (INIT_LIST l n) h n) h)
      = Some (n # xs @ x # ys)
    \<and> walk k (ADD_END_LIST (INIT_LIST l n) h n) h (FIRST_LIST (ADD_END_LIST (INIT_LIST l n) h n) h)
      = Some (xs @ x # ys @ [n])
    \<and> walk k (REM_LIST l x) h (FIRST_LIST (REM_LIST l x) h) = Some (xs @ ys)
    \<and> EMPTY_LIST (REM_LIST l x) x"
proof -
  let ?i = "INIT_LIST l n"
  have i: "ring ?i (h # xs @ x # ys)"
    using assms(1,2) by (rule cos_list.init_frame)
  define z where "z = last (x # ys)"
  define zs where "zs = h # xs @ butlast (x # ys)"
  have split: "h # xs @ x # ys = zs @ [z]"
    by (simp add: z_def zs_def)
  have "ring ?i (z # zs)"
    using i ring_rotate [of ?i zs "[z]"] unfolding split by simp
  moreover have "n \<notin> set (z # zs)"
    using assms(2) unfolding split by auto
  ultimately have "ring (ADD_LIST ?i z n) (z # n # zs)"
    by (rule cos_list.add_ring)
  then have "ring (ADD_LIST ?i z n) (zs @ [z, n])"
    using ring_rotate [of "ADD_LIST ?i z n" "[z, n]" zs] by simp
  moreover have "LAST_LIST ?i h = z"
    using i linked_last [of ?i h "xs @ x # ys" h] by (simp add: LAST_LIST_def z_def)
  moreover have "zs @ [z, n] = h # xs @ x # ys @ [n]"
    using split by (simp only: append_Cons [symmetric] append_assoc [symmetric]) simp
  ultimately have e: "ring (ADD_END_LIST ?i h n) (h # xs @ x # ys @ [n])"
    by (simp only: ADD_END_LIST_def)
  show ?thesis
  proof (intro conjI)
    show "walk k (ADD_LIST ?i h n) h (FIRST_LIST (ADD_LIST ?i h n) h) = Some (n # xs @ x # ys)"
      using cos_list.add_fresh [OF assms(1,2)] assms(3) by (intro walk_ring) simp_all
    show "walk k (ADD_END_LIST ?i h n) h (FIRST_LIST (ADD_END_LIST ?i h n) h) = Some (xs @ x # ys @ [n])"
      using e assms(3) by (intro walk_ring) simp_all
    show "walk k (REM_LIST l x) h (FIRST_LIST (REM_LIST l x) h) = Some (xs @ ys)"
      using cos_list.rem_member [OF assms(1)] assms(3) by (intro walk_ring) simp_all
    show "EMPTY_LIST (REM_LIST l x) x"
      using cos_list.is_empty_iff [OF cos_list.rem_self] by simp
  qed
qed

definition two_objects :: links where
  "two_objects = ADD_LIST (INIT_LIST (INIT_LIST \<lparr>nxt = (\<lambda>_. 0), prv = (\<lambda>_. 0)\<rparr> 1) 2) 1 2"

theorem cos_list_iteration_witness:
  "ring two_objects [1, 2]
   \<and> walk 4 (ADD_LIST (INIT_LIST two_objects 3) 1 3) 1
       (FIRST_LIST (ADD_LIST (INIT_LIST two_objects 3) 1 3) 1) = Some [3, 2]"
proof -
  have "ring two_objects (1 # 2 # [])"
    unfolding two_objects_def by (rule cos_list.add_fresh [OF cos_list.init_ring]) simp
  then show ?thesis
    using cos_list_iteration [of two_objects 1 "[]" 2 "[]" 3 4] by (simp del: ring.simps)
qed

end
