(* ===== verification/Slab.thy ===== *)
theory Slab
  imports Bitmap DList PagePool
begin

text \<open>
  The slab allocator of \<^verbatim>\<open>components/include/cslab.h\<close>. A slab is a page whose first 64
  bytes hold a header: object size, number of free objects, a bitmap of free objects (four words)
  and the links of the list of slabs with free objects. The header fields are functions of the
  page address; the list is the ring of \<^verbatim>\<open>cos_list.h\<close>. The pages come from
  \<^verbatim>\<open>alloc_page\<close>, which is what the stubs define \<^verbatim>\<open>CSLAB_ALLOC\<close> to be.
\<close>

record slabs =
  obj_sz_of :: "addr \<Rightarrow> int"
  nfree_of :: "addr \<Rightarrow> int"
  bitmap_of :: "addr \<Rightarrow> u32 list"
  slinks :: links
  flist :: addr                 \<comment> \<open>\<^verbatim>\<open>slab_freelist.list\<close>\<close>
  spool :: pool

abbreviation CSLAB_FIRST_OFF :: int where "CSLAB_FIRST_OFF \<equiv> 64"
abbreviation CSLAB_BITMAP_SIZE :: nat where "CSLAB_BITMAP_SIZE \<equiv> 4"

definition cslab_lookup :: "addr \<Rightarrow> addr" where
  "cslab_lookup buf = buf div PAGE_SIZE * PAGE_SIZE"

definition cslab_mem_first :: "addr \<Rightarrow> addr" where
  "cslab_mem_first s = s + CSLAB_FIRST_OFF"

definition slab_freelist_rem :: "slabs \<Rightarrow> addr \<Rightarrow> slabs option" where
  "slab_freelist_rem st s = do {
     assert_that (s \<noteq> NULL);
     let st = (if flist st = s then
                 if EMPTY_LIST (slinks st) s then st\<lparr>flist := NULL\<rparr>
                 else st\<lparr>flist := FIRST_LIST (slinks st) s\<rparr>
               else st)
     in Some (st\<lparr>slinks := REM_LIST (slinks st) s\<rparr>) }"

definition slab_freelist_add :: "slabs \<Rightarrow> addr \<Rightarrow> slabs option" where
  "slab_freelist_add st s = do {
     assert_that (s \<noteq> NULL);
     assert_that (EMPTY_LIST (slinks st) s);
     assert_that (s \<noteq> flist st);
     let st = (if flist st \<noteq> NULL then st\<lparr>slinks := ADD_LIST (slinks st) (flist st) s\<rparr> else st)
     in Some (st\<lparr>flist := s\<rparr>) }"

definition cslab_mem_free :: "slabs \<Rightarrow> addr \<Rightarrow> int \<Rightarrow> int \<Rightarrow> slabs option" where
  "cslab_mem_free st buf obj_sz max_objs =
     (let s = cslab_lookup buf in do {
      assert_that (s \<noteq> NULL \<and> buf \<noteq> NULL);
      let off = buf - cslab_mem_first s in do {
      assert_that (off \<ge> 0);
      let idx = off div obj_sz in do {
      assert_that (idx < max_objs);
      assert_that (bitmap_check (bitmap_of st s) (nat idx) = 0);
      let st = st\<lparr>bitmap_of := (bitmap_of st)(s := bitmap_set (bitmap_of st s) (nat idx)),
                  nfree_of := (nfree_of st)(s := nfree_of st s + 1)\<rparr> in
      if nfree_of st s = max_objs then do {
        st \<leftarrow> slab_freelist_rem st s;
        Some (st\<lparr>spool := free_page (spool st) s\<rparr>) }
      else if nfree_of st s = 1 then do {
        assert_that (EMPTY_LIST (slinks st) s);
        slab_freelist_add st s }
      else Some st } } })"

definition cslab_init :: "slabs \<Rightarrow> addr \<Rightarrow> int \<Rightarrow> int \<Rightarrow> slabs option" where
  "cslab_init st s sz max_objs =
     slab_freelist_add
       (st\<lparr>obj_sz_of := (obj_sz_of st)(s := sz),
           nfree_of := (nfree_of st)(s := max_objs),
           bitmap_of := (bitmap_of st)(s := replicate CSLAB_BITMAP_SIZE (NOT 0)),
           slinks := INIT_LIST (slinks st) s\<rparr>) s"

text \<open>The part of \<^verbatim>\<open>__cslab_mem_alloc\<close> after a slab with a free object has been found.\<close>

definition cslab_take :: "slabs \<Rightarrow> addr \<Rightarrow> int \<Rightarrow> int \<Rightarrow> (addr \<times> slabs) option" where
  "cslab_take st s obj_sz max_objs =
     (let idx = bitmap_one (bitmap_of st s) CSLAB_BITMAP_SIZE in do {
      assert_that (idx > -1 \<and> idx < max_objs);
      let st = st\<lparr>bitmap_of := (bitmap_of st)(s := bitmap_unset (bitmap_of st s) (nat idx))\<rparr>;
          mem = cslab_mem_first s + idx * obj_sz in do {
      assert_that (nfree_of st s \<noteq> 0);
      let st = st\<lparr>nfree_of := (nfree_of st)(s := nfree_of st s - 1)\<rparr> in
      if nfree_of st s = 0 then do { st \<leftarrow> slab_freelist_rem st s; Some (mem, st) }
      else Some (mem, st) } })"

definition cslab_mem_alloc :: "slabs \<Rightarrow> int \<Rightarrow> int \<Rightarrow> (addr \<times> slabs) option" where
  "cslab_mem_alloc st obj_sz max_objs =
     (let s = flist st in
      if s = NULL then
        let (s, p) = alloc_page (spool st); st = st\<lparr>spool := p\<rparr> in
        if s = NULL then Some (NULL, st)
        else do { st \<leftarrow> cslab_init st s obj_sz max_objs; cslab_take st s obj_sz max_objs }
      else cslab_take st s obj_sz max_objs)"

text \<open>
  \<^verbatim>\<open>CSLAB_CREATE\<close>: sizes are rounded up to a multiple of the word sz 32, and a slab has as
  many objects as fit behind the header.
\<close>

definition round_to_pow2 :: "int \<Rightarrow> int \<Rightarrow> int" where
  "round_to_pow2 x p = x div p * p"

definition round_up_to_pow2 :: "int \<Rightarrow> int \<Rightarrow> int" where
  "round_up_to_pow2 x p = round_to_pow2 (x + p - 1) p"

definition slab_obj_sz :: "int \<Rightarrow> int" where
  "slab_obj_sz sz = round_up_to_pow2 sz 32"

definition slab_max_objs :: "int \<Rightarrow> int" where
  "slab_max_objs sz = (PAGE_SIZE - CSLAB_FIRST_OFF) div round_up_to_pow2 sz 32"

definition cslab_alloc :: "int \<Rightarrow> slabs \<Rightarrow> (addr \<times> slabs) option" where
  "cslab_alloc sz st = cslab_mem_alloc st (slab_obj_sz sz) (slab_max_objs sz)"

definition cslab_free :: "int \<Rightarrow> slabs \<Rightarrow> addr \<Rightarrow> slabs option" where
  "cslab_free sz st buf = cslab_mem_free st buf (slab_obj_sz sz) (slab_max_objs sz)"


section \<open>The list of slabs with free objects\<close>

definition fl_ok :: "slabs \<Rightarrow> addr list \<Rightarrow> bool" where
  "fl_ok st ps \<longleftrightarrow> (case ps of [] \<Rightarrow> flist st = NULL | p # _ \<Rightarrow> flist st = p \<and> ring (slinks st) ps)
     \<and> NULL \<notin> set ps"

lemma fl_ok_distinct: "fl_ok st ps \<Longrightarrow> distinct ps"
  by (cases ps) (auto simp: fl_ok_def)

lemma slab_freelist_add_ok:
  assumes "fl_ok st ps" "ring (slinks st) [s]" "s \<notin> set ps" "s \<noteq> NULL"
  obtains l ps' where "slab_freelist_add st s = Some (st\<lparr>slinks := l, flist := s\<rparr>)"
    "fl_ok (st\<lparr>slinks := l, flist := s\<rparr>) ps'" "set ps' = insert s (set ps)"
    "\<forall>y. ring (slinks st) [y] \<longrightarrow> y \<notin> set (s # ps) \<longrightarrow> ring l [y]"
proof (cases ps)
  case Nil
  have e: "EMPTY_LIST (slinks st) s" using assms(2) cos_list.is_empty_iff by blast
  show thesis
    by (rule that [of "slinks st" "[s]"]) (use assms Nil e in \<open>auto simp: slab_freelist_add_def fl_ok_def\<close>)
next
  case (Cons p rest)
  have e: "EMPTY_LIST (slinks st) s" using assms(2) cos_list.is_empty_iff by blast
  have r: "ring (slinks st) (p # rest)" and p: "flist st = p" "p \<noteq> NULL" "p \<noteq> s" "s \<notin> set (p # rest)"
    using assms Cons by (auto simp: fl_ok_def simp del: ring.simps)
  let ?l = "ADD_LIST (slinks st) p s"
  have add: "ring ?l (p # s # rest)" using r p(4) by (rule cos_list.add_ring)
  then have rot: "ring ?l (s # rest @ [p])" using ring_rotate [of ?l "[p]" "s # rest"] by simp
  show thesis
  proof (rule that [of ?l "s # rest @ [p]"])
    show "slab_freelist_add st s = Some (st\<lparr>slinks := ?l, flist := s\<rparr>)"
      using e p assms(4) by (simp add: slab_freelist_add_def)
    show "fl_ok (st\<lparr>slinks := ?l, flist := s\<rparr>) (s # rest @ [p])"
      using rot assms(1,4) Cons by (auto simp: fl_ok_def simp del: ring.simps)
    show "\<forall>y. ring (slinks st) [y] \<longrightarrow> y \<notin> set (s # ps) \<longrightarrow> ring ?l [y]"
      using Cons cos_list.add_frame [OF r] by (auto simp del: ring.simps)
  qed (use Cons in auto)
qed

lemma slab_freelist_rem_ok:
  assumes fl: "fl_ok st ps" and s: "s \<in> set ps"
  obtains l f ps' where "slab_freelist_rem st s = Some (st\<lparr>slinks := l, flist := f\<rparr>)"
    "fl_ok (st\<lparr>slinks := l, flist := f\<rparr>) ps'" "set ps' = set ps - {s}"
    "ring l [s]" "\<forall>y. ring (slinks st) [y] \<longrightarrow> y \<notin> set ps \<longrightarrow> ring l [y]"
proof -
  let ?l = "REM_LIST (slinks st) s"
  from fl s obtain p rest where ps: "ps = p # rest" and p: "flist st = p" and r: "ring (slinks st) ps"
    and nn: "NULL \<notin> set ps" by (cases ps) (auto simp: fl_ok_def simp del: ring.simps)
  have d: "distinct ps" using ring_distinct [OF r] .
  obtain xs ys where xy: "ps = xs @ s # ys" using s by (meson split_list)
  have rs: "ring (slinks st) (s # ys @ xs)" using r ring_rotate [of _ xs "s # ys"] xy by simp
  have self: "ring ?l [s]" by (rule cos_list.rem_self)
  have frame: "ring ?l [y]" if "ring (slinks st) [y]" "y \<notin> set ps" for y
    using that xy by (intro cos_list.rem_frame [OF rs]) auto
  have sn: "s \<noteq> NULL" using nn s by auto
  show thesis
  proof (cases "p = s")
    case True
    then have xs: "xs = []" using d xy ps by (cases xs) auto
    show thesis
    proof (cases "ys = []")
      case True
      then have "EMPTY_LIST (slinks st) s" using cos_list.is_empty_iff [OF rs] xs True by simp
      then show thesis
        using that [of NULL ?l "[]"] True xs xy p \<open>p = s\<close> self frame sn
        by (auto simp: slab_freelist_rem_def fl_ok_def Let_def)
    next
      case False
      then obtain y zs where ys: "ys = y # zs" by (cases ys) auto
      have "\<not> EMPTY_LIST (slinks st) s" using cos_list.is_empty_iff [OF rs] False by simp
      moreover have "FIRST_LIST (slinks st) s = y" using rs ys xs by (simp add: FIRST_LIST_def)
      moreover have "ring ?l ys" using cos_list.rem_ring [OF rs] xs False by simp
      ultimately show thesis
        using that [of y ?l ys] xs xy p \<open>p = s\<close> self frame sn ys d nn
        by (auto simp: slab_freelist_rem_def fl_ok_def Let_def simp del: ring.simps)
    qed
  next
    case False
    then obtain zs where xs: "xs = p # zs" using xy ps by (cases xs) auto
    have "ring ?l (ys @ xs)" using rs xs by (intro cos_list.rem_ring) auto
    then have "ring ?l (xs @ ys)" using ring_rotate [of ?l xs ys] by simp
    then show thesis
      using that [of p ?l "xs @ ys"] xs xy p False self frame sn d nn
      by (auto simp: slab_freelist_rem_def fl_ok_def Let_def simp del: ring.simps)
  qed
qed


section \<open>The slab invariant\<close>

text \<open>
  \<open>slab_sizes obj mx\<close>: at most 128 objects, which fit into a page behind the header.
  \<open>slab_page st mx s\<close>: the header of the slab at \<open>s\<close> is consistent: the counter counts the free
  objects, and the bits beyond the last object are set.
\<close>

definition slab_sizes :: "int \<Rightarrow> int \<Rightarrow> bool" where
  "slab_sizes obj mx \<longleftrightarrow> 0 < obj \<and> 0 < mx \<and> mx \<le> 128 \<and> CSLAB_FIRST_OFF + mx * obj \<le> PAGE_SIZE"

definition slab_page :: "slabs \<Rightarrow> int \<Rightarrow> addr \<Rightarrow> bool" where
  "slab_page st mx s \<longleftrightarrow> s \<noteq> NULL \<and> PAGE_SIZE dvd s \<and> length (bitmap_of st s) = 4 \<and>
     nfree_of st s = int (nset (bit_at (bitmap_of st s)) (nat mx))"

definition slab_inv :: "slabs \<Rightarrow> int \<Rightarrow> addr set \<Rightarrow> addr list \<Rightarrow> bool" where
  "slab_inv st mx S ps \<longleftrightarrow> pool_ok (spool st) \<and> S \<inter> owned (spool st) = {} \<and> fl_ok st ps \<and>
     set ps = {s \<in> S. nfree_of st s \<noteq> 0} \<and>
     (\<forall>s \<in> S. slab_page st mx s \<and> (s \<notin> set ps \<longrightarrow> ring (slinks st) [s]))"

text \<open>The addresses of the objects handed out.\<close>

definition live :: "slabs \<Rightarrow> int \<Rightarrow> int \<Rightarrow> addr set \<Rightarrow> addr set" where
  "live st obj mx S = {cslab_mem_first s + idx * obj | s idx.
     s \<in> S \<and> 0 \<le> idx \<and> idx < mx \<and> \<not> bit_at (bitmap_of st s) (nat idx)}"

lemma obj_in_page:
  assumes "slab_sizes obj mx" "PAGE_SIZE dvd s" "0 \<le> idx" "idx < mx"
  shows "cslab_lookup (cslab_mem_first s + idx * obj) = s"
    and "(cslab_mem_first s + idx * obj - cslab_mem_first s) div obj = idx"
    and "cslab_mem_first s + idx * obj + obj \<le> s + PAGE_SIZE" "s < cslab_mem_first s + idx * obj"
proof -
  from assms have obj: "0 < obj" and fit: "CSLAB_FIRST_OFF + mx * obj \<le> PAGE_SIZE" by (auto simp: slab_sizes_def)
  have "(idx + 1) * obj \<le> mx * obj" using assms obj by (intro mult_right_mono) auto
  then have up: "idx * obj + obj \<le> PAGE_SIZE - CSLAB_FIRST_OFF" using fit by (simp add: algebra_simps)
  have lo: "0 \<le> idx * obj" using assms obj by simp
  show "cslab_mem_first s + idx * obj + obj \<le> s + PAGE_SIZE" "s < cslab_mem_first s + idx * obj"
    using up lo by (simp_all add: cslab_mem_first_def)
  obtain k where k: "s = PAGE_SIZE * k" using assms(2) by (elim dvdE)
  have "(PAGE_SIZE * k + (CSLAB_FIRST_OFF + idx * obj)) div PAGE_SIZE = k"
    using up lo obj by (subst div_mult_self4) simp_all
  then show "cslab_lookup (cslab_mem_first s + idx * obj) = s"
    by (simp add: cslab_lookup_def cslab_mem_first_def k add.assoc)
  show "(cslab_mem_first s + idx * obj - cslab_mem_first s) div obj = idx" using obj by simp
qed

text \<open>An object address determines its slab and its index, so objects never overlap.\<close>

lemma obj_unique:
  assumes "slab_sizes obj mx" "PAGE_SIZE dvd s" "0 \<le> i" "i < mx" "PAGE_SIZE dvd t" "0 \<le> j" "j < mx"
    and "cslab_mem_first s + i * obj = cslab_mem_first t + j * obj"
  shows "s = t \<and> i = j"
proof -
  have "s = t"
    using obj_in_page(1) [OF assms(1,2,3,4)] obj_in_page(1) [OF assms(1,5,6,7)] assms(8) by simp
  moreover have "obj \<noteq> 0" using assms(1) by (simp add: slab_sizes_def)
  ultimately show ?thesis using assms(8) by simp
qed


section \<open>Allocation\<close>

lemma slab_page_cong:
  "bitmap_of st' s = bitmap_of st s \<Longrightarrow> nfree_of st' s = nfree_of st s \<Longrightarrow> slab_page st' mx s = slab_page st mx s"
  by (simp add: slab_page_def)

lemma fl_ok_cong: "slinks st' = slinks st \<Longrightarrow> flist st' = flist st \<Longrightarrow> fl_ok st' ps = fl_ok st ps"
  by (simp add: fl_ok_def split: list.split)

lemma slab_invD:
  assumes "slab_inv st mx S ps"
  shows "pool_ok (spool st)" "S \<inter> owned (spool st) = {}" "fl_ok st ps" "set ps = {s \<in> S. nfree_of st s \<noteq> 0}"
    "s \<in> S \<Longrightarrow> slab_page st mx s" "s \<in> S \<Longrightarrow> s \<notin> set ps \<Longrightarrow> ring (slinks st) [s]"
  using assms by (auto simp: slab_inv_def simp del: ring.simps)

lemma slab_invI:
  assumes "pool_ok (spool st)" "S \<inter> owned (spool st) = {}" "fl_ok st ps" "set ps = {s \<in> S. nfree_of st s \<noteq> 0}"
    and "\<And>s. s \<in> S \<Longrightarrow> slab_page st mx s" "\<And>s. s \<in> S \<Longrightarrow> s \<notin> set ps \<Longrightarrow> ring (slinks st) [s]"
  shows "slab_inv st mx S ps"
  using assms unfolding slab_inv_def by blast

text \<open>Taking an object from a slab that has one.\<close>

lemma cslab_take_ok:
  assumes sz: "slab_sizes obj mx" and inv: "slab_inv st mx S ps" and s: "s \<in> S" "nfree_of st s \<noteq> 0"
  obtains idx st' ps' where "cslab_take st s obj mx = Some (cslab_mem_first s + idx * obj, st')"
    "0 \<le> idx" "idx < mx" "bit_at (bitmap_of st s) (nat idx)" "slab_inv st' mx S ps'"
    "bitmap_of st' = (bitmap_of st)(s := bitmap_unset (bitmap_of st s) (nat idx))"
    "nfree_of st' = (nfree_of st)(s := nfree_of st s - 1)" "spool st' = spool st"
proof -
  let ?b = "bitmap_of st s"
  have pg: "slab_page st mx s" using slab_invD(5) [OF inv s(1)] .
  have len: "length ?b = 4" and nf: "nfree_of st s = int (nset (bit_at ?b) (nat mx))"
    using pg by (auto simp: slab_page_def)
  have mx: "nat mx \<le> 128" "0 < mx" using sz by (auto simp: slab_sizes_def)
  obtain k where k: "k < nat mx" "bitmap_one ?b 4 = int k" "bit_at ?b k"
    using bm128.first_free [of ?b "nat mx"] len mx nf s(2) by auto
  let ?b' = "bitmap_unset ?b k"
  define st1 where "st1 = st\<lparr>bitmap_of := (bitmap_of st)(s := ?b'), nfree_of := (nfree_of st)(s := nfree_of st s - 1)\<rparr>"
  have st1: "bitmap_of st1 = (bitmap_of st)(s := ?b')" "nfree_of st1 = (nfree_of st)(s := nfree_of st s - 1)"
    "slinks st1 = slinks st" "flist st1 = flist st" "spool st1 = spool st" by (simp_all add: st1_def)
  have n': "nset (bit_at ?b') (nat mx) = nset (bit_at ?b) (nat mx) - 1"
    using bm128.nset_clr [of ?b "nat mx" k] len mx k by simp
  have pg1: "slab_page st1 mx t" if "t \<in> S" for t
  proof (cases "t = s")
    case True
    then show ?thesis using pg n' s(2) nf len bm128.ok_clr [of ?b k] by (simp add: slab_page_def st1 of_nat_diff)
  next
    case False
    then show ?thesis using slab_invD(5) [OF inv that] by (simp add: slab_page_cong [of st1 t st] st1)
  qed
  have fl1: "fl_ok st1 ps" using slab_invD(3) [OF inv] by (simp add: fl_ok_cong [of st1 st] st1)
  have sps: "s \<in> set ps" using slab_invD(4) [OF inv] s by simp
  have ge: "0 < nfree_of st s" using nf s(2) by simp
  have unf: "cslab_take st s obj mx =
      (if nfree_of st s - 1 = 0 then do { st \<leftarrow> slab_freelist_rem st1 s; Some (cslab_mem_first s + int k * obj, st) }
       else Some (cslab_mem_first s + int k * obj, st1))"
    using k s(2) by (simp add: cslab_take_def Let_def st1_def)
  show thesis
  proof (cases "nfree_of st s = 1")
    case False
    have "set ps = {t \<in> S. nfree_of st1 t \<noteq> 0}" using slab_invD(4) [OF inv] False s by (auto simp: st1)
    then have "slab_inv st1 mx S ps"
      using slab_invD(1,2) [OF inv] fl1 pg1 slab_invD(6) [OF inv] unfolding slab_inv_def st1 by blast
    then show thesis using that [of "int k" st1 ps] unf False k st1 by simp
  next
    case True
    obtain l f ps' where rem: "slab_freelist_rem st1 s = Some (st1\<lparr>slinks := l, flist := f\<rparr>)"
      and fl2: "fl_ok (st1\<lparr>slinks := l, flist := f\<rparr>) ps'" and set: "set ps' = set ps - {s}" and self: "ring l [s]"
      and frame: "\<forall>y. ring (slinks st1) [y] \<longrightarrow> y \<notin> set ps \<longrightarrow> ring l [y]"
      by (rule slab_freelist_rem_ok [OF fl1 sps])
    let ?st2 = "st1\<lparr>slinks := l, flist := f\<rparr>"
    have "set ps' = {t \<in> S. nfree_of ?st2 t \<noteq> 0}" using slab_invD(4) [OF inv] True s set by (auto simp: st1)
    moreover have "slab_page ?st2 mx t" if "t \<in> S" for t
      using pg1 [OF that] by (simp add: slab_page_cong [of ?st2 t st1])
    moreover have "ring (slinks ?st2) [t]" if "t \<in> S" "t \<notin> set ps'" for t
      using that self frame [rule_format, of t] slab_invD(6) [OF inv that(1)] set by (cases "t = s") (auto simp: st1 simp del: ring.simps)
    ultimately have "slab_inv ?st2 mx S ps'"
      using slab_invD(1,2) [OF inv] fl2 by (simp add: slab_inv_def st1 del: ring.simps)
    then show thesis using that [of "int k" ?st2 ps'] unf True k rem by (simp add: st1)
  qed
qed


lemma bit_at_ones: "v < 128 \<Longrightarrow> bit_at (replicate 4 (- 1)) v"
proof -
  assume v: "v < 128"
  then have "v div 32 < 4" by simp
  then have "(replicate 4 (- 1) :: u32 list) ! (v div 32) = - 1" by (rule nth_replicate)
  then show ?thesis by (simp add: bit_at_def)
qed

text \<open>A fresh page becomes a slab whose objects are all free.\<close>

lemma cslab_init_ok:
  assumes sz: "slab_sizes obj mx" and inv: "slab_inv st mx S []" and a: "a \<notin> S" "a \<noteq> NULL" "PAGE_SIZE dvd a"
    "a \<notin> owned (spool st)"
  obtains st' where "cslab_init st a obj mx = Some st'" "slab_inv st' mx (insert a S) [a]"
    "bitmap_of st' = (bitmap_of st)(a := replicate 4 (NOT 0))" "nfree_of st' = (nfree_of st)(a := mx)"
    "spool st' = spool st" "flist st' = a"
proof -
  define st1 where "st1 = st\<lparr>obj_sz_of := (obj_sz_of st)(a := obj), nfree_of := (nfree_of st)(a := mx),
           bitmap_of := (bitmap_of st)(a := replicate 4 (NOT 0)), slinks := INIT_LIST (slinks st) a\<rparr>"
  have st1: "nfree_of st1 = (nfree_of st)(a := mx)" "bitmap_of st1 = (bitmap_of st)(a := replicate 4 (NOT 0))"
    "slinks st1 = INIT_LIST (slinks st) a" "spool st1 = spool st" "flist st1 = flist st"
    by (simp_all add: st1_def)
  have fl: "fl_ok st1 []" using slab_invD(3) [OF inv] by (simp add: fl_ok_def st1)
  have ra: "ring (slinks st1) [a]" unfolding st1 by (rule cos_list.init_ring)
  obtain l ps' where add: "slab_freelist_add st1 a = Some (st1\<lparr>slinks := l, flist := a\<rparr>)"
    and fl2: "fl_ok (st1\<lparr>slinks := l, flist := a\<rparr>) ps'" and set: "set ps' = insert a (set [])"
    and frame: "\<forall>y. ring (slinks st1) [y] \<longrightarrow> y \<notin> set (a # []) \<longrightarrow> ring l [y]"
    by (rule slab_freelist_add_ok [OF fl ra _ a(2)]) simp_all
  let ?st2 = "st1\<lparr>slinks := l, flist := a\<rparr>"
  have ps': "ps' = [a]"
  proof -
    have "distinct ps'" using fl_ok_distinct [OF fl2] .
    then show ?thesis using set by (cases ps'; cases "tl ps'") auto
  qed
  have "nat mx \<le> 128" using sz by (auto simp: slab_sizes_def)
  then have bits: "nset (bit_at (replicate 4 (NOT 0))) (nat mx) = nat mx" by (simp add: nset_full bit_at_ones)
  have pos: "0 < mx" using sz by (simp add: slab_sizes_def)
  have none: "nfree_of st s = 0" if "s \<in> S" for s using slab_invD(4) [OF inv] that by auto
  have "slab_page ?st2 mx s" if "s \<in> insert a S" for s
  proof (cases "s = a")
    case True
    then show ?thesis using a bits pos by (simp add: slab_page_def st1)
  next
    case False
    then show ?thesis using that slab_invD(5) [OF inv, of s] by (simp add: slab_page_def st1)
  qed
  moreover have "ring (slinks ?st2) [s]" if "s \<in> insert a S" "s \<notin> set [a]" for s
  proof -
    have "ring (slinks st) [s]" using slab_invD(6) [OF inv, of s] that by simp
    then have "ring (slinks st1) [s]" unfolding st1 by (rule cos_list.init_frame) (use that in auto)
    then show ?thesis using frame [rule_format, of s] that by simp
  qed
  moreover have "set [a] = {s \<in> insert a S. nfree_of ?st2 s \<noteq> 0}" using none a(1) pos by (auto simp: st1)
  moreover have "pool_ok (spool ?st2)" "insert a S \<inter> owned (spool ?st2) = {}"
    using slab_invD(1,2) [OF inv] a(4) by (auto simp: st1)
  ultimately have "slab_inv ?st2 mx (insert a S) [a]" using fl2 unfolding ps' by (intro slab_invI)
  then show thesis
    using that [of ?st2] add by (simp add: cslab_init_def st1_def)
qed

lemma slab_inv_flist:
  assumes "slab_inv st mx S ps"
  shows "flist st = NULL \<longleftrightarrow> ps = []" "flist st \<noteq> NULL \<Longrightarrow> flist st \<in> S \<and> nfree_of st (flist st) \<noteq> 0"
  using slab_invD(3,4) [OF assms] by (cases ps; force simp: fl_ok_def simp del: ring.simps)+


lemma live_insert: "live st obj mx (insert a S) = live st obj mx {a} \<union> live st obj mx S"
  by (auto simp: live_def)

lemma live_cong:
  "(\<And>s. s \<in> S \<Longrightarrow> bitmap_of st' s = bitmap_of st s) \<Longrightarrow> live st' obj mx S = live st obj mx S"
  by (simp add: live_def cong: conj_cong)

text \<open>The live objects after one bit was cleared or set.\<close>

lemma live_take:
  assumes sz: "slab_sizes obj mx" and al: "\<And>t. t \<in> S \<Longrightarrow> PAGE_SIZE dvd t" and s: "s \<in> S"
    and b: "bitmap_of st' = (bitmap_of st)(s := bitmap_unset (bitmap_of st s) (nat idx))"
    and len: "length (bitmap_of st s) = 4" and idx: "0 \<le> idx" "idx < mx" and bit: "bit_at (bitmap_of st s) (nat idx)"
  shows "live st' obj mx S = insert (cslab_mem_first s + idx * obj) (live st obj mx S)"
    and "cslab_mem_first s + idx * obj \<notin> live st obj mx S"
proof -
  have mx: "mx \<le> 128" using sz by (simp add: slab_sizes_def)
  have t: "bit_at (bitmap_of st' t) (nat i) \<longleftrightarrow> \<not> (t = s \<and> i = idx) \<and> bit_at (bitmap_of st t) (nat i)"
    if "0 \<le> i" "i < mx" for t i
    using bm128.test_clr [of "bitmap_of st s" "nat idx" "nat i"] that idx mx len by (auto simp: b nat_eq_iff2)
  show "live st' obj mx S = insert (cslab_mem_first s + idx * obj) (live st obj mx S)"
    unfolding live_def using t s idx by auto
  show "cslab_mem_first s + idx * obj \<notin> live st obj mx S"
  proof
    assume "cslab_mem_first s + idx * obj \<in> live st obj mx S"
    then obtain t i where "cslab_mem_first s + idx * obj = cslab_mem_first t + i * obj" "t \<in> S" "0 \<le> i" "i < mx"
      "\<not> bit_at (bitmap_of st t) (nat i)" by (auto simp: live_def)
    with obj_unique [OF sz al [OF s] idx al [OF \<open>t \<in> S\<close>]] bit show False by auto
  qed
qed

lemma slab_inv_aligned: "slab_inv st mx S ps \<Longrightarrow> s \<in> S \<Longrightarrow> PAGE_SIZE dvd s \<and> length (bitmap_of st s) = 4"
  using slab_invD(5) [of st mx S ps s] by (simp add: slab_page_def)

text \<open>What an allocation does: nothing, for lack of memory, or a fresh object.\<close>

lemma cslab_mem_alloc_ok:
  assumes sz: "slab_sizes obj mx" and inv: "slab_inv st mx S ps"
  obtains (nomem) "cslab_mem_alloc st obj mx = Some (NULL, st)" "owned (spool st) = {}" "ps = []"
  | (gives) s idx st' ps' where "cslab_mem_alloc st obj mx = Some (cslab_mem_first s + idx * obj, st')"
      "slab_inv st' mx (insert s S) ps'" "0 \<le> idx" "idx < mx" "PAGE_SIZE dvd s" "s \<noteq> NULL"
      "live st' obj mx (insert s S) = insert (cslab_mem_first s + idx * obj) (live st obj mx S)"
      "cslab_mem_first s + idx * obj \<notin> live st obj mx S"
      "insert s S \<union> owned (spool st') = S \<union> owned (spool st)"
proof (cases "flist st = NULL")
  case False
  let ?s = "flist st"
  have s: "?s \<in> S" "nfree_of st ?s \<noteq> 0" using slab_inv_flist [OF inv] False by auto
  have al: "\<And>t. t \<in> S \<Longrightarrow> PAGE_SIZE dvd t" using slab_inv_aligned [OF inv] by blast
  obtain idx st' ps' where t: "cslab_take st ?s obj mx = Some (cslab_mem_first ?s + idx * obj, st')"
    and i: "0 \<le> idx" "idx < mx" and b: "bit_at (bitmap_of st ?s) (nat idx)" and inv': "slab_inv st' mx S ps'"
    and bm: "bitmap_of st' = (bitmap_of st)(?s := bitmap_unset (bitmap_of st ?s) (nat idx))" and sp: "spool st' = spool st"
    by (rule cslab_take_ok [OF sz inv s])
  have len: "length (bitmap_of st ?s) = 4" using slab_inv_aligned [OF inv s(1)] by simp
  have ins: "insert ?s S = S" using s by auto
  show thesis
  proof (rule gives [of ?s idx st' ps', unfolded ins])
    show "cslab_mem_alloc st obj mx = Some (cslab_mem_first ?s + idx * obj, st')"
      using t False by (simp add: cslab_mem_alloc_def)
  qed (use False inv' i al [OF s(1)] sp live_take [OF sz al s(1) bm len i b] in simp_all)
next
  case True
  then have ps: "ps = []" using slab_inv_flist [OF inv] by simp
  have "pool_ok (spool st)" using slab_invD(1) [OF inv] .
  then show thesis
  proof (cases rule: ps.alloc_cases)
    case none
    then show thesis using nomem True ps by (simp add: cslab_mem_alloc_def)
  next
    case (page a p')
    let ?st = "st\<lparr>spool := p'\<rparr>"
    have inv1: "slab_inv ?st mx S []"
      using inv page unfolding ps slab_inv_def fl_ok_def slab_page_def by (auto simp del: ring.simps)
    have a: "a \<notin> S" using slab_invD(2) [OF inv] page by auto
    obtain st1 where init: "cslab_init ?st a obj mx = Some st1" and inv2: "slab_inv st1 mx (insert a S) [a]"
      and bm1: "bitmap_of st1 = (bitmap_of ?st)(a := replicate 4 (NOT 0))"
      and nf1: "nfree_of st1 = (nfree_of ?st)(a := mx)" and sp1: "spool st1 = spool ?st" and "flist st1 = a"
      by (rule cslab_init_ok [OF sz inv1 a]) (use page in auto)
    have nf: "nfree_of st1 a \<noteq> 0" using sz by (simp add: nf1 slab_sizes_def)
    obtain idx st' ps' where t: "cslab_take st1 a obj mx = Some (cslab_mem_first a + idx * obj, st')"
      and i: "0 \<le> idx" "idx < mx" and b: "bit_at (bitmap_of st1 a) (nat idx)" and inv': "slab_inv st' mx (insert a S) ps'"
      and bm: "bitmap_of st' = (bitmap_of st1)(a := bitmap_unset (bitmap_of st1 a) (nat idx))" and sp: "spool st' = spool st1"
      by (rule cslab_take_ok [OF sz inv2 _ nf]) auto
    have al: "\<And>t. t \<in> insert a S \<Longrightarrow> PAGE_SIZE dvd t" using slab_inv_aligned [OF inv2] by blast
    have len: "length (bitmap_of st1 a) = 4" by (simp add: bm1)
    have "bit_at (bitmap_of st1 a) (nat k)" if "0 \<le> k" "k < mx" for k
      using that sz bit_at_ones by (auto simp: bm1 slab_sizes_def)
    then have "live st1 obj mx {a} = {}" by (auto simp: live_def)
    moreover have "live st1 obj mx S = live st obj mx S" using a by (intro live_cong) (auto simp: bm1)
    ultimately have same: "live st1 obj mx (insert a S) = live st obj mx S"
      using live_insert [of st1 obj mx a S] by simp
    note lv = live_take [of obj mx "insert a S", OF sz al insertI1 bm len i b, unfolded same]
    show thesis
    proof (rule gives [of a idx st' ps'])
      show "cslab_mem_alloc st obj mx = Some (cslab_mem_first a + idx * obj, st')"
        using t True init page(1,2) by (simp add: cslab_mem_alloc_def)
      show "insert a S \<union> owned (spool st') = S \<union> owned (spool st)" using page(4,5) by (auto simp: sp sp1)
    qed (use page(2,3) inv' i lv in simp_all)
  qed
qed


section \<open>Freeing\<close>

lemma slab_freelist_rem_lone:
  assumes fl: "fl_ok st ps" and s: "s \<notin> set ps" "ring (slinks st) [s]" "s \<noteq> NULL"
  obtains l where "slab_freelist_rem st s = Some (st\<lparr>slinks := l\<rparr>)" "fl_ok (st\<lparr>slinks := l\<rparr>) ps"
    "\<forall>y. ring (slinks st) [y] \<longrightarrow> y \<noteq> s \<longrightarrow> ring l [y]"
proof -
  let ?l = "REM_LIST (slinks st) s"
  have "flist st \<noteq> s" using fl s by (cases ps) (auto simp: fl_ok_def simp del: ring.simps)
  moreover have "fl_ok (st\<lparr>slinks := ?l\<rparr>) ps"
    using fl s cos_list.rem_frame [OF s(2), of ps] by (cases ps) (auto simp: fl_ok_def simp del: ring.simps)
  moreover have "\<forall>y. ring (slinks st) [y] \<longrightarrow> y \<noteq> s \<longrightarrow> ring ?l [y]"
    using cos_list.rem_frame [OF s(2)] by (auto simp del: ring.simps)
  ultimately show thesis using that [of ?l] s(3) by (simp add: slab_freelist_rem_def)
qed

lemma slab_freelist_rem_any:
  assumes fl: "fl_ok st ps" and s: "s \<in> set ps \<or> ring (slinks st) [s]" "s \<noteq> NULL"
  obtains l f ps' where "slab_freelist_rem st s = Some (st\<lparr>slinks := l, flist := f\<rparr>)"
    "fl_ok (st\<lparr>slinks := l, flist := f\<rparr>) ps'" "set ps' = set ps - {s}"
    "\<forall>y. ring (slinks st) [y] \<longrightarrow> y \<notin> set ps \<longrightarrow> y \<noteq> s \<longrightarrow> ring l [y]"
proof (cases "s \<in> set ps")
  case True
  from slab_freelist_rem_ok [OF fl True] show thesis using that by metis
next
  case False
  have r: "ring (slinks st) [s]" using s False by blast
  obtain l where "slab_freelist_rem st s = Some (st\<lparr>slinks := l\<rparr>)" "fl_ok (st\<lparr>slinks := l\<rparr>) ps"
    "\<forall>y. ring (slinks st) [y] \<longrightarrow> y \<noteq> s \<longrightarrow> ring l [y]"
    by (rule slab_freelist_rem_lone [OF fl False r s(2)])
  then show thesis using that [where l = l and f = "flist st" and ps' = ps] False by simp
qed

text \<open>The live objects after the bit of an object was set.\<close>

lemma live_give:
  assumes sz: "slab_sizes obj mx" and al: "\<And>t. t \<in> S \<Longrightarrow> PAGE_SIZE dvd t" and s: "s \<in> S"
    and b: "bitmap_of st' = (bitmap_of st)(s := bitmap_set (bitmap_of st s) (nat idx))"
    and len: "length (bitmap_of st s) = 4" and idx: "0 \<le> idx" "idx < mx"
  shows "live st' obj mx S = live st obj mx S - {cslab_mem_first s + idx * obj}"
proof -
  have mx: "mx \<le> 128" using sz by (simp add: slab_sizes_def)
  have t: "bit_at (bitmap_of st' t) (nat i) \<longleftrightarrow> t = s \<and> i = idx \<or> bit_at (bitmap_of st t) (nat i)"
    if "0 \<le> i" "i < mx" for t i
    using bm128.test_put [of "bitmap_of st s" "nat idx" "nat i"] that idx mx len by (auto simp: b nat_eq_iff2)
  have u: "cslab_mem_first t + i * obj = cslab_mem_first s + idx * obj \<longleftrightarrow> t = s \<and> i = idx"
    if "t \<in> S" "0 \<le> i" "i < mx" for t i
    using obj_unique [OF sz al [OF that(1)] that(2,3) al [OF s] idx] by auto
  show ?thesis
  proof (intro set_eqI iffI)
    fix x assume "x \<in> live st' obj mx S"
    then obtain r i where "x = cslab_mem_first r + i * obj" "r \<in> S" "0 \<le> i" "i < mx" "\<not> bit_at (bitmap_of st' r) (nat i)"
      by (auto simp: live_def)
    with t [of i r] u [of r i] show "x \<in> live st obj mx S - {cslab_mem_first s + idx * obj}"
      by (auto simp: live_def)
  next
    fix x assume "x \<in> live st obj mx S - {cslab_mem_first s + idx * obj}"
    then obtain r i where x: "x = cslab_mem_first r + i * obj" "r \<in> S" "0 \<le> i" "i < mx" "\<not> bit_at (bitmap_of st r) (nat i)"
      and ne: "x \<noteq> cslab_mem_first s + idx * obj" by (auto simp: live_def)
    then have "\<not> bit_at (bitmap_of st' r) (nat i)" using t [of i r] u [of r i] by auto
    with x show "x \<in> live st' obj mx S" by (auto simp: live_def)
  qed
qed

text \<open>Freeing an object that is live: no assertion fails, the object and only it is given back.\<close>

lemma cslab_mem_free_ok:
  assumes sz: "slab_sizes obj mx" and inv: "slab_inv st mx S ps" and buf: "buf \<in> live st obj mx S"
  obtains st' S' ps' where "cslab_mem_free st buf obj mx = Some st'" "slab_inv st' mx S' ps'"
    "live st' obj mx S' = live st obj mx S - {buf}" "S' \<union> owned (spool st') = S \<union> owned (spool st)"
proof -
  from buf obtain s idx where bf: "buf = cslab_mem_first s + idx * obj" and s: "s \<in> S" and i: "0 \<le> idx" "idx < mx"
    and bit: "\<not> bit_at (bitmap_of st s) (nat idx)" by (auto simp: live_def)
  let ?b = "bitmap_of st s"
  have al: "\<And>t. t \<in> S \<Longrightarrow> PAGE_SIZE dvd t" using slab_inv_aligned [OF inv] by blast
  have pg: "slab_page st mx s" using slab_invD(5) [OF inv s] .
  then have len: "length ?b = 4" and nf: "nfree_of st s = int (nset (bit_at ?b) (nat mx))" and sn: "s \<noteq> NULL"
    by (auto simp: slab_page_def)
  note lk = obj_in_page [OF sz al [OF s] i]
  define st1 where "st1 = st\<lparr>bitmap_of := (bitmap_of st)(s := bitmap_set ?b (nat idx)), nfree_of := (nfree_of st)(s := nfree_of st s + 1)\<rparr>"
  have st1: "bitmap_of st1 = (bitmap_of st)(s := bitmap_set ?b (nat idx))" "nfree_of st1 = (nfree_of st)(s := nfree_of st s + 1)"
    "slinks st1 = slinks st" "flist st1 = flist st" "spool st1 = spool st" by (simp_all add: st1_def)
  have bn: "buf \<noteq> NULL"
  proof
    assume "buf = NULL"
    then have "cslab_lookup buf = NULL" by (simp add: cslab_lookup_def)
    then show False using lk(1) sn bf by simp
  qed
  have off: "0 \<le> buf - cslab_mem_first s" using bf i sz by (simp add: slab_sizes_def)
  have chk: "bitmap_check ?b (nat idx) = 0" using bit bitmap_check_iff by blast
  have unf: "cslab_mem_free st buf obj mx =
      (if nfree_of st s + 1 = mx then do { st \<leftarrow> slab_freelist_rem st1 s; Some (st\<lparr>spool := free_page (spool st) s\<rparr>) }
       else if nfree_of st s + 1 = 1 then do { assert_that (EMPTY_LIST (slinks st1) s); slab_freelist_add st1 s }
       else Some st1)"
    using sn bn off i chk lk(1,2) unfolding bf by (simp add: cslab_mem_free_def Let_def st1_def)
  have mx: "nat mx \<le> 128" "nat idx < nat mx" using sz i by (auto simp: slab_sizes_def)
  have n': "nset (bit_at (bitmap_set ?b (nat idx))) (nat mx) = nset (bit_at ?b) (nat mx) + 1"
    using bm128.nset_put [of ?b "nat mx" "nat idx"] len mx bit by simp
  have pg1: "slab_page st1 mx t" if "t \<in> S" for t
  proof (cases "t = s")
    case True
    then show ?thesis using pg n' nf len by (simp add: slab_page_def st1)
  next
    case False
    then show ?thesis using slab_invD(5) [OF inv that] by (simp add: slab_page_cong [of st1 t st] st1)
  qed
  have fl1: "fl_ok st1 ps" using slab_invD(3) [OF inv] by (simp add: fl_ok_cong [of st1 st] st1)
  have lv: "live st1 obj mx S = live st obj mx S - {buf}"
    unfolding bf by (rule live_give [OF sz al s st1(1) len i])
  have ge: "0 \<le> nfree_of st s" using nf by simp
  have sps: "s \<in> set ps \<longleftrightarrow> nfree_of st s \<noteq> 0" using slab_invD(4) [OF inv] s by simp
  consider (full) "nfree_of st s + 1 = mx" | (first) "nfree_of st s + 1 \<noteq> mx" "nfree_of st s = 0"
    | (other) "nfree_of st s + 1 \<noteq> mx" "nfree_of st s \<noteq> 0" by blast
  then show thesis
  proof cases
    case other
    have "slab_inv st1 mx S ps"
    proof (rule slab_invI)
      show "set ps = {t \<in> S. nfree_of st1 t \<noteq> 0}" using slab_invD(4) [OF inv] other ge by (auto simp: st1)
    qed (use slab_invD(1,2,6) [OF inv] fl1 pg1 in \<open>simp_all add: st1 del: ring.simps\<close>)
    then show thesis using that [of st1 S ps] unf other lv by (simp add: st1)
  next
    case first
    have rs: "ring (slinks st1) [s]" using slab_invD(6) [OF inv s] sps first by (simp add: st1 del: ring.simps)
    obtain l ps' where add: "slab_freelist_add st1 s = Some (st1\<lparr>slinks := l, flist := s\<rparr>)"
      and fl2: "fl_ok (st1\<lparr>slinks := l, flist := s\<rparr>) ps'" and set: "set ps' = insert s (set ps)"
      and frame: "\<forall>y. ring (slinks st1) [y] \<longrightarrow> y \<notin> set (s # ps) \<longrightarrow> ring l [y]"
      by (rule slab_freelist_add_ok [OF fl1 rs _ sn]) (use sps first in simp_all)
    let ?st2 = "st1\<lparr>slinks := l, flist := s\<rparr>"
    have "EMPTY_LIST (slinks st1) s" using cos_list.is_empty_iff [OF rs] by simp
    moreover have "slab_inv ?st2 mx S ps'"
    proof (rule slab_invI)
      show "set ps' = {t \<in> S. nfree_of ?st2 t \<noteq> 0}" using slab_invD(4) [OF inv] first s set by (auto simp: st1)
      show "slab_page ?st2 mx t" if "t \<in> S" for t using pg1 [OF that] by (simp add: slab_page_cong [of ?st2 t st1])
      show "ring (slinks ?st2) [t]" if "t \<in> S" "t \<notin> set ps'" for t
        using that frame [rule_format, of t] slab_invD(6) [OF inv that(1)] set by (simp add: st1 del: ring.simps)
    qed (use slab_invD(1,2) [OF inv] fl2 in \<open>simp_all add: st1\<close>)
    moreover have "live ?st2 obj mx S = live st1 obj mx S" by (rule live_cong) simp
    ultimately show thesis using that [of ?st2 S ps'] unf first add lv by (simp add: st1)
  next
    case full
    have "s \<in> set ps \<or> ring (slinks st1) [s]" using slab_invD(6) [OF inv s] by (auto simp: st1 simp del: ring.simps)
    from slab_freelist_rem_any [OF fl1 this sn]
    obtain l f ps' where rem: "slab_freelist_rem st1 s = Some (st1\<lparr>slinks := l, flist := f\<rparr>)"
      and fl2: "fl_ok (st1\<lparr>slinks := l, flist := f\<rparr>) ps'" and set: "set ps' = set ps - {s}"
      and frame: "\<forall>y. ring (slinks st1) [y] \<longrightarrow> y \<notin> set ps \<longrightarrow> y \<noteq> s \<longrightarrow> ring l [y]" .
    have pool: "pool_ok (spool st)" and so: "s \<notin> owned (spool st)" and pa: "PAGE_SIZE dvd s"
      using slab_invD(1,2) [OF inv] s al by auto
    let ?st2 = "st1\<lparr>slinks := l, flist := f, spool := free_page (spool st) s\<rparr>"
    have own: "owned (spool ?st2) = insert s (owned (spool st))" using ps.free_own [OF pool sn pa so] by simp
    have inv': "slab_inv ?st2 mx (S - {s}) ps'"
    proof (rule slab_invI)
      show "pool_ok (spool ?st2)" using ps.free_ok [OF pool sn pa so] by simp
      show "(S - {s}) \<inter> owned (spool ?st2) = {}" unfolding own using slab_invD(2) [OF inv] by auto
      show "fl_ok ?st2 ps'" using fl2 by (simp add: fl_ok_cong [of ?st2 "st1\<lparr>slinks := l, flist := f\<rparr>"])
      show "set ps' = {t \<in> S - {s}. nfree_of ?st2 t \<noteq> 0}" using slab_invD(4) [OF inv] set by (auto simp: st1)
      show "slab_page ?st2 mx t" if "t \<in> S - {s}" for t
        using pg1 [of t] that by (simp add: slab_page_cong [of ?st2 t st1])
      show "ring (slinks ?st2) [t]" if "t \<in> S - {s}" "t \<notin> set ps'" for t
        using that frame [rule_format, of t] slab_invD(6) [OF inv, of t] set by (simp add: st1 del: ring.simps)
    qed
    have "nset (bit_at (bitmap_of st1 s)) (nat mx) = nat mx" using n' nf full by (simp add: st1)
    then have "live st1 obj mx {s} = {}" by (auto simp: live_def nset_full)
    then have "live ?st2 obj mx (S - {s}) = live st1 obj mx S"
      using live_insert [of st1 obj mx s "S - {s}"] s live_cong [of "S - {s}" ?st2 st1 obj mx] by (simp add: insert_absorb)
    then have "live ?st2 obj mx (S - {s}) = live st obj mx S - {buf}" using lv by simp
    moreover have "cslab_mem_free st buf obj mx = Some ?st2" using unf full rem by (simp add: st1)
    moreover have "S - {s} \<union> owned (spool ?st2) = S \<union> owned (spool st)" unfolding own using s by auto
    ultimately show thesis using that inv' by blast
  qed
qed


section \<open>The allocator of objects of one size\<close>

lemma slab_sizes_of:
  assumes "0 < sz" "sz \<le> 4032"
  shows "slab_sizes (slab_obj_sz sz) (slab_max_objs sz)" and "sz \<le> slab_obj_sz sz"
proof -
  define k where "k = (sz + 31) div 32"
  have k: "1 \<le> k" "k \<le> 126" using assms by (auto simp: k_def)
  have rnd: "round_up_to_pow2 sz 32 = k * 32" by (simp add: round_up_to_pow2_def round_to_pow2_def k_def add.commute)
  have obj: "slab_obj_sz sz = k * 32" unfolding slab_obj_sz_def rnd ..
  have mx: "slab_max_objs sz = 4032 div (k * 32)" unfolding slab_max_objs_def rnd by simp
  have m1: "1 \<le> 4032 div (k * 32)" using k zdiv_mono1 [of "k * 32" 4032 "k * 32"] by simp
  have m2: "4032 div (k * 32) \<le> 4032 div 32" using k by (intro zdiv_mono2) auto
  have m3: "4032 div (k * 32) * (k * 32) \<le> 4032" using div_mult_mod_eq [of 4032 "k * 32"] k
    pos_mod_sign [of "k * 32" 4032] by linarith
  show "slab_sizes (slab_obj_sz sz) (slab_max_objs sz)"
    unfolding slab_sizes_def obj mx using k m1 m2 m3 by linarith
  show "sz \<le> slab_obj_sz sz" unfolding obj k_def using div_mult_mod_eq [of "sz + 31" 32] pos_mod_bound [of 32 "sz + 31"] by linarith
qed

text \<open>\<open>slab_ok sz st L\<close>: the allocator for objects of size \<open>sz\<close> has handed out exactly the objects in \<open>L\<close>.\<close>

definition slab_ok :: "int \<Rightarrow> slabs \<Rightarrow> addr set \<Rightarrow> bool" where
  "slab_ok sz st L \<longleftrightarrow> 0 < sz \<and> sz \<le> 4032 \<and>
     (\<exists>S ps. slab_inv st (slab_max_objs sz) S ps \<and> L = live st (slab_obj_sz sz) (slab_max_objs sz) S)"

lemma live_ne_NULL:
  assumes "slab_sizes obj mx" "slab_inv st mx S ps" "a \<in> live st obj mx S"
  shows "a \<noteq> NULL"
proof -
  from assms(3) obtain s idx where a: "a = cslab_mem_first s + idx * obj" "s \<in> S" "0 \<le> idx" "idx < mx"
    by (auto simp: live_def)
  have "slab_page st mx s" using slab_invD(5) [OF assms(2) a(2)] .
  then have s: "s \<noteq> NULL" "PAGE_SIZE dvd s" by (auto simp: slab_page_def)
  have "cslab_lookup a = s" using obj_in_page(1) [OF assms(1) s(2) a(3,4)] a(1) by simp
  then show ?thesis using s(1) by (auto simp: cslab_lookup_def)
qed

text \<open>Two different live objects do not overlap.\<close>

lemma live_disjoint:
  assumes "slab_sizes obj mx" "slab_inv st mx S ps" "a \<in> live st obj mx S" "b \<in> live st obj mx S" "a \<noteq> b"
  shows "a + obj \<le> b \<or> b + obj \<le> a"
proof -
  have al: "\<And>t. t \<in> S \<Longrightarrow> PAGE_SIZE dvd t" using slab_inv_aligned [OF assms(2)] by blast
  from assms(3) obtain s i where a: "a = cslab_mem_first s + i * obj" "s \<in> S" "0 \<le> i" "i < mx" by (auto simp: live_def)
  from assms(4) obtain t j where b: "b = cslab_mem_first t + j * obj" "t \<in> S" "0 \<le> j" "j < mx" by (auto simp: live_def)
  note A = obj_in_page [OF assms(1) al [OF a(2)] a(3,4)] and B = obj_in_page [OF assms(1) al [OF b(2)] b(3,4)]
  have obj: "0 < obj" using assms(1) by (simp add: slab_sizes_def)
  obtain p where p: "s = PAGE_SIZE * p" using al [OF a(2)] by (rule dvdE)
  obtain q where q: "t = PAGE_SIZE * q" using al [OF b(2)] by (rule dvdE)
  consider "s = t" "i < j" | "s = t" "j < i" | "s < t" | "t < s"
    using a(1) b(1) assms(5) by (cases "s = t") (auto simp: neq_iff)
  then show ?thesis
  proof cases
    case 1
    then have "(i + 1) * obj \<le> j * obj" using obj by (intro mult_right_mono) auto
    then show ?thesis using a(1) b(1) 1 by (simp add: algebra_simps)
  next
    case 2
    then have "(j + 1) * obj \<le> i * obj" using obj by (intro mult_right_mono) auto
    then show ?thesis using a(1) b(1) 2 by (simp add: algebra_simps)
  next
    case 3
    then have "s + PAGE_SIZE \<le> t" unfolding p q by simp
    then show ?thesis using A(3) B(4) a(1) b(1) by linarith
  next
    case 4
    then have "t + PAGE_SIZE \<le> s" unfolding p q by simp
    then show ?thesis using A(4) B(3) a(1) b(1) by linarith
  qed
qed


text \<open>
  The contract of an allocator of objects. \<open>ok s L\<close>: the allocator is in order and \<open>L\<close> are the
  objects handed out and not yet given back.
\<close>

locale object_alloc =
  fixes ok :: "'s \<Rightarrow> addr set \<Rightarrow> bool"
    and alloc :: "'s \<Rightarrow> (addr \<times> 's) option"
    and free :: "'s \<Rightarrow> addr \<Rightarrow> 's option"
  assumes alloc_total: "ok s L \<Longrightarrow> \<exists>a s'. alloc s = Some (a, s')"
    and alloc_ok: "ok s L \<Longrightarrow> alloc s = Some (a, s') \<Longrightarrow> ok s' (if a = NULL then L else insert a L)"
    and alloc_fresh: "ok s L \<Longrightarrow> alloc s = Some (a, s') \<Longrightarrow> a \<notin> L"
    and not_NULL: "ok s L \<Longrightarrow> NULL \<notin> L"
    and free_total: "ok s L \<Longrightarrow> a \<in> L \<Longrightarrow> \<exists>s'. free s a = Some s'"
    and free_gives: "ok s L \<Longrightarrow> a \<in> L \<Longrightarrow> free s a = Some s' \<Longrightarrow> ok s' (L - {a})"
begin

lemma alloc_then_free:
  assumes "ok s L" "alloc s = Some (a, s')" "a \<noteq> NULL"
  shows "\<exists>s''. free s' a = Some s'' \<and> ok s'' L"
proof -
  have ok': "ok s' (insert a L)" and "a \<notin> L" using alloc_ok [OF assms(1,2)] alloc_fresh [OF assms(1,2)] assms(3) by auto
  then obtain s'' where "free s' a = Some s''" using free_total by blast
  then show ?thesis using free_gives [OF ok' insertI1] \<open>a \<notin> L\<close> by auto
qed

end

lemma cslab_alloc_ok:
  assumes ok: "slab_ok sz st L"
  shows "\<exists>a st'. cslab_alloc sz st = Some (a, st') \<and> a \<notin> L \<and> slab_ok sz st' (if a = NULL then L else insert a L)
     \<and> (a = NULL \<longrightarrow> owned (spool st) = {})"
proof -
  let ?o = "slab_obj_sz sz" and ?m = "slab_max_objs sz"
  from ok obtain S ps where inv: "slab_inv st ?m S ps" and L: "L = live st ?o ?m S" and r: "0 < sz" "sz \<le> 4032"
    by (auto simp: slab_ok_def)
  note sz = slab_sizes_of [OF r]
  show ?thesis
  proof (rule cslab_mem_alloc_ok [OF sz(1) inv])
    assume "cslab_mem_alloc st ?o ?m = Some (NULL, st)" "owned (spool st) = {}"
    moreover have "NULL \<notin> L" using live_ne_NULL [OF sz(1) inv] L by blast
    ultimately show ?thesis using ok by (simp add: cslab_alloc_def)
  next
    fix s idx st' ps'
    let ?a = "cslab_mem_first s + idx * ?o"
    assume a: "cslab_mem_alloc st ?o ?m = Some (?a, st')" "slab_inv st' ?m (insert s S) ps'"
      "live st' ?o ?m (insert s S) = insert ?a (live st ?o ?m S)" "?a \<notin> live st ?o ?m S"
    have "?a \<noteq> NULL" using live_ne_NULL [OF sz(1) a(2), of ?a] a(3) by simp
    moreover have "slab_ok sz st' (insert ?a L)" using a(2,3) r L unfolding slab_ok_def by metis
    ultimately show ?thesis using a(1,4) L by (simp add: cslab_alloc_def)
  qed
qed

lemma cslab_free_ok:
  assumes ok: "slab_ok sz st L" and a: "a \<in> L"
  shows "\<exists>st'. cslab_free sz st a = Some st' \<and> slab_ok sz st' (L - {a})"
proof -
  let ?o = "slab_obj_sz sz" and ?m = "slab_max_objs sz"
  from ok obtain S ps where inv: "slab_inv st ?m S ps" and L: "L = live st ?o ?m S" and r: "0 < sz" "sz \<le> 4032"
    by (auto simp: slab_ok_def)
  from cslab_mem_free_ok [OF slab_sizes_of(1) [OF r] inv a [unfolded L]]
  obtain st' S' ps' where "cslab_mem_free st a ?o ?m = Some st'" "slab_inv st' ?m S' ps'"
    "live st' ?o ?m S' = live st ?o ?m S - {a}" by metis
  moreover from this have "slab_ok sz st' (L - {a})" using r L unfolding slab_ok_def by metis
  ultimately show ?thesis by (simp add: cslab_free_def)
qed

lemma slab_ok_not_NULL: "slab_ok sz st L \<Longrightarrow> NULL \<notin> L"
  using live_ne_NULL slab_sizes_of(1) unfolding slab_ok_def by blast

interpretation slab: object_alloc "slab_ok sz" "cslab_alloc sz" "cslab_free sz" for sz
proof unfold_locales
  fix st L a st'
  assume ok: "slab_ok sz st L"
  note al = cslab_alloc_ok [OF ok]
  show "\<exists>a s'. cslab_alloc sz st = Some (a, s')" using al by blast
  show "NULL \<notin> L" using slab_ok_not_NULL [OF ok] .
  { assume "cslab_alloc sz st = Some (a, st')"
    then show "slab_ok sz st' (if a = NULL then L else insert a L)" "a \<notin> L" using al by auto }
  { assume a: "a \<in> L"
    show "\<exists>s'. cslab_free sz st a = Some s'" using cslab_free_ok [OF ok a] by blast
    show "cslab_free sz st a = Some st' \<Longrightarrow> slab_ok sz st' (L - {a})" using cslab_free_ok [OF ok a] by auto }
qed

section \<open>Properties\<close>

text \<open>
  C32: allocation from a slab never fails an assertion. It returns \<^verbatim>\<open>NULL\<close> only when the page
  allocator is empty, and then the objects handed out stay the same; otherwise it returns an
  object that was not handed out and whose memory overlaps no other object handed out.
\<close>

theorem cslab_alloc_correct:
  assumes "slab_ok sz st L"
  shows "\<exists>a st'. cslab_alloc sz st = Some (a, st') \<and>
    (if a = NULL then slab_ok sz st' L \<and> owned (spool st) = {}
     else a \<notin> L \<and> slab_ok sz st' (insert a L) \<and> (\<forall>b \<in> L. a + sz \<le> b \<or> b + sz \<le> a))"
proof -
  from cslab_alloc_ok [OF assms] obtain a st' where al: "cslab_alloc sz st = Some (a, st')" "a \<notin> L"
    "slab_ok sz st' (if a = NULL then L else insert a L)" "a = NULL \<longrightarrow> owned (spool st) = {}" by blast
  have "a + sz \<le> b \<or> b + sz \<le> a" if "a \<noteq> NULL" "b \<in> L" for b
  proof -
    let ?o = "slab_obj_sz sz" and ?m = "slab_max_objs sz"
    have "slab_ok sz st' (insert a L)" using al(3) that(1) by simp
    then obtain S ps where inv: "slab_inv st' ?m S ps" and L: "insert a L = live st' ?o ?m S"
      and r: "0 < sz" "sz \<le> 4032" by (auto simp: slab_ok_def)
    note s = slab_sizes_of [OF r]
    have "a \<in> live st' ?o ?m S" "b \<in> live st' ?o ?m S" "a \<noteq> b" using L that al(2) by auto
    from live_disjoint [OF s(1) inv this] s(2) show ?thesis by auto
  qed
  then have "if a = NULL then slab_ok sz st' L \<and> owned (spool st) = {}
     else a \<notin> L \<and> slab_ok sz st' (insert a L) \<and> (\<forall>b \<in> L. a + sz \<le> b \<or> b + sz \<le> a)"
    using al by auto
  with al(1) show ?thesis by blast
qed

definition no_slabs :: slabs where
  "no_slabs = \<lparr>obj_sz_of = (\<lambda>_. 0), nfree_of = (\<lambda>_. 0), bitmap_of = (\<lambda>_. []),
     slinks = \<lparr>nxt = (\<lambda>_. 0), prv = (\<lambda>_. 0)\<rparr>, flist = NULL,
     spool = \<lparr>page_list = NULL, link = (\<lambda>_. NULL), mm_pages = [PAGE_SIZE, 2 * PAGE_SIZE]\<rparr>\<rparr>"

lemma no_slabs_ok: "0 < sz \<Longrightarrow> sz \<le> 4032 \<Longrightarrow> slab_ok sz no_slabs {}"
proof -
  assume r: "0 < sz" "sz \<le> 4032"
  have "pool_inv (spool no_slabs) []" by (simp add: pool_inv_def no_slabs_def)
  then have "slab_inv no_slabs (slab_max_objs sz) {} []"
    by (auto simp: slab_inv_def fl_ok_def no_slabs_def)
  moreover have "{} = live no_slabs (slab_obj_sz sz) (slab_max_objs sz) {}" by (simp add: live_def)
  ultimately show ?thesis using r unfolding slab_ok_def by blast
qed

theorem cslab_alloc_correct_witness:
  "\<exists>a st'. cslab_alloc 40 no_slabs = Some (a, st') \<and>
    (if a = NULL then slab_ok 40 st' {} \<and> owned (spool no_slabs) = {}
     else a \<notin> {} \<and> slab_ok 40 st' (insert a {}) \<and> (\<forall>b \<in> {}. a + 40 \<le> b \<or> b + 40 \<le> a))"
  by (rule cslab_alloc_correct) (simp add: no_slabs_ok)


text \<open>
  C33: an allocated object can be given back: freeing it succeeds and leaves exactly the objects
  that were handed out before the allocation.
\<close>

theorem cslab_alloc_free:
  assumes "slab_ok sz st L" "cslab_alloc sz st = Some (a, st')" "a \<noteq> NULL"
  shows "\<exists>st''. cslab_free sz st' a = Some st'' \<and> slab_ok sz st'' L"
  by (rule slab.alloc_then_free [OF assms])

theorem cslab_alloc_free_witness:
  "\<exists>a st' st''. cslab_alloc 40 no_slabs = Some (a, st') \<and> a \<noteq> NULL \<and>
     cslab_free 40 st' a = Some st'' \<and> slab_ok 40 st'' {}"
proof -
  have ok: "slab_ok 40 no_slabs {}" by (simp add: no_slabs_ok)
  have "pool_inv (spool no_slabs) []" by (simp add: pool_inv_def no_slabs_def)
  from owned_eq [OF this] have "owned (spool no_slabs) \<noteq> {}" by (simp add: no_slabs_def)
  with cslab_alloc_ok [OF ok] obtain a st' where "cslab_alloc 40 no_slabs = Some (a, st')" "a \<noteq> NULL" by auto
  with cslab_alloc_free [OF ok this] show ?thesis by blast
qed

text \<open>
  A double free of an object whose slab still has another object in use is caught: the
  assertion on the bitmap fails.
\<close>

theorem cslab_double_free_asserts:
  assumes "slab_ok sz st L" "a \<in> L" "b \<in> L" "a \<noteq> b" "cslab_lookup a = cslab_lookup b"
    and "cslab_free sz st a = Some st'"
  shows "cslab_free sz st' a = None"
proof -
  let ?o = "slab_obj_sz sz" and ?m = "slab_max_objs sz"
  from assms(1) obtain S ps where inv: "slab_inv st ?m S ps" and L: "L = live st ?o ?m S" and r: "0 < sz" "sz \<le> 4032"
    by (auto simp: slab_ok_def)
  note sz = slab_sizes_of(1) [OF r]
  from cslab_mem_free_ok [OF sz inv assms(2) [unfolded L]] assms(6)
  obtain S' ps' where inv': "slab_inv st' ?m S' ps'" and L': "live st' ?o ?m S' = L - {a}"
    by (metis L cslab_free_def option.inject)
  from assms(3,4) L' have b: "b \<in> live st' ?o ?m S'" and na: "a \<notin> live st' ?o ?m S'" by auto
  from b obtain t j where b': "b = cslab_mem_first t + j * ?o" "t \<in> S'" "0 \<le> j" "j < ?m" by (auto simp: live_def)
  from assms(2) L obtain s i where a': "a = cslab_mem_first s + i * ?o" "s \<in> S" "0 \<le> i" "i < ?m" by (auto simp: live_def)
  have "PAGE_SIZE dvd s" "PAGE_SIZE dvd t" using slab_inv_aligned [OF inv a'(2)] slab_inv_aligned [OF inv' b'(2)] by auto
  note la = obj_in_page [OF sz this(1) a'(3,4)] and lb = obj_in_page [OF sz this(2) b'(3,4)]
  have "s = t" using la(1) lb(1) assms(5) a'(1) b'(1) by simp
  then have "bit_at (bitmap_of st' s) (nat i)" using na a' b'(2) by (auto simp: live_def)
  then have set: "bitmap_check (bitmap_of st' s) (nat i) \<noteq> 0" by (simp add: bitmap_check_iff)
  show ?thesis
  proof (rule ccontr)
    assume "cslab_free sz st' a \<noteq> None"
    then obtain x where "cslab_mem_free st' a ?o ?m = Some x" by (auto simp: cslab_free_def)
    then show False using set la(1,2) by (simp add: cslab_mem_free_def Let_def a'(1))
  qed
qed

theorem cslab_double_free_asserts_witness:
  "\<exists>st2 st'. slab_ok 40 st2 {PAGE_SIZE + 64, PAGE_SIZE + 128} \<and>
     cslab_free 40 st2 (PAGE_SIZE + 64) = Some st' \<and> cslab_free 40 st' (PAGE_SIZE + 64) = None"
proof -
  let ?a = "PAGE_SIZE + 64" and ?b = "PAGE_SIZE + 128"
  have "map_option (\<lambda>(a, st). (a, map_option fst (cslab_alloc 40 st))) (cslab_alloc 40 no_slabs) = Some (?a, Some ?b)"
    by code_simp
  then obtain st1 st2 where a: "cslab_alloc 40 no_slabs = Some (?a, st1)" and b: "cslab_alloc 40 st1 = Some (?b, st2)"
    by auto
  have "slab_ok 40 no_slabs {}" by (simp add: no_slabs_ok)
  from slab.alloc_ok [OF this a] have "slab_ok 40 st1 {?a}" by simp
  from slab.alloc_ok [OF this b] have ok: "slab_ok 40 st2 {?a, ?b}" by (simp add: insert_commute)
  then obtain st' where f: "cslab_free 40 st2 ?a = Some st'" using slab.free_total [OF ok, of ?a] by auto
  have "cslab_lookup ?a = cslab_lookup ?b" by (simp add: cslab_lookup_def)
  from cslab_double_free_asserts [OF ok _ _ _ this f] ok f show ?thesis by auto
qed

end
