(* ===== verification/DescTable.thy ===== *)
theory DescTable
  imports CosMap Slab
begin

text \<open>
  The descriptor tables of the client stubs. Every stub under
  \<^verbatim>\<open>components/interface\<close> keeps, per interface, a slab of descriptors and an index from ids to
  descriptors: a \<^verbatim>\<open>cos_map\<close> where the stub chooses the ids (lock, ramfs), a \<^verbatim>\<open>cvect\<close>
  where the server does (evt, sched, periodic_wake, mem_mgr). The functions
  \<^verbatim>\<open>call_desc_lookup\<close>, \<^verbatim>\<open>call_desc_alloc\<close>, \<^verbatim>\<open>call_desc_dealloc\<close> and
  \<^verbatim>\<open>call_map_init\<close> of the generated stubs differ only in the descriptor type; this theory has
  them once for each kind of index, with the field updates as arguments, and proves the contract
  every stub uses. The slab and the index take their pages from the same \<^verbatim>\<open>alloc_page\<close>.
\<close>

section \<open>State\<close>

text \<open>
  The static variables of a stub. Descriptors are reached through their address; a descriptor that
  was not written yet holds whatever \<open>descs\<close> has there. \<open>world\<close> is everything outside the
  component: the server, the kernel, other components.
\<close>

record ('m, 'd, 'w) stub =
  descs :: "addr \<Rightarrow> 'd"
  maps :: 'm
  objs :: slabs
  global_fault_cnt :: u32
  first_map_init :: bool
  world :: 'w

definition put_desc :: "addr \<Rightarrow> ('d \<Rightarrow> 'd) \<Rightarrow> ('m, 'd, 'w) stub \<Rightarrow> ('m, 'd, 'w) stub" where
  "put_desc a f st = st\<lparr>descs := (descs st)(a := f (descs st a))\<rparr>"

text \<open>Reading through a pointer; \<^verbatim>\<open>NULL\<close> traps.\<close>

definition deref :: "addr \<Rightarrow> ('m, 'd, 'w) stub \<Rightarrow> 'd option" where
  "deref a st = (if a = NULL then None else Some (descs st a))"

lemma put_desc_simps [simp]:
  "maps (put_desc a f st) = maps st" "objs (put_desc a f st) = objs st"
  "global_fault_cnt (put_desc a f st) = global_fault_cnt st"
  "first_map_init (put_desc a f st) = first_map_init st" "world (put_desc a f st) = world st"
  "descs (put_desc a f st) = (descs st)(a := f (descs st a))"
  by (simp_all add: put_desc_def)

lemma put_desc_put [simp]: "put_desc a g (put_desc a f st) = put_desc a (\<lambda>d. g (f d)) st"
  by (simp add: put_desc_def)

lemma put_desc_same: "f (descs st a) = descs st a \<Longrightarrow> put_desc a f st = st"
  by (cases st) (simp add: put_desc_def)

lemma deref_Some [simp]: "deref a st = Some d \<longleftrightarrow> a \<noteq> NULL \<and> d = descs st a"
  by (auto simp: deref_def)

text \<open>The parts of a stub's state that a table operation leaves alone.\<close>

definition same_rest :: "('m, 'd, 'w) stub \<Rightarrow> ('m, 'd, 'w) stub \<Rightarrow> bool" where
  "same_rest st st' \<longleftrightarrow> global_fault_cnt st' = global_fault_cnt st \<and>
     first_map_init st' = first_map_init st \<and> world st' = world st"

lemma same_rest_refl [simp]: "same_rest st st"
  by (simp add: same_rest_def)

lemma same_rest_trans: "same_rest s t \<Longrightarrow> same_rest t u \<Longrightarrow> same_rest s u"
  by (simp add: same_rest_def)

text \<open>A \<^verbatim>\<open>long\<close> read as an \<^verbatim>\<open>unsigned long\<close>.\<close>

definition ul :: "int \<Rightarrow> int" where
  "ul x = (if x < 0 then x + 2 ^ 32 else x)"

section \<open>Descriptors indexed by a map\<close>

text \<open>
  \<^verbatim>\<open>call_desc_alloc\<close> where the map chooses the id: allocate a descriptor and an id until the id
  passes the test \<open>big\<close>, which is \<^verbatim>\<open>map_id >= 2\<close>; \<open>asg i\<close> are the assignments to the new
  descriptor. An id that is too small stays allocated, with its descriptor.
\<close>

definition map_desc_turn :: "int \<Rightarrow> (int \<Rightarrow> bool) \<Rightarrow> (int \<Rightarrow> 'd \<Rightarrow> 'd) \<Rightarrow>
    (cos_map, 'd, 'w) stub \<Rightarrow> (addr turn \<times> (cos_map, 'd, 'w) stub) option" where
  "map_desc_turn sz big asg st = do {
     (desc, sl) \<leftarrow> cslab_alloc sz (objs st);
     assert_that (desc \<noteq> NULL);
     (map_id, m, p) \<leftarrow> cos_map_add (maps st) desc (spool sl);
     let st = put_desc desc (asg map_id) (st\<lparr>maps := m, objs := sl\<lparr>spool := p\<rparr>\<rparr>) in
     Some (if big map_id then Return desc else Redo, st) }"

definition map_desc_alloc :: "nat \<Rightarrow> int \<Rightarrow> (int \<Rightarrow> bool) \<Rightarrow> (int \<Rightarrow> 'd \<Rightarrow> 'd) \<Rightarrow>
    (cos_map, 'd, 'w) stub \<Rightarrow> (addr \<times> (cos_map, 'd, 'w) stub) option" where
  "map_desc_alloc n sz big asg st = redo n (map_desc_turn sz big asg) st"

text \<open>\<^verbatim>\<open>call_desc_dealloc\<close>: the id is read before the descriptor is freed.\<close>

definition map_desc_dealloc :: "int \<Rightarrow> ('d \<Rightarrow> int) \<Rightarrow> ('d \<Rightarrow> 'd) \<Rightarrow> addr \<Rightarrow>
    (cos_map, 'd, 'w) stub \<Rightarrow> (cos_map, 'd, 'w) stub option" where
  "map_desc_dealloc sz key clear desc st = do {
     assert_that (desc \<noteq> NULL);
     let i = key (descs st desc); st = put_desc desc clear st in do {
     sl \<leftarrow> cslab_free sz (objs st) desc;
     (r, m) \<leftarrow> cos_map_del (maps st) i;
     Some (st\<lparr>objs := sl, maps := m\<rparr>) } }"

definition map_init_once :: "(cos_map, 'd, 'w) stub \<Rightarrow> (cos_map, 'd, 'w) stub option" where
  "map_init_once st =
     (if first_map_init st then Some st
      else do { m \<leftarrow> cos_map_init (maps st); Some (st\<lparr>first_map_init := True, maps := m\<rparr>) })"

section \<open>Descriptors indexed by a vector\<close>

text \<open>\<^verbatim>\<open>call_desc_alloc\<close> where the id is given: \<open>slot\<close> is the index the descriptor goes to.\<close>

definition vect_desc_alloc :: "int \<Rightarrow> ('d \<Rightarrow> 'd) \<Rightarrow> int \<Rightarrow>
    (ptree, 'd, 'w) stub \<Rightarrow> (addr \<times> (ptree, 'd, 'w) stub) option" where
  "vect_desc_alloc sz asg slot st = do {
     (desc, sl) \<leftarrow> cslab_alloc sz (objs st);
     assert_that (desc \<noteq> NULL);
     let st = put_desc desc asg (st\<lparr>objs := sl\<rparr>) in do {
     (r, v, p) \<leftarrow> cvect_add (maps st) desc slot (spool sl);
     assert_that (r = 0);
     Some (desc, st\<lparr>maps := v, objs := sl\<lparr>spool := p\<rparr>\<rparr>) } }"

definition vect_desc_dealloc :: "int \<Rightarrow> ('d \<Rightarrow> int) \<Rightarrow> addr \<Rightarrow>
    (ptree, 'd, 'w) stub \<Rightarrow> (ptree, 'd, 'w) stub option" where
  "vect_desc_dealloc sz slot desc st = do {
     assert_that (desc \<noteq> NULL);
     let (r, v) = cvect_del (maps st) (slot (descs st desc)) in do {
     assert_that (r = 0);
     sl \<leftarrow> cslab_free sz (objs st) desc;
     Some (st\<lparr>maps := v, objs := sl\<rparr>) } }"

definition vect_init_once :: "(ptree, 'd, 'w) stub \<Rightarrow> (ptree, 'd, 'w) stub" where
  "vect_init_once st =
     (if first_map_init st then st
      else st\<lparr>first_map_init := True, maps := cvect_init (page_addr (maps st))\<rparr>)"

section \<open>Sharing the page allocator\<close>

definition shrinks :: "pool \<Rightarrow> pool \<Rightarrow> bool" where
  "shrinks p p' \<longleftrightarrow> (pool_ok p \<longrightarrow> pool_ok p' \<and> owned p' \<subseteq> owned p)"

lemma shrinks_refl [simp]: "shrinks p p"
  by (simp add: shrinks_def)

lemma shrinks_trans [trans]: "shrinks p q \<Longrightarrow> shrinks q r \<Longrightarrow> shrinks p r"
  by (auto simp: shrinks_def)

lemma shrinks_alloc: "alloc_page p = (a, p') \<Longrightarrow> shrinks p p'"
  using ps.alloc_ok [of p a p'] ps.alloc_page_of [of p a p'] ps.alloc_none [of p p']
  by (cases "a = NULL") (auto simp: shrinks_def)

lemma cvect_expand_rec_shrinks: "cvect_expand_rec vi vid d p = (r, t, p') \<Longrightarrow> shrinks p p'"
proof (induction vi vid d p arbitrary: r t p' rule: cvect_expand_rec.induct)
  case (1 vi vid d p)
  show ?case
  proof (cases "child vi (page_index vid (Suc (Suc d)))")
    case None
    obtain a q where a: "alloc_page p = (a, q)" by (cases "alloc_page p")
    show ?thesis
    proof (cases "a = NULL")
      case True
      then show ?thesis using 1(3) None a shrinks_alloc [OF a] by simp
    next
      case False
      obtain r1 t1 q1 where e: "cvect_expand_rec (zero_page (Suc d) a) vid (Suc d) q = (r1, t1, q1)"
        by (cases "cvect_expand_rec (zero_page (Suc d) a) vid (Suc d) q")
      have "shrinks q q1" using 1(1) [OF refl None a [symmetric] refl False e] .
      then show ?thesis using 1(3) None a False e shrinks_alloc [OF a] shrinks_trans by auto
    qed
  next
    case (Some s)
    obtain r1 t1 q1 where e: "cvect_expand_rec s vid (Suc d) p = (r1, t1, q1)"
      by (cases "cvect_expand_rec s vid (Suc d) p")
    then show ?thesis using 1(3) Some 1(2) [OF refl Some e] by simp
  qed
qed simp_all

lemma cvect_add_shrinks: "cvect_add v x vid p = Some (r, v', p') \<Longrightarrow> shrinks p p'"
  by (auto simp: cvect_add_def u_cvect_expand_def Let_def bind_eq_Some_conv cvect_expand_rec_shrinks
      split: prod.splits if_splits)

lemma cos_vect_expand_page_shrinks: "u_cos_vect_expand_page v vid p = Some (r, v', p') \<Longrightarrow> shrinks p p'"
  by (auto simp: u_cos_vect_expand_page_def Let_def bind_eq_Some_conv shrinks_alloc split: prod.splits if_splits)

lemma cos_vect_expand_shrinks:
  assumes "u_cos_vect_expand v vid p = Some (r, v', p')"
  shows "shrinks p p'"
proof -
  obtain a q where a: "alloc_page p = (a, q)" by (cases "alloc_page p")
  from assms show ?thesis
    using shrinks_alloc [OF a] shrinks_trans
    by (auto simp: u_cos_vect_expand_def Let_def bind_eq_Some_conv a split: if_splits
        dest!: cos_vect_expand_page_shrinks)
qed

lemma cos_vect_add_id_shrinks: "cos_vect_add_id v x vid p = Some (r, v', p') \<Longrightarrow> shrinks p p'"
  by (auto simp: cos_vect_add_id_def bind_eq_Some_conv split: option.splits if_splits
      dest!: cos_vect_expand_shrinks)

lemma cos_map_add_shrinks: "cos_map_add m x p = Some (r, m', p') \<Longrightarrow> shrinks p p'"
  by (auto simp: cos_map_add_def cos_map_grow_def cos_map_take_def Let_def bind_eq_Some_conv
      split: option.splits if_splits dest!: cos_vect_add_id_shrinks)

text \<open>Taking pages away from the allocator leaves the slabs as they are.\<close>

lemma slab_ok_spool:
  assumes "slab_ok sz sl L" "shrinks (spool sl) p"
  shows "slab_ok sz (sl\<lparr>spool := p\<rparr>) L"
proof -
  let ?m = "slab_max_objs sz" and ?t = "sl\<lparr>spool := p\<rparr>"
  from assms(1) obtain S ps where inv: "slab_inv sl ?m S ps" and L: "L = live sl (slab_obj_sz sz) ?m S"
    and r: "0 < sz" "sz \<le> 4032" by (auto simp: slab_ok_def)
  have fl: "fl_ok ?t ps = fl_ok sl ps" by (rule fl_ok_cong) simp_all
  have "slab_inv ?t ?m S ps"
    using inv assms(2) unfolding slab_inv_def shrinks_def fl by (auto simp: slab_page_def)
  moreover have "live ?t (slab_obj_sz sz) ?m S = L" unfolding L by (rule live_cong) simp
  ultimately show ?thesis using r unfolding slab_ok_def by blast
qed


section \<open>The contract of a table\<close>

text \<open>
  What a stub relies on. \<open>look\<close> finds the descriptor of an id or \<^verbatim>\<open>NULL\<close>; \<open>key\<close> reads the
  id back from a descriptor, so two ids never share a descriptor. Deleting gives up exactly one id.
  \<open>view\<close> is the abstraction the stubs implement: a partial function from ids to descriptors.
\<close>

definition view :: "(int \<Rightarrow> ('m, 'd, 'w) stub \<Rightarrow> addr option) \<Rightarrow> ('m, 'd, 'w) stub \<Rightarrow> int \<Rightarrow> 'd option" where
  "view look st i = (case look i st of None \<Rightarrow> None | Some a \<Rightarrow> if a = NULL then None else Some (descs st a))"

text \<open>Every descriptor of one state is still there, at its address, in another.\<close>

definition keeps :: "(int \<Rightarrow> ('m, 'd, 'w) stub \<Rightarrow> addr option) \<Rightarrow> ('m, 'd, 'w) stub \<Rightarrow> ('m, 'd, 'w) stub \<Rightarrow> bool" where
  "keeps look st st' \<longleftrightarrow> (\<forall>j b. look j st = Some b \<longrightarrow> b \<noteq> NULL \<longrightarrow> look j st' = Some b \<and> descs st' b = descs st b)"

lemma keeps_refl [simp]: "keeps look st st"
  by (simp add: keeps_def)

lemma keeps_trans: "keeps look s t \<Longrightarrow> keeps look t u \<Longrightarrow> keeps look s u"
  unfolding keeps_def by metis

locale desc_table =
  fixes ok :: "('m, 'd, 'w) stub \<Rightarrow> bool"
    and valid :: "int \<Rightarrow> bool"
    and look :: "int \<Rightarrow> ('m, 'd, 'w) stub \<Rightarrow> addr option"
    and key :: "'d \<Rightarrow> int"
    and dealloc :: "addr \<Rightarrow> ('m, 'd, 'w) stub \<Rightarrow> ('m, 'd, 'w) stub option"
  assumes look_total: "ok st \<Longrightarrow> valid i \<Longrightarrow> \<exists>a. look i st = Some a"
    and look_key: "ok st \<Longrightarrow> valid i \<Longrightarrow> look i st = Some a \<Longrightarrow> a \<noteq> NULL \<Longrightarrow> key (descs st a) = i"
    and look_cong: "maps st' = maps st \<Longrightarrow> look i st' = look i st"
    and ok_cong: "ok st \<Longrightarrow> maps st' = maps st \<Longrightarrow> objs st' = objs st \<Longrightarrow>
        (\<And>a. key (descs st' a) = key (descs st a)) \<Longrightarrow> ok st'"
    and dealloc_total: "ok st \<Longrightarrow> valid i \<Longrightarrow> look i st = Some a \<Longrightarrow> a \<noteq> NULL \<Longrightarrow> \<exists>st'. dealloc a st = Some st'"
    and dealloc_ok: "ok st \<Longrightarrow> valid i \<Longrightarrow> look i st = Some a \<Longrightarrow> a \<noteq> NULL \<Longrightarrow> dealloc a st = Some st' \<Longrightarrow> ok st'"
    and dealloc_look: "ok st \<Longrightarrow> valid i \<Longrightarrow> look i st = Some a \<Longrightarrow> a \<noteq> NULL \<Longrightarrow> dealloc a st = Some st' \<Longrightarrow>
        valid j \<Longrightarrow> look j st' = (if j = i then Some NULL else look j st)"
    and dealloc_frame: "dealloc a st = Some st' \<Longrightarrow> same_rest st st' \<and> (\<forall>b. b \<noteq> a \<longrightarrow> descs st' b = descs st b)"
begin

lemma look_inj:
  "ok st \<Longrightarrow> valid i \<Longrightarrow> valid j \<Longrightarrow> look i st = Some a \<Longrightarrow> look j st = Some a \<Longrightarrow> a \<noteq> NULL \<Longrightarrow> i = j"
  using look_key by blast

lemma view_Some: "view look st i = Some d \<longleftrightarrow> (\<exists>a. look i st = Some a \<and> a \<noteq> NULL \<and> descs st a = d)"
  by (auto simp: view_def split: option.splits)

lemma view_None: "ok st \<Longrightarrow> valid i \<Longrightarrow> view look st i = None \<longleftrightarrow> look i st = Some NULL"
  using look_total [of st i] by (auto simp: view_def split: option.splits)

lemma view_cong: "maps st' = maps st \<Longrightarrow> descs st' = descs st \<Longrightarrow> view look st' = view look st"
  by (rule ext) (auto simp: view_def look_cong [of st' st] split: option.split)

lemma put_ok: "ok st \<Longrightarrow> (\<And>d. key (f d) = key d) \<Longrightarrow> ok (put_desc a f st)"
  by (rule ok_cong [of st]) simp_all

lemma put_look [simp]: "look i (put_desc a f st) = look i st"
  by (rule look_cong) simp

text \<open>Writing through the pointer of an id changes what that id stands for and nothing else.\<close>

lemma view_put:
  assumes "ok st" "valid i" "look i st = Some a" "a \<noteq> NULL" "valid j"
  shows "view look (put_desc a f st) j = (if j = i then Some (f (descs st a)) else view look st j)"
proof (cases "j = i")
  case True
  then show ?thesis using assms(3,4) by (simp add: view_def)
next
  case False
  obtain b where b: "look j st = Some b" using look_total [OF assms(1,5)] by blast
  then have "b \<noteq> a" using look_inj [OF assms(1,2,5,3) _ assms(4)] False by blast
  then show ?thesis using False b by (simp add: view_def)
qed

lemma view_dealloc:
  assumes "ok st" "valid i" "look i st = Some a" "a \<noteq> NULL" "dealloc a st = Some st'" "valid j"
  shows "view look st' j = (if j = i then None else view look st j)"
proof (cases "j = i")
  case True
  then show ?thesis using dealloc_look [OF assms(1-5,6)] by (simp add: view_def)
next
  case False
  then have "look j st' = look j st" using dealloc_look [OF assms(1-5,6)] by simp
  moreover have "look j st = Some b \<Longrightarrow> b \<noteq> NULL \<Longrightarrow> descs st' b = descs st b" for b
    using look_inj [OF assms(1,2,6,3)] False dealloc_frame [OF assms(5)] by (cases "b = a") auto
  ultimately show ?thesis using False by (auto simp: view_def split: option.splits)
qed

end

text \<open>
  Tables that choose the id. \<open>room\<close> says that the next allocation needs no further turn and
  finds a descriptor and an id; giving a descriptor back makes room again.
\<close>

locale desc_map = desc_table +
  fixes alloc :: "nat \<Rightarrow> ('a, 'b, 'c) stub \<Rightarrow> (addr \<times> ('a, 'b, 'c) stub) option"
    and primed :: "('a, 'b, 'c) stub \<Rightarrow> bool"
    and room :: "('a, 'b, 'c) stub \<Rightarrow> bool"
  assumes alloc_ok: "ok st \<Longrightarrow> alloc n st = Some (a, st') \<Longrightarrow> ok st' \<and> a \<noteq> NULL"
    and alloc_look: "ok st \<Longrightarrow> alloc n st = Some (a, st') \<Longrightarrow>
        2 \<le> j \<Longrightarrow> look j st' = (if j = key (descs st' a) then Some a else look j st)"
    and alloc_fresh: "ok st \<Longrightarrow> alloc n st = Some (a, st') \<Longrightarrow>
        key (descs st' a) = -1 \<or> 2 \<le> key (descs st' a) \<and> look (key (descs st' a)) st = Some NULL"
    and alloc_frame: "ok st \<Longrightarrow> alloc n st = Some (a, st') \<Longrightarrow> same_rest st st'"
    and alloc_descs: "ok st \<Longrightarrow> alloc n st = Some (a, st') \<Longrightarrow> valid i \<Longrightarrow> look i st = Some b \<Longrightarrow> b \<noteq> NULL \<Longrightarrow>
        b \<noteq> a \<and> look i st' = Some b \<and> descs st' b = descs st b"
    and alloc_primed: "ok st \<Longrightarrow> alloc n st = Some (a, st') \<Longrightarrow> primed st \<Longrightarrow> primed st'"
    and alloc_total: "ok st \<Longrightarrow> primed st \<Longrightarrow> room st \<Longrightarrow> 0 < n \<Longrightarrow>
        \<exists>a st'. alloc n st = Some (a, st') \<and> 2 \<le> key (descs st' a)"
    and dealloc_room: "ok st \<Longrightarrow> 2 \<le> i \<Longrightarrow> look i st = Some a \<Longrightarrow> a \<noteq> NULL \<Longrightarrow> primed st \<Longrightarrow>
        dealloc a st = Some st' \<Longrightarrow> primed st' \<and> room st'"
    and room_cong: "maps st' = maps st \<Longrightarrow> objs st' = objs st \<Longrightarrow> primed st' = primed st \<and> room st' = room st"
    and all_valid: "valid i"
begin

lemma view_alloc:
  assumes "ok st" "alloc n st = Some (a, st')" "2 \<le> j"
  shows "view look st' j = (if j = key (descs st' a) then Some (descs st' a) else view look st j)"
proof (cases "look j st")
  case None
  then show ?thesis using look_total [OF assms(1) all_valid, of j] by simp
next
  case (Some b)
  have "b \<noteq> NULL \<Longrightarrow> descs st' b = descs st b" using alloc_descs [OF assms(1,2) all_valid Some] by simp
  then show ?thesis
    using alloc_look [OF assms(1,2,3)] alloc_ok [OF assms(1,2)] Some
    by (simp add: view_def)
qed

text \<open>The same after assignments to the new descriptor.\<close>

lemma view_alloc_put:
  assumes "ok st" "alloc n st = Some (a, st')" "2 \<le> j" "\<And>d. key (f d) = key d"
  shows "view look (put_desc a f st') j = (if j = key (descs st' a) then Some (f (descs st' a)) else view look st j)"
proof -
  obtain b where b: "look j st = Some b" using look_total [OF assms(1) all_valid, of j] by blast
  have "b \<noteq> NULL \<Longrightarrow> b \<noteq> a \<and> descs st' b = descs st b" using alloc_descs [OF assms(1,2) all_valid b] by simp
  then show ?thesis
    using alloc_look [OF assms(1,2,3)] alloc_ok [OF assms(1,2)] b by (auto simp: view_def)
qed

end

text \<open>Tables where the server chooses the id.\<close>

definition can_track :: "(int \<Rightarrow> ('m, 'd, 'w) stub \<Rightarrow> addr option) \<Rightarrow>
    (int \<Rightarrow> ('m, 'd, 'w) stub \<Rightarrow> (addr \<times> ('m, 'd, 'w) stub) option) \<Rightarrow> int \<Rightarrow> ('m, 'd, 'w) stub \<Rightarrow> bool" where
  "can_track look alloc i st \<longleftrightarrow> view look st i \<noteq> None \<or> alloc i st \<noteq> None"

definition ensure :: "(int \<Rightarrow> ('m, 'd, 'w) stub \<Rightarrow> addr option) \<Rightarrow>
    (int \<Rightarrow> ('m, 'd, 'w) stub \<Rightarrow> (addr \<times> ('m, 'd, 'w) stub) option) \<Rightarrow>
    (addr \<Rightarrow> ('m, 'd, 'w) stub \<Rightarrow> ('m, 'd, 'w) stub option) \<Rightarrow> int \<Rightarrow> ('m, 'd, 'w) stub \<Rightarrow>
    (addr \<times> ('m, 'd, 'w) stub) option" where
  "ensure look alloc fin i st = do {
     a \<leftarrow> look i st;
     if a = NULL then do { (a, st) \<leftarrow> alloc i st; st \<leftarrow> fin a st; Some (a, st) } else Some (a, st) }"

locale desc_vect = desc_table +
  fixes alloc :: "int \<Rightarrow> ('a, 'b, 'c) stub \<Rightarrow> (addr \<times> ('a, 'b, 'c) stub) option"
  assumes alloc_free: "ok st \<Longrightarrow> alloc i st = Some (a, st') \<Longrightarrow> valid i \<and> look i st = Some NULL"
    and alloc_ok: "ok st \<Longrightarrow> alloc i st = Some (a, st') \<Longrightarrow> ok st' \<and> a \<noteq> NULL"
    and alloc_look: "ok st \<Longrightarrow> alloc i st = Some (a, st') \<Longrightarrow> valid j \<Longrightarrow> look j st' = (if j = i then Some a else look j st)"
    and alloc_frame: "ok st \<Longrightarrow> alloc i st = Some (a, st') \<Longrightarrow> same_rest st st'"
    and alloc_descs: "ok st \<Longrightarrow> alloc i st = Some (a, st') \<Longrightarrow> valid j \<Longrightarrow> look j st = Some b \<Longrightarrow> b \<noteq> NULL \<Longrightarrow>
        b \<noteq> a \<and> descs st' b = descs st b"
begin

lemma view_alloc:
  assumes "ok st" "alloc i st = Some (a, st')" "valid j"
  shows "view look st' j = (if j = i then Some (descs st' a) else view look st j)"
proof (cases "look j st")
  case None
  then show ?thesis using look_total [OF assms(1,3)] by simp
next
  case (Some b)
  have "b \<noteq> NULL \<Longrightarrow> descs st' b = descs st b" using alloc_descs [OF assms Some] by simp
  then show ?thesis using alloc_look [OF assms] alloc_ok [OF assms(1,2)] Some by (simp add: view_def)
qed

lemma view_alloc_put:
  assumes "ok st" "alloc i st = Some (a, st')" "valid j"
  shows "view look (put_desc a f st') j = (if j = i then Some (f (descs st' a)) else view look st j)"
proof -
  obtain b where b: "look j st = Some b" using look_total [OF assms(1,3)] by blast
  have "b \<noteq> NULL \<Longrightarrow> b \<noteq> a \<and> descs st' b = descs st b" using alloc_descs [OF assms b] by simp
  then show ?thesis using alloc_look [OF assms] alloc_ok [OF assms(1,2)] b by (auto simp: view_def)
qed

text \<open>An id that has a descriptor cannot be given another one: \<^verbatim>\<open>cvect_add\<close> asserts.\<close>

lemma alloc_twice: "ok st \<Longrightarrow> look i st = Some a \<Longrightarrow> a \<noteq> NULL \<Longrightarrow> alloc i st = None"
  using alloc_free [of st i] by (cases "alloc i st") auto

text \<open>A descriptor is looked up, and made if there is none: no other id is affected.\<close>

lemma ensure_ok:
  assumes ok: "ok st" "valid i" and can: "can_track look alloc i st" and key: "\<And>s d. key (g s d) = key d"
    and fin: "\<And>a s. a \<noteq> NULL \<Longrightarrow> key (descs s a) = i \<Longrightarrow> fin a s = Some (put_desc a (g s) s)"
  shows "\<exists>a s. ensure look alloc fin i st = Some (a, s) \<and> ok s \<and> look i s = Some a \<and> a \<noteq> NULL \<and> same_rest st s \<and>
    (\<forall>j. valid j \<longrightarrow> j \<noteq> i \<longrightarrow> view look s j = view look st j)"
proof -
  obtain a where a: "look i st = Some a" using look_total [OF ok] by blast
  show ?thesis
  proof (cases "a = NULL")
    case False
    then show ?thesis using a ok(1) by (simp add: ensure_def)
  next
    case True
    then have "view look st i = None" using a by (simp add: view_def)
    then obtain b s where al: "alloc i st = Some (b, s)" using can by (auto simp: can_track_def)
    have b: "ok s" "b \<noteq> NULL" using alloc_ok [OF ok(1) al] by auto
    have "ok (put_desc b (g s) s)" using put_ok [OF b(1) key] .
    moreover have "look i (put_desc b (g s) s) = Some b" using alloc_look [OF ok(1) al ok(2)] by simp
    moreover have "same_rest st (put_desc b (g s) s)" using alloc_frame [OF ok(1) al] by (simp add: same_rest_def)
    moreover have "view look (put_desc b (g s) s) j = view look st j" if "valid j" "j \<noteq> i" for j
      using view_alloc_put [OF ok(1) al that(1), of "g s"] that(2) by simp
    moreover have "key (descs s b) = i" using look_key [OF b(1) ok(2) _ b(2)] alloc_look [OF ok(1) al ok(2)] by simp
    then have "ensure look alloc fin i st = Some (b, put_desc b (g s) s)"
      using True a al fin [OF b(2)] by (simp add: ensure_def)
    ultimately show ?thesis using b(2) by blast
  qed
qed

lemma ensure_put_ok:
  assumes ok: "ok st" "valid i" and can: "can_track look alloc i st" and key: "\<And>s d. key (g s d) = key d" "\<And>s d. key (h s d) = key d"
    and fin: "\<And>a s. a \<noteq> NULL \<Longrightarrow> key (descs s a) = i \<Longrightarrow> fin a s = Some (put_desc a (g s) s)"
    and upd: "\<And>a s. ensure look alloc fin i st = Some (a, s) \<Longrightarrow> upd st = Some (a, put_desc a (h s) s)"
  shows "\<exists>a s. upd st = Some (a, s) \<and> ok s \<and> look i s = Some a \<and> a \<noteq> NULL \<and> same_rest st s \<and>
    (\<forall>j. valid j \<longrightarrow> j \<noteq> i \<longrightarrow> view look s j = view look st j)"
proof -
  obtain a s where e: "ensure look alloc fin i st = Some (a, s)" "ok s" "look i s = Some a" "a \<noteq> NULL" "same_rest st s"
    "\<forall>j. valid j \<longrightarrow> j \<noteq> i \<longrightarrow> view look s j = view look st j"
    using ensure_ok [OF ok can key(1) fin] by blast
  have "ok (put_desc a (h s) s)" using put_ok [OF e(2) key(2)] .
  moreover have "same_rest st (put_desc a (h s) s)" using e(5) by (simp add: same_rest_def)
  moreover have "view look (put_desc a (h s) s) j = view look st j" if "valid j" "j \<noteq> i" for j
    using view_put [OF e(2) ok(2) e(3,4) that(1), of "h s"] that e(6) by simp
  ultimately show ?thesis using upd [OF e(1)] e(3,4) by (intro exI [of _ a] exI [of _ "put_desc a (h s) s"]) simp
qed

end

section \<open>Map tables meet the contract\<close>

definition map_table :: "int \<Rightarrow> ('d \<Rightarrow> int) \<Rightarrow> (cos_map, 'd, 'w) stub \<Rightarrow> bool" where
  "map_table sz key st \<longleftrightarrow> map_ok (maps st) \<and> (\<exists>L. slab_ok sz (objs st) L \<and>
     (\<forall>i \<in> used (maps st). \<exists>a \<in> L. cos_map_lookup (maps st) i = Some a \<and> key (descs st a) = i))"

definition map_lookup :: "int \<Rightarrow> (cos_map, 'd, 'w) stub \<Rightarrow> addr option" where
  "map_lookup i st = cos_map_lookup (maps st) i"

definition map_primed :: "(cos_map, 'd, 'w) stub \<Rightarrow> bool" where
  "map_primed st \<longleftrightarrow> {0, 1} \<subseteq> used (maps st)"

definition mem_room :: "slabs \<Rightarrow> bool" where
  "mem_room sl \<longleftrightarrow> flist sl \<noteq> NULL \<or> fst (alloc_page (spool sl)) \<noteq> NULL"

definition map_room :: "(cos_map, 'd, 'w) stub \<Rightarrow> bool" where
  "map_room st \<longleftrightarrow> mem_room (objs st) \<and> free_list (maps st) \<noteq> -1"

lemma cslab_alloc_room:
  assumes ok: "slab_ok sz sl L" and room: "mem_room sl" and al: "cslab_alloc sz sl = Some (a, sl')"
  shows "a \<noteq> NULL"
proof
  assume "a = NULL"
  let ?o = "slab_obj_sz sz" and ?m = "slab_max_objs sz"
  from ok obtain S ps where inv: "slab_inv sl ?m S ps" and r: "0 < sz" "sz \<le> 4032"
    by (auto simp: slab_ok_def)
  note sz = slab_sizes_of(1) [OF r]
  have pool: "pool_ok (spool sl)" using inv by (simp add: slab_inv_def)
  show False
  proof (rule cslab_mem_alloc_ok [OF sz inv])
    assume "owned (spool sl) = {}" "ps = []"
    then show False
      using room slab_inv_flist(1) [OF inv] ps.alloc_NULL [OF pool] by (simp add: mem_room_def)
  next
    fix s idx st' ps'
    let ?a = "cslab_mem_first s + idx * ?o"
    assume e: "cslab_mem_alloc sl ?o ?m = Some (?a, st')" and i: "slab_inv st' ?m (insert s S) ps'"
      and l: "live st' ?o ?m (insert s S) = insert ?a (live sl ?o ?m S)"
    have "?a \<noteq> NULL" using live_ne_NULL [OF sz i, of ?a] l by simp
    then show False using e al \<open>a = NULL\<close> by (simp add: cslab_alloc_def)
  qed
qed

lemma cslab_free_room:
  assumes ok: "slab_ok sz sl L" and a: "a \<in> L" and fr: "cslab_free sz sl a = Some sl'"
  shows "mem_room sl'"
proof -
  let ?o = "slab_obj_sz sz" and ?m = "slab_max_objs sz"
  from ok obtain S ps where inv: "slab_inv sl ?m S ps" and L: "L = live sl ?o ?m S" and r: "0 < sz" "sz \<le> 4032"
    by (auto simp: slab_ok_def)
  note sz = slab_sizes_of(1) [OF r]
  from cslab_mem_free_ok [OF sz inv a [unfolded L]] fr [unfolded cslab_free_def]
  obtain S' ps' where inv': "slab_inv sl' ?m S' ps'" and l: "live sl' ?o ?m S' = live sl ?o ?m S - {a}"
    and own: "S' \<union> owned (spool sl') = S \<union> owned (spool sl)"
    by (metis option.inject)
  from a obtain s idx where bf: "a = cslab_mem_first s + idx * ?o" "s \<in> S" and i: "0 \<le> idx" "idx < ?m"
    unfolding L live_def by blast
  have pool: "pool_ok (spool sl')" using inv' by (simp add: slab_inv_def)
  show ?thesis
  proof (cases "s \<in> S'")
    case True
    have "a \<notin> live sl' ?o ?m S'" using l by simp
    then have bit: "bit_at (bitmap_of sl' s) (nat idx)" using bf(1) True i unfolding live_def by blast
    have "nfree_of sl' s \<noteq> 0"
      using slab_invD(5) [OF inv' True] bit i nset_pos [of "nat idx" "nat ?m" "bit_at (bitmap_of sl' s)"]
      by (simp add: slab_page_def)
    then have "s \<in> set ps'" using True inv' by (simp add: slab_inv_def)
    then show ?thesis using slab_inv_flist(1) [OF inv'] by (auto simp: mem_room_def)
  next
    case False
    then have "owned (spool sl') \<noteq> {}" using own bf(2) by blast
    then show ?thesis using ps.alloc_NULL [OF pool] by (simp add: mem_room_def)
  qed
qed

text \<open>One turn of the allocation loop.\<close>

lemma map_desc_turn_ok:
  fixes st :: "(cos_map, 'd, 'w) stub"
  assumes t: "map_table sz key st" and asg: "\<And>i d. key (asg i d) = i"
    and turn: "map_desc_turn sz big asg st = Some (r, st')"
  obtains a where "map_table sz key st'" "a \<noteq> NULL" "\<forall>i. map_lookup i st \<noteq> Some a"
    "r = (if big (key (descs st' a)) then Return a else Redo)" "same_rest st st'"
    "\<forall>b. b \<noteq> a \<longrightarrow> descs st' b = descs st b"
    "key (descs st' a) = -1 \<or> 0 \<le> key (descs st' a) \<and> key (descs st' a) \<notin> used (maps st)"
    "used (maps st') = (if key (descs st' a) = -1 then used (maps st) else insert (key (descs st' a)) (used (maps st)))"
    "\<forall>i. map_lookup i st' = (if key (descs st' a) \<noteq> -1 \<and> i = key (descs st' a) then Some a else map_lookup i st)"
proof -
  from t obtain L where m: "map_ok (maps st)" and sl: "slab_ok sz (objs st) L"
    and tr: "\<And>i. i \<in> used (maps st) \<Longrightarrow> \<exists>a \<in> L. cos_map_lookup (maps st) i = Some a \<and> key (descs st a) = i"
    unfolding map_table_def by blast
  from turn obtain a sl1 i m' p where al: "cslab_alloc sz (objs st) = Some (a, sl1)" and a: "a \<noteq> NULL"
    and ad: "cos_map_add (maps st) a (spool sl1) = Some (i, m', p)"
    and r: "r = (if big i then Return a else Redo)"
    and st': "st' = put_desc a (asg i) (st\<lparr>maps := m', objs := sl1\<lparr>spool := p\<rparr>\<rparr>)"
    by (auto simp: map_desc_turn_def bind_eq_Some_conv Let_def)
  have k: "key (descs st' a) = i" by (simp add: st' asg)
  have aL: "a \<notin> L" and sl1: "slab_ok sz sl1 (insert a L)"
    using slab.alloc_fresh [OF sl al] slab.alloc_ok [OF sl al] a by auto
  have sl': "slab_ok sz (objs st') (insert a L)"
    using slab_ok_spool [OF sl1 cos_map_add_shrinks [OF ad]] by (simp add: st')
  note m' = cm.add_ok [OF m a ad] and res = cm.add_res [OF m a ad] and us = cm.add_uses [OF m a ad]
    and fd = cm.add_find [OF m a ad]
  have ne: "cos_map_lookup (maps st) j \<noteq> Some a" for j
    using cm.find_unused [OF m, of j] tr [of j] aL a by (cases "j \<in> used (maps st)") auto
  have "map_table sz key st'"
    unfolding map_table_def
  proof (intro conjI exI ballI)
    show "map_ok (maps st')" using m' by (simp add: st')
    show "slab_ok sz (objs st') (insert a L)" by (rule sl')
    fix j assume j: "j \<in> used (maps st')"
    show "\<exists>b \<in> insert a L. cos_map_lookup (maps st') j = Some b \<and> key (descs st' b) = j"
    proof (cases "i \<noteq> -1 \<and> j = i")
      case True
      then show ?thesis using fd [of j] k by (simp add: st')
    next
      case False
      then have "j \<in> used (maps st)" using j us by (auto simp: st' split: if_splits)
      from tr [OF this] obtain b where b: "b \<in> L" "cos_map_lookup (maps st) j = Some b" "key (descs st b) = j" by blast
      then show ?thesis using False fd [of j] aL by (intro bexI [of _ b]) (auto simp: st')
    qed
  qed
  then show thesis
    using that [of a] a ne r res us fd k by (simp add: st' same_rest_def map_lookup_def)
qed

text \<open>The whole loop. An id below 2 that is passed over stays in the map; no other id changes.\<close>

definition passed_over :: "('d \<Rightarrow> int) \<Rightarrow> (cos_map, 'd, 'w) stub \<Rightarrow> (cos_map, 'd, 'w) stub \<Rightarrow> int \<Rightarrow> addr \<Rightarrow> bool" where
  "passed_over key st st' i a \<longleftrightarrow> same_rest st st' \<and> used (maps st) \<subseteq> used (maps st') \<and>
     (\<forall>j b. map_lookup j st = Some b \<longrightarrow> b \<noteq> NULL \<longrightarrow> b \<noteq> a \<and> map_lookup j st' = Some b \<and> descs st' b = descs st b) \<and>
     (\<forall>j. 2 \<le> j \<longrightarrow> map_lookup j st' = (if j = i then Some a else map_lookup j st))"

lemma map_desc_alloc_ok:
  fixes st :: "(cos_map, 'd, 'w) stub"
  assumes t: "map_table sz key st" and asg: "\<And>i d. key (asg i d) = i" and big: "\<And>i. 2 \<le> i \<Longrightarrow> big i"
    and small: "\<And>i. big i \<Longrightarrow> i < 2 \<Longrightarrow> i < 0"
    and al: "map_desc_alloc n sz big asg st = Some (a, st')"
  shows "map_table sz key st' \<and> a \<noteq> NULL \<and> passed_over key st st' (key (descs st' a)) a \<and>
    (key (descs st' a) = -1 \<or> 2 \<le> key (descs st' a) \<and> map_lookup (key (descs st' a)) st = Some NULL)"
proof -
  let ?I = "\<lambda>s. map_table sz key s \<and> passed_over key st s (-1) NULL"
  have step: "map_table sz key s' \<and> (\<exists>b. b \<noteq> NULL \<and> passed_over key st s' (key (descs s' b)) b \<and>
      (key (descs s' b) = -1 \<or> 0 \<le> key (descs s' b) \<and> key (descs s' b) \<notin> used (maps s)) \<and>
      r = (if big (key (descs s' b)) then Return b else Redo))"
    if I: "?I s" and turn: "map_desc_turn sz big asg s = Some (r, s')" for s r s'
  proof (rule map_desc_turn_ok [OF conjunct1 [OF I] asg turn])
    fix b
    assume b: "map_table sz key s'" "b \<noteq> NULL" "\<forall>i. map_lookup i s \<noteq> Some b"
      "r = (if big (key (descs s' b)) then Return b else Redo)" "same_rest s s'"
      "\<forall>c. c \<noteq> b \<longrightarrow> descs s' c = descs s c"
      "key (descs s' b) = -1 \<or> 0 \<le> key (descs s' b) \<and> key (descs s' b) \<notin> used (maps s)"
      "used (maps s') = (if key (descs s' b) = -1 then used (maps s) else insert (key (descs s' b)) (used (maps s)))"
      "\<forall>i. map_lookup i s' = (if key (descs s' b) \<noteq> -1 \<and> i = key (descs s' b) then Some b else map_lookup i s)"
    have m: "map_ok (maps s)" using I by (simp add: map_table_def)
    have nu: "map_lookup (key (descs s' b)) s = Some NULL" if "key (descs s' b) \<noteq> -1"
      using b(7) that cm.find_unused [OF m] by (auto simp: map_lookup_def)
    have "c \<noteq> b \<and> map_lookup j s' = Some c \<and> descs s' c = descs st c"
      if "map_lookup j st = Some c" "c \<noteq> NULL" for j c
    proof -
      have c: "map_lookup j s = Some c" "descs s c = descs st c" using I that by (auto simp: passed_over_def)
      then have cb: "c \<noteq> b" using b(3) by blast
      have "\<not> (key (descs s' b) \<noteq> -1 \<and> j = key (descs s' b))" using nu c(1) that(2) by auto
      then have "map_lookup j s' = Some c" using c(1) b(9) by (simp del: not_None_eq) (metis)
      then show ?thesis using cb c(2) b(6) by simp
    qed
    moreover have "used (maps st) \<subseteq> used (maps s')" using I b(8) by (auto simp: passed_over_def)
    moreover have "map_lookup j s' = (if j = key (descs s' b) then Some b else map_lookup j st)" if "2 \<le> j" for j
    proof -
      have "map_lookup j s = map_lookup j st" using I that by (auto simp: passed_over_def)
      then show ?thesis using b(9) that by simp
    qed
    moreover have "same_rest st s'" using I b(5) same_rest_trans unfolding passed_over_def by blast
    ultimately have "passed_over key st s' (key (descs s' b)) b" unfolding passed_over_def by blast
    then show ?thesis using b(1,2,4,7) by blast
  qed
  show ?thesis
  proof (rule redo_partial [of n "map_desc_turn sz big asg" st a st' ?I])
    show "redo n (map_desc_turn sz big asg) st = Some (a, st')" using al by (simp add: map_desc_alloc_def)
    show "?I st" using t by (auto simp: passed_over_def)
  next
    fix s s' assume I: "?I s" and turn: "map_desc_turn sz big asg s = Some (Redo, s')"
    from step [OF I turn] obtain b where b: "map_table sz key s'" "passed_over key st s' (key (descs s' b)) b"
      "\<not> big (key (descs s' b))" by (auto split: if_splits)
    have "key (descs s' b) < 2" using b(3) big [of "key (descs s' b)"] by linarith
    then show "?I s'" using b(1,2) unfolding passed_over_def by auto
  next
    fix s r s' assume I: "?I s" and turn: "map_desc_turn sz big asg s = Some (Return r, s')"
    from step [OF I turn] have b: "map_table sz key s'" "r \<noteq> NULL" "passed_over key st s' (key (descs s' r)) r"
      "big (key (descs s' r))" "key (descs s' r) = -1 \<or> 0 \<le> key (descs s' r) \<and> key (descs s' r) \<notin> used (maps s)" by (auto split: if_splits)
    have m: "map_ok (maps s)" using I by (simp add: map_table_def)
    have "2 \<le> key (descs s' r) \<and> map_lookup (key (descs s' r)) st = Some NULL" if ne: "key (descs s' r) \<noteq> -1"
    proof -
      have 2: "2 \<le> key (descs s' r)" using small [OF b(4)] ne b(5) by linarith
      have "map_lookup (key (descs s' r)) s = Some NULL" using b(5) ne cm.find_unused [OF m] by (simp add: map_lookup_def)
      then show ?thesis using 2 I by (auto simp: passed_over_def)
    qed
    then show "map_table sz key s' \<and> r \<noteq> NULL \<and> passed_over key st s' (key (descs s' r)) r \<and>
      (key (descs s' r) = -1 \<or> 2 \<le> key (descs s' r) \<and> map_lookup (key (descs s' r)) st = Some NULL)"
      using b(1,2,3) by blast
  qed
qed

lemma map_desc_dealloc_ok:
  fixes st :: "(cos_map, 'd, 'w) stub"
  assumes t: "map_table sz key st" and clear: "\<And>d. key (clear d) = key d"
    and lk: "map_lookup i st = Some a" and a: "a \<noteq> NULL"
  obtains st' where "map_desc_dealloc sz key clear a st = Some st'" "map_table sz key st'"
    "\<forall>j. map_lookup j st' = (if j = i then Some NULL else map_lookup j st)"
    "used (maps st') = used (maps st) - {i}" "map_room st'"
proof -
  from t obtain L where m: "map_ok (maps st)" and sl: "slab_ok sz (objs st) L"
    and tr: "\<And>i. i \<in> used (maps st) \<Longrightarrow> \<exists>a \<in> L. cos_map_lookup (maps st) i = Some a \<and> key (descs st a) = i"
    unfolding map_table_def by blast
  have i: "i \<in> used (maps st)" using cm.found_used [OF m] lk a by (simp add: map_lookup_def)
  from tr [OF i] have aL: "a \<in> L" and k: "key (descs st a) = i" using lk by (auto simp: map_lookup_def)
  obtain sl' where fr: "cslab_free sz (objs st) a = Some sl'" using slab.free_total [OF sl aL] by blast
  obtain m' where dl: "cos_map_del (maps st) i = Some (0, m')" using cm.del_total [OF m i] by blast
  note m' = cm.del_ok [OF m i dl] cm.del_uses [OF m i dl] cm.del_find [OF m i dl]
  define st' where "st' = (put_desc a clear st)\<lparr>objs := sl', maps := m'\<rparr>"
  have d: "map_desc_dealloc sz key clear a st = Some st'"
    using a k fr dl by (simp add: map_desc_dealloc_def st'_def)
  have kk: "key (descs st' b) = key (descs st b)" for b by (simp add: st'_def clear)
  have "map_table sz key st'"
    unfolding map_table_def
  proof (intro conjI exI ballI)
    show "map_ok (maps st')" using m' by (simp add: st'_def)
    show "slab_ok sz (objs st') (L - {a})" using slab.free_gives [OF sl aL fr] by (simp add: st'_def)
    fix j assume "j \<in> used (maps st')"
    then have j: "j \<in> used (maps st)" "j \<noteq> i" using m'(2) by (auto simp: st'_def)
    from tr [OF j(1)] obtain b where b: "b \<in> L" "cos_map_lookup (maps st) j = Some b" "key (descs st b) = j" by blast
    then have "b \<noteq> a" using k j(2) by auto
    then show "\<exists>b \<in> L - {a}. cos_map_lookup (maps st') j = Some b \<and> key (descs st' b) = j"
      using b j(2) m'(3) [of j] kk [of b] by (intro bexI [of _ b]) (auto simp: st'_def)
  qed
  moreover have "free_list m' \<noteq> -1"
    using dl cm.uses_ge [OF i]
    by (auto simp: cos_map_del_def bind_eq_Some_conv Let_def split: option.splits)
  then have "map_room st'" using cslab_free_room [OF sl aL fr] by (simp add: map_room_def st'_def)
  ultimately show thesis using that [OF d] m' by (simp add: map_lookup_def st'_def)
qed

lemma map_desc_dealloc_frame:
  "map_desc_dealloc sz key clear a st = Some st' \<Longrightarrow> same_rest st st' \<and> (\<forall>b. b \<noteq> a \<longrightarrow> descs st' b = descs st b)"
  by (auto simp: map_desc_dealloc_def bind_eq_Some_conv Let_def same_rest_def)

text \<open>With a free id, a free object, and the ids 0 and 1 gone, one turn is enough.\<close>

lemma map_desc_alloc_room:
  fixes st :: "(cos_map, 'd, 'w) stub"
  assumes t: "map_table sz key st" and asg: "\<And>i d. key (asg i d) = i" and big: "\<And>i. 2 \<le> i \<Longrightarrow> big i"
    and p: "map_primed st" and room: "map_room st" and n: "0 < n"
  shows "\<exists>a st'. map_desc_alloc n sz big asg st = Some (a, st') \<and> 2 \<le> key (descs st' a)"
proof -
  from t obtain L where m: "map_ok (maps st)" and sl: "slab_ok sz (objs st) L" unfolding map_table_def by blast
  obtain a sl1 where al: "cslab_alloc sz (objs st) = Some (a, sl1)" using slab.alloc_total [OF sl] by blast
  have a: "a \<noteq> NULL" using cslab_alloc_room [OF sl _ al] room by (simp add: map_room_def)
  obtain i m' q where ad: "cos_map_add (maps st) a (spool sl1) = Some (i, m', q)" using cm.add_total [OF m a] by blast
  have "i = free_list (maps st)"
    using ad room by (auto simp: map_room_def cos_map_add_def cos_map_take_def Let_def bind_eq_Some_conv split: option.splits)
  then have "0 \<le> i" "i \<notin> used (maps st)" using cm.add_res [OF m a ad] room by (auto simp: map_room_def)
  then have i: "2 \<le> i" using p by (cases "i = 0 \<or> i = 1") (auto simp: map_primed_def)
  obtain n' where n': "n = Suc n'" using n by (cases n) auto
  show ?thesis
    using al a ad big [OF i] i asg by (simp add: map_desc_alloc_def map_desc_turn_def n' Let_def)
qed

text \<open>
  However the memory is, the loop of a stub that also stops at the id -1 makes at most three
  turns: every further turn has used up one of the ids 0 and 1.
\<close>

lemma map_desc_alloc_turns:
  fixes st :: "(cos_map, 'd, 'w) stub"
  assumes t: "map_table sz key st" and asg: "\<And>i d. key (asg i d) = i" and big: "\<And>i. 2 \<le> i \<or> i = -1 \<Longrightarrow> big i"
    and n: "3 \<le> n"
  shows "map_desc_alloc n sz big asg st = map_desc_alloc 3 sz big asg st"
proof -
  let ?mu = "\<lambda>s :: (cos_map, 'd, 'w) stub. card ({0, 1} - used (maps s))"
  have "redo n (map_desc_turn sz big asg) st = redo 3 (map_desc_turn sz big asg) st"
  proof (rule redo_fuel [of "map_table sz key" _ _ ?mu])
    have "card ({0, 1} - used (maps st)) \<le> card {0 :: int, 1}" by (intro card_mono) auto
    then show "?mu st < n" "?mu st < 3" using n by auto
    fix s s' :: "(cos_map, 'd, 'w) stub"
    assume I: "map_table sz key s" and turn: "map_desc_turn sz big asg s = Some (Redo, s')"
    show "map_table sz key s' \<and> ?mu s' < ?mu s"
    proof (rule map_desc_turn_ok [OF I asg turn])
      fix a assume a: "map_table sz key s'" "Redo = (if big (key (descs s' a)) then Return a else Redo)"
        "key (descs s' a) = -1 \<or> 0 \<le> key (descs s' a) \<and> key (descs s' a) \<notin> used (maps s)"
        "used (maps s') = (if key (descs s' a) = -1 then used (maps s) else insert (key (descs s' a)) (used (maps s)))"
      let ?i = "key (descs s' a)"
      have nb: "\<not> big ?i" using a(2) by (auto split: if_splits)
      then have "?i \<noteq> -1" "\<not> 2 \<le> ?i" using big [of ?i] by blast+
      then have "?i \<in> {0, 1} - used (maps s)" and "used (maps s') = insert ?i (used (maps s))"
        using a(3,4) by auto
      then have "{0, 1} - used (maps s') \<subset> {0, 1} - used (maps s)" by blast
      then show ?thesis using a(1) by (auto intro: psubset_card_mono)
    qed
  qed (rule t)
  then show ?thesis by (simp add: map_desc_alloc_def)
qed

text \<open>
  The first allocation of a stub passes over the ids 0 and 1. An allocation takes at most one page,
  so four pages are enough for the three turns and leave room for the next.
\<close>

lemma cslab_alloc_owned:
  assumes ok: "slab_ok sz sl L" and al: "cslab_alloc sz sl = Some (a, sl')"
  shows "\<exists>s. owned (spool sl) - {s} \<subseteq> owned (spool sl')"
proof -
  let ?o = "slab_obj_sz sz" and ?m = "slab_max_objs sz"
  from ok obtain S ps where inv: "slab_inv sl ?m S ps" and r: "0 < sz" "sz \<le> 4032" by (auto simp: slab_ok_def)
  have dis: "S \<inter> owned (spool sl) = {}" using inv by (simp add: slab_inv_def)
  show ?thesis
  proof (rule cslab_mem_alloc_ok [OF slab_sizes_of(1) [OF r] inv])
    assume "cslab_mem_alloc sl ?o ?m = Some (NULL, sl)"
    then show ?thesis using al by (auto simp: cslab_alloc_def)
  next
    fix s idx st' ps'
    assume "cslab_mem_alloc sl ?o ?m = Some (cslab_mem_first s + idx * ?o, st')"
      and own: "insert s S \<union> owned (spool st') = S \<union> owned (spool sl)"
    then have "sl' = st'" using al by (simp add: cslab_alloc_def)
    then show ?thesis using own dis by (intro exI [of _ s]) blast
  qed
qed

lemma map_desc_turn_free:
  fixes st :: "(cos_map, 'd, 'w) stub"
  assumes t: "map_table sz key st" and asg: "\<And>i d. key (asg i d) = i" and inv: "map_inv (maps st) (f # fl)"
    and own: "A \<subseteq> owned (spool (objs st))" "card A = Suc k"
  shows "\<exists>a st' B. map_desc_turn sz big asg st = Some (if big f then Return a else Redo, st') \<and> map_table sz key st' \<and>
    key (descs st' a) = f \<and> map_inv (maps st') fl \<and> B \<subseteq> owned (spool (objs st')) \<and> card B = k \<and>
    used (maps st') = insert f (used (maps st))"
proof -
  from t obtain L where m: "map_ok (maps st)" and sl: "slab_ok sz (objs st) L" unfolding map_table_def by blast
  have "pool_ok (spool (objs st))" using sl by (auto simp: slab_ok_def slab_inv_def)
  moreover have "A \<noteq> {}" using own(2) by auto
  ultimately have room: "mem_room (objs st)" using ps.alloc_NULL own(1) by (auto simp: mem_room_def)
  obtain a sl1 where al: "cslab_alloc sz (objs st) = Some (a, sl1)" using slab.alloc_total [OF sl] by blast
  have a: "a \<noteq> NULL" by (rule cslab_alloc_room [OF sl room al])
  obtain s where "A - {s} \<subseteq> owned (spool sl1)" using cslab_alloc_owned [OF sl al] own(1) by blast
  moreover have "finite A" using own(2) card.infinite by fastforce
  then have "k \<le> card (A - {s})" using own(2) by (simp add: card_Diff_singleton_if)
  ultimately obtain B where B: "B \<subseteq> owned (spool sl1)" "card B = k" by (metis obtain_subset_with_card_n order_trans)
  obtain m' where ad: "cos_map_add (maps st) a (spool sl1) = Some (f, m', spool sl1)" and m': "map_inv m' fl"
    by (rule cos_map_add_free [OF inv])
  have f0: "f \<noteq> -1" using inv by (cases "f = -1") (auto simp: map_inv_def)
  have us: "used m' = insert f (used (maps st))" using cm.add_uses [OF m a ad] f0 by simp
  define st' where "st' = put_desc a (asg f) (st\<lparr>maps := m', objs := sl1\<rparr>)"
  have turn: "map_desc_turn sz big asg st = Some (if big f then Return a else Redo, st')"
    using al a ad by (simp add: map_desc_turn_def Let_def st'_def)
  have "map_table sz key st'" by (rule map_desc_turn_ok [OF t asg turn])
  then show ?thesis
    using turn m' B us asg by (intro exI [of _ a] exI [of _ st'] exI [of _ B]) (simp add: st'_def)
qed

lemma map_desc_alloc_first:
  fixes st :: "(cos_map, 'd, 'w) stub"
  assumes t: "map_table sz key st" and asg: "\<And>i d. key (asg i d) = i"
    and big: "\<not> big 0" "\<not> big 1" "big 2" and inv: "map_inv (maps st) (0 # 1 # 2 # f # fl)"
    and own: "A \<subseteq> owned (spool (objs st))" "card A = 4" and n: "3 \<le> n"
  shows "\<exists>a st'. map_desc_alloc n sz big asg st = Some (a, st') \<and> key (descs st' a) = 2 \<and> map_primed st' \<and> map_room st'"
proof -
  have 4: "card A = Suc (Suc (Suc (Suc 0)))" using own(2) by simp
  obtain a0 s0 B0 where 0: "map_desc_turn sz big asg st = Some (if big 0 then Return a0 else Redo, s0)" "map_table sz key s0"
    "map_inv (maps s0) (1 # 2 # f # fl)" "B0 \<subseteq> owned (spool (objs s0))" "card B0 = Suc (Suc (Suc 0))"
    "used (maps s0) = insert 0 (used (maps st))"
    using map_desc_turn_free [where asg = asg and big = big, OF t asg inv own(1) 4] by blast
  obtain a1 s1 B1 where 1: "map_desc_turn sz big asg s0 = Some (if big 1 then Return a1 else Redo, s1)" "map_table sz key s1"
    "map_inv (maps s1) (2 # f # fl)" "B1 \<subseteq> owned (spool (objs s1))" "card B1 = Suc (Suc 0)"
    "used (maps s1) = insert 1 (used (maps s0))"
    using map_desc_turn_free [where asg = asg and big = big, OF 0(2) asg 0(3-5)] by blast
  obtain a2 s2 B2 where 2: "map_desc_turn sz big asg s1 = Some (if big 2 then Return a2 else Redo, s2)" "map_table sz key s2"
    "key (descs s2 a2) = 2" "map_inv (maps s2) (f # fl)" "B2 \<subseteq> owned (spool (objs s2))" "card B2 = Suc 0"
    "used (maps s2) = insert 2 (used (maps s1))"
    using map_desc_turn_free [where asg = asg and big = big, OF 1(2) asg 1(3-5)] by blast
  have n2: "owned (spool (objs s2)) \<noteq> {}" using 2(5,6) by auto
  obtain L where "slab_ok sz (objs s2) L" using 2(2) unfolding map_table_def by blast
  then have "pool_ok (spool (objs s2))" by (auto simp: slab_ok_def slab_inv_def)
  then have "mem_room (objs s2)" using ps.alloc_NULL n2 by (auto simp: mem_room_def)
  moreover have "free_list (maps s2) \<noteq> -1" using 2(4) by (auto simp: map_inv_def)
  ultimately have room: "map_room s2" by (simp add: map_room_def)
  have prim: "map_primed s2" using 0(6) 1(6) 2(7) by (simp add: map_primed_def)
  have k: "n = Suc (Suc (Suc (n - 3)))" using n by simp
  have "map_desc_alloc n sz big asg st = Some (a2, s2)"
    unfolding map_desc_alloc_def by (subst k) (use 0(1) 1(1) 2(1) big in simp)
  then show ?thesis using 2(3) room prim by blast
qed

text \<open>The table only depends on the index, the slab and the descriptors.\<close>

lemma map_table_simps [simp]:
  "map_table sz key (st\<lparr>world := w\<rparr>) = map_table sz key st"
  "map_table sz key (st\<lparr>global_fault_cnt := c\<rparr>) = map_table sz key st"
  "map_lookup i (st\<lparr>world := w\<rparr>) = map_lookup i st"
  "map_lookup i (st\<lparr>global_fault_cnt := c\<rparr>) = map_lookup i st"
  "map_primed (st\<lparr>world := w\<rparr>) = map_primed st" "map_primed (st\<lparr>global_fault_cnt := c\<rparr>) = map_primed st"
  "map_room (st\<lparr>world := w\<rparr>) = map_room st" "map_room (st\<lparr>global_fault_cnt := c\<rparr>) = map_room st"
  "map_primed (put_desc a f st) = map_primed st" "map_room (put_desc a f st) = map_room st"
  by (simp_all add: map_table_def map_lookup_def map_primed_def map_room_def)

lemma desc_mapI:
  assumes asg: "\<And>i d. key (asg i d) = i" and clear: "\<And>d. key (clear d) = key d"
    and big: "\<And>i. 2 \<le> i \<Longrightarrow> big i" and small: "\<And>i. big i \<Longrightarrow> i < 2 \<Longrightarrow> i < 0"
  shows "desc_map (map_table sz key) (\<lambda>_. True) map_lookup key (map_desc_dealloc sz key clear)
    (\<lambda>n. map_desc_alloc n sz big asg) map_primed (map_room :: (cos_map, 'd, 'w) stub \<Rightarrow> bool)"
proof unfold_locales
  fix st st' :: "(cos_map, 'd, 'w) stub" and i j a b n
  assume ok: "map_table sz key st"
  then have m: "map_ok (maps st)" by (simp add: map_table_def)
  show "\<exists>a. map_lookup i st = Some a" using cm.find_total [OF m] by (simp add: map_lookup_def)
  show "key (descs st a) = i" if "map_lookup i st = Some a" "a \<noteq> NULL"
    using ok that cm.found_used [OF m, of i a] by (force simp: map_table_def map_lookup_def)
  show "map_table sz key st'" if "maps st' = maps st" "objs st' = objs st" "\<And>a. key (descs st' a) = key (descs st a)"
    using ok that by (simp add: map_table_def)
  { assume lk: "map_lookup i st = Some a" "a \<noteq> NULL"
    from map_desc_dealloc_ok [where clear = clear, OF ok clear lk] obtain s
      where s: "map_desc_dealloc sz key clear a st = Some s" "map_table sz key s"
        "\<forall>j. map_lookup j s = (if j = i then Some NULL else map_lookup j st)"
        "used (maps s) = used (maps st) - {i}" "map_room s" by metis
    show "\<exists>st'. map_desc_dealloc sz key clear a st = Some st'" using s by blast
    assume "map_desc_dealloc sz key clear a st = Some st'"
    then have e: "st' = s" using s by simp
    show "map_table sz key st'" using s e by simp
    show "map_lookup j st' = (if j = i then Some NULL else map_lookup j st)" using s(3) e by simp
    show "map_primed st' \<and> map_room st'" if "2 \<le> i" "map_primed st"
      using s(4,5) e that by (auto simp: map_primed_def) }
  { assume al: "map_desc_alloc n sz big asg st = Some (a, st')"
    note p = map_desc_alloc_ok [where key = key, OF ok asg big small al]
    show "map_table sz key st' \<and> a \<noteq> NULL" using p by blast
    show "map_lookup j st' = (if j = key (descs st' a) then Some a else map_lookup j st)" if "2 \<le> j"
      using p that by (simp add: passed_over_def)
    show "key (descs st' a) = -1 \<or> 2 \<le> key (descs st' a) \<and> map_lookup (key (descs st' a)) st = Some NULL"
      using p by blast
    show "same_rest st st'" using p by (simp add: passed_over_def)
    show "b \<noteq> a \<and> map_lookup i st' = Some b \<and> descs st' b = descs st b" if "map_lookup i st = Some b" "b \<noteq> NULL"
      using p that unfolding passed_over_def by blast
    show "map_primed st'" if "map_primed st" using p that by (auto simp: passed_over_def map_primed_def) }
  show "\<exists>a st'. map_desc_alloc n sz big asg st = Some (a, st') \<and> 2 \<le> key (descs st' a)"
    if "map_primed st" "map_room st" "0 < n"
    using map_desc_alloc_room [where asg = asg, OF ok asg big that] .
qed (auto simp: map_lookup_def map_primed_def map_room_def dest: map_desc_dealloc_frame)

lemma desc_map_alloc_cong:
  assumes "desc_map ok valid look key dealloc alloc primed room"
    and "\<And>n st. ok st \<Longrightarrow> alloc' n st = alloc n st"
  shows "desc_map ok valid look key dealloc alloc' primed room"
proof -
  have "desc_map_axioms ok valid look key dealloc alloc' primed room =
      desc_map_axioms ok valid look key dealloc alloc primed room"
    unfolding desc_map_axioms_def by (simp only: assms(2) cong: imp_cong)
  then show ?thesis using assms(1) by (simp add: desc_map_def)
qed

text \<open>The table after \<^verbatim>\<open>call_map_init\<close>: empty, on whatever slab there is.\<close>

definition map_stub_ok :: "int \<Rightarrow> ('d \<Rightarrow> int) \<Rightarrow> (cos_map, 'd, 'w) stub \<Rightarrow> bool" where
  "map_stub_ok sz key st \<longleftrightarrow>
     (if first_map_init st then map_table sz key st
      else maps st = blank_map \<and> (\<exists>L. slab_ok sz (objs st) L))"

lemma map_init_once_ok:
  assumes "map_stub_ok sz key st"
  shows "\<exists>st'. map_init_once st = Some st' \<and> map_table sz key st' \<and> first_map_init st' \<and>
    world st' = world st \<and> global_fault_cnt st' = global_fault_cnt st \<and> (first_map_init st \<longrightarrow> st' = st)"
proof (cases "first_map_init st")
  case True
  then show ?thesis using assms by (simp add: map_init_once_def map_stub_ok_def)
next
  case False
  have "page_addr (vect (data blank_map)) \<noteq> NULL" by (simp add: blank_map_def)
  then obtain m where m: "cos_map_init blank_map = Some m" "map_inv m (ids 0 512)" "used m = {}"
    by (rule cos_map_init_props)
  then show ?thesis
    using False assms by (auto simp: map_init_once_def map_stub_ok_def map_table_def map_okI)
qed

text \<open>A stub as the loader starts it, on an allocator with four pages.\<close>

definition boot_objs :: slabs where
  "boot_objs = no_slabs\<lparr>spool := \<lparr>page_list = NULL, link = (\<lambda>_. NULL),
     mm_pages = [2 * PAGE_SIZE, 3 * PAGE_SIZE, 4 * PAGE_SIZE, 5 * PAGE_SIZE]\<rparr>\<rparr>"

definition boot_map_stub :: "'d \<Rightarrow> 'w \<Rightarrow> (cos_map, 'd, 'w) stub" where
  "boot_map_stub d w = \<lparr>descs = (\<lambda>_. d), maps = blank_map, objs = boot_objs, global_fault_cnt = 0,
     first_map_init = False, world = w\<rparr>"

lemma boot_objs_ok:
  assumes r: "0 < sz" "sz \<le> 4032"
  shows "slab_ok sz boot_objs {}"
    and "owned (spool boot_objs) = {2 * PAGE_SIZE, 3 * PAGE_SIZE, 4 * PAGE_SIZE, 5 * PAGE_SIZE}"
proof -
  have p: "pool_inv (spool boot_objs) []" by (simp add: pool_inv_def boot_objs_def)
  then have "slab_inv boot_objs (slab_max_objs sz) {} []"
    by (auto simp: slab_inv_def fl_ok_def boot_objs_def no_slabs_def)
  moreover have "{} = live boot_objs (slab_obj_sz sz) (slab_max_objs sz) {}" by (simp add: live_def)
  ultimately show "slab_ok sz boot_objs {}" using r unfolding slab_ok_def by blast
  show "owned (spool boot_objs) = {2 * PAGE_SIZE, 3 * PAGE_SIZE, 4 * PAGE_SIZE, 5 * PAGE_SIZE}"
    using owned_eq [OF p] by (auto simp: boot_objs_def)
qed

lemma boot_map_stub_ok: "0 < sz \<Longrightarrow> sz \<le> 4032 \<Longrightarrow> map_stub_ok sz key (boot_map_stub d w)"
  using boot_objs_ok(1) [of sz] by (auto simp: map_stub_ok_def boot_map_stub_def)

lemma boot_map_init:
  "map_init_once (boot_map_stub d w) = Some (boot_map_stub d w\<lparr>first_map_init := True, maps := empty_map\<rparr>)"
proof -
  have "page_addr (vect (data blank_map)) \<noteq> NULL" by (simp add: blank_map_def)
  then obtain m where "cos_map_init blank_map = Some m" by (rule cos_map_init_props)
  then show ?thesis by (simp add: map_init_once_def boot_map_stub_def empty_map_def)
qed

text \<open>The first descriptor of a stub gets the id 2.\<close>

lemma boot_map_alloc:
  assumes sz: "0 < sz" "sz \<le> 4032" and asg: "\<And>i d. key (asg i d) = i"
    and big: "\<not> big 0" "\<not> big 1" "big 2" and n: "3 \<le> n"
    and st: "maps st = empty_map" "objs st = boot_objs"
  shows "map_table sz key st" "\<exists>a st'. map_desc_alloc n sz big asg st = Some (a, st') \<and> key (descs st' a) = 2 \<and> map_primed st' \<and> map_room st'"
proof -
  show t: "map_table sz key st" using boot_objs_ok(1) [OF sz] empty_map_ok by (auto simp: map_table_def st)
  have i: "ids 0 512 = 0 # 1 # 2 # 3 # ids 4 512" by (simp add: ids_Cons)
  show "\<exists>a st'. map_desc_alloc n sz big asg st = Some (a, st') \<and> key (descs st' a) = 2 \<and> map_primed st' \<and> map_room st'"
  proof (rule map_desc_alloc_first [where big = big, OF t asg big])
    show "map_inv (maps st) (0 # 1 # 2 # 3 # ids 4 512)" using empty_map_ok(3) i by (simp add: st)
    show "owned (spool boot_objs) \<subseteq> owned (spool (objs st))" by (simp add: st)
    show "card (owned (spool boot_objs)) = 4" unfolding boot_objs_ok(2) [OF sz] by simp
  qed (rule n)
qed

section \<open>Vector tables meet the contract\<close>

definition vect_lookup :: "int \<Rightarrow> (ptree, 'd, 'w) stub \<Rightarrow> addr option" where
  "vect_lookup i st = cvect_lookup (maps st) i"

abbreviation vect_id :: "int \<Rightarrow> bool" where
  "vect_id i \<equiv> 0 \<le> i \<and> i < CVECT_MAX_ID"

definition vect_table :: "int \<Rightarrow> ('d \<Rightarrow> int) \<Rightarrow> (ptree, 'd, 'w) stub \<Rightarrow> bool" where
  "vect_table sz key st \<longleftrightarrow> vect_ok (maps st) \<and> (\<exists>L. slab_ok sz (objs st) L \<and>
     (\<forall>i a. vect_id i \<longrightarrow> cvect_lookup (maps st) i = Some a \<longrightarrow> a \<noteq> NULL \<longrightarrow> a \<in> L \<and> key (descs st a) = i))"

lemma vect_table_simps [simp]:
  "vect_table sz key (st\<lparr>world := w\<rparr>) = vect_table sz key st"
  "vect_table sz key (st\<lparr>global_fault_cnt := c\<rparr>) = vect_table sz key st"
  "vect_lookup i (st\<lparr>world := w\<rparr>) = vect_lookup i st"
  "vect_lookup i (st\<lparr>global_fault_cnt := c\<rparr>) = vect_lookup i st"
  by (simp_all add: vect_table_def vect_lookup_def)

lemma vect_desc_alloc_ok:
  fixes st :: "(ptree, 'd, 'w) stub"
  assumes t: "vect_table sz key st" and asg: "\<And>d. key (asg d) = i"
    and al: "vect_desc_alloc sz asg i st = Some (a, st')"
  shows "vect_table sz key st'" "a \<noteq> NULL" "vect_id i" "vect_lookup i st = Some NULL"
    "vect_id j \<Longrightarrow> vect_lookup j st' = (if j = i then Some a else vect_lookup j st)"
    "same_rest st st'"
    "vect_id j \<Longrightarrow> vect_lookup j st \<noteq> Some a" "b \<noteq> a \<Longrightarrow> descs st' b = descs st b" "descs st' a = asg (descs st a)"
proof -
  from t obtain L where v: "vect_ok (maps st)" and sl: "slab_ok sz (objs st) L"
    and tr: "\<And>i a. vect_id i \<Longrightarrow> cvect_lookup (maps st) i = Some a \<Longrightarrow> a \<noteq> NULL \<Longrightarrow> a \<in> L \<and> key (descs st a) = i"
    unfolding vect_table_def by blast
  from al obtain sl1 v' p where ca: "cslab_alloc sz (objs st) = Some (a, sl1)" and a: "a \<noteq> NULL"
    and ad: "cvect_add (maps st) a i (spool sl1) = Some (0, v', p)"
    and st': "st' = (put_desc a asg (st\<lparr>objs := sl1\<rparr>))\<lparr>maps := v', objs := sl1\<lparr>spool := p\<rparr>\<rparr>"
    by (auto simp: vect_desc_alloc_def bind_eq_Some_conv Let_def)
  have aL: "a \<notin> L" and sl1: "slab_ok sz sl1 (insert a L)"
    using slab.alloc_fresh [OF sl ca] slab.alloc_ok [OF sl ca] a by auto
  show a': "a \<noteq> NULL" by (rule a)
  show i: "vect_id i" using cvect_add_props(3) [OF v ad] .
  show "vect_lookup i st = Some NULL" using ad by (auto simp: cvect_add_def vect_lookup_def bind_eq_Some_conv)
  have fd: "cvect_lookup v' j = (if j = i then Some a else cvect_lookup (maps st) j)" if "vect_id j" for j
    using cv.add_find [OF v ad, of j] that by simp
  then show "vect_id j \<Longrightarrow> vect_lookup j st' = (if j = i then Some a else vect_lookup j st)" for j
    by (simp add: st' vect_lookup_def)
  show "vect_id j \<Longrightarrow> vect_lookup j st \<noteq> Some a" using tr [of j a] aL a by (auto simp: vect_lookup_def)
  show "same_rest st st'" "b \<noteq> a \<Longrightarrow> descs st' b = descs st b" "descs st' a = asg (descs st a)"
    by (simp_all add: st' same_rest_def)
  have "slab_ok sz (objs st') (insert a L)"
    using slab_ok_spool [OF sl1 cvect_add_shrinks [OF ad]] by (simp add: st')
  moreover have "vect_ok (maps st')" using cv.add_ok [OF v ad] by (simp add: st')
  moreover have "b \<in> insert a L \<and> key (descs st' b) = j"
    if "vect_id j" "cvect_lookup (maps st') j = Some b" "b \<noteq> NULL" for j b
    using that fd [of j] tr [of j b] asg aL by (cases "j = i") (auto simp: st')
  ultimately show "vect_table sz key st'" unfolding vect_table_def by blast
qed

lemma vect_desc_dealloc_ok:
  fixes st :: "(ptree, 'd, 'w) stub"
  assumes t: "vect_table sz key st" and i: "vect_id i" and lk: "vect_lookup i st = Some a" and a: "a \<noteq> NULL"
  obtains st' where "vect_desc_dealloc sz key a st = Some st'" "vect_table sz key st'"
    "\<forall>j. vect_id j \<longrightarrow> vect_lookup j st' = (if j = i then Some NULL else vect_lookup j st)"
proof -
  from t obtain L where v: "vect_ok (maps st)" and sl: "slab_ok sz (objs st) L"
    and tr: "\<And>i a. vect_id i \<Longrightarrow> cvect_lookup (maps st) i = Some a \<Longrightarrow> a \<noteq> NULL \<Longrightarrow> a \<in> L \<and> key (descs st a) = i"
    unfolding vect_table_def by blast
  from tr [OF i _ a] have aL: "a \<in> L" and k: "key (descs st a) = i" using lk by (auto simp: vect_lookup_def)
  obtain sl' where fr: "cslab_free sz (objs st) a = Some sl'" using slab.free_total [OF sl aL] by blast
  obtain r v' where dl: "cvect_del (maps st) i = (r, v')" by (cases "cvect_del (maps st) i")
  have r: "r = 0"
    using dl lk a by (auto simp: cvect_del_def u_cvect_set_def vect_lookup_def cvect_lookup_def bind_eq_Some_conv split: option.splits)
  have v': "vect_ok v'" using cv.del_ok [OF v, of i] dl by simp
  have fd: "cvect_lookup v' j = (if j = i then Some NULL else cvect_lookup (maps st) j)" if "vect_id j" for j
    using cv.del_find [OF v, of i j] i that dl by simp
  define st' where "st' = st\<lparr>maps := v', objs := sl'\<rparr>"
  have d: "vect_desc_dealloc sz key a st = Some st'"
    using a k fr dl r by (simp add: vect_desc_dealloc_def st'_def)
  have "slab_ok sz (objs st') (L - {a})" using slab.free_gives [OF sl aL fr] by (simp add: st'_def)
  moreover have "b \<in> L - {a} \<and> key (descs st' b) = j"
    if "vect_id j" "cvect_lookup (maps st') j = Some b" "b \<noteq> NULL" for j b
    using that fd [of j] tr [of j b] k by (cases "j = i") (auto simp: st'_def)
  ultimately have "vect_table sz key st'" using v' unfolding vect_table_def st'_def by auto
  then show thesis using that [OF d] fd by (simp add: vect_lookup_def st'_def)
qed

lemma desc_vectI:
  assumes asg: "\<And>i d. key (asg i d) = i"
  shows "desc_vect (vect_table sz key) vect_id vect_lookup key (vect_desc_dealloc sz key)
    (\<lambda>i :: int. \<lambda>st :: (ptree, 'd, 'w) stub. vect_desc_alloc sz (asg i) i st)"
proof unfold_locales
  fix st st' :: "(ptree, 'd, 'w) stub" and i j a b
  assume ok: "vect_table sz key st"
  then have v: "vect_ok (maps st)" by (simp add: vect_table_def)
  show "\<exists>a. vect_lookup i st = Some a" if "vect_id i" using cv.find_total [OF v] that by (simp add: vect_lookup_def)
  show "key (descs st a) = i" if "vect_id i" "vect_lookup i st = Some a" "a \<noteq> NULL"
    using ok that by (auto simp: vect_table_def vect_lookup_def)
  show "vect_table sz key st'" if "maps st' = maps st" "objs st' = objs st" "\<And>a. key (descs st' a) = key (descs st a)"
    using ok that by (simp add: vect_table_def)
  { assume i: "vect_id i" and lk: "vect_lookup i st = Some a" "a \<noteq> NULL"
    from vect_desc_dealloc_ok [OF ok i lk] obtain s
      where s: "vect_desc_dealloc sz key a st = Some s" "vect_table sz key s"
        "\<forall>j. vect_id j \<longrightarrow> vect_lookup j s = (if j = i then Some NULL else vect_lookup j st)" by metis
    show "\<exists>st'. vect_desc_dealloc sz key a st = Some st'" using s by blast
    assume "vect_desc_dealloc sz key a st = Some st'"
    then have e: "st' = s" using s by simp
    show "vect_table sz key st'" using s e by simp
    show "vect_id j \<Longrightarrow> vect_lookup j st' = (if j = i then Some NULL else vect_lookup j st)" using s(3) e by simp }
  { assume al: "vect_desc_alloc sz (asg i) i st = Some (a, st')"
    note p = vect_desc_alloc_ok [where asg = "asg i", OF ok asg al]
    show "vect_id i \<and> vect_lookup i st = Some NULL" using p(3,4) by blast
    show "vect_table sz key st' \<and> a \<noteq> NULL" using p(1,2) by blast
    show "vect_id j \<Longrightarrow> vect_lookup j st' = (if j = i then Some a else vect_lookup j st)" by (rule p(5))
    show "same_rest st st'" by (rule p(6))
    show "b \<noteq> a \<and> descs st' b = descs st b" if "vect_id j" "vect_lookup j st = Some b"
      using p(7) [OF that(1)] p(8) [of b] that(2) by auto }
qed (auto simp: vect_lookup_def vect_desc_dealloc_def bind_eq_Some_conv same_rest_def split: prod.splits)

definition vect_stub_ok :: "int \<Rightarrow> ('d \<Rightarrow> int) \<Rightarrow> (ptree, 'd, 'w) stub \<Rightarrow> bool" where
  "vect_stub_ok sz key st \<longleftrightarrow>
     (if first_map_init st then vect_table sz key st else \<exists>L. slab_ok sz (objs st) L)"

lemma vect_init_once_ok:
  assumes "vect_stub_ok sz key st"
  shows "vect_table sz key (vect_init_once st)" "first_map_init (vect_init_once st)"
    "world (vect_init_once st) = world st" "global_fault_cnt (vect_init_once st) = global_fault_cnt st"
    "first_map_init st \<Longrightarrow> vect_init_once st = st"
  using assms
  by (auto simp: vect_init_once_def vect_stub_ok_def vect_table_def vect_ok_cvect_init cvect_lookup_init)

text \<open>An allocation takes at most two pages: one for the slab, one for a leaf of the vector.\<close>

lemma cvect_add_one_page:
  assumes "cvect_add v x i p = Some (r, v', p')" "pool_ok p"
  shows "\<exists>a. owned p - {a} \<subseteq> owned p'"
proof -
  have "p' = p \<or> p' = snd (alloc_page p)"
    using assms(1) by (auto simp: cvect_add_def u_cvect_expand_def numeral_2_eq_2 Let_def bind_eq_Some_conv
        split: option.splits prod.splits if_splits)
  moreover obtain a q where aq: "alloc_page p = (a, q)" by (rule prod.exhaust)
  have "\<exists>x. owned p - {x} \<subseteq> owned q"
  proof (cases "a = NULL")
    case True
    then have "owned p = {}" using ps.alloc_NULL [OF assms(2)] aq by simp
    then show ?thesis by simp
  next
    case False
    then show ?thesis using ps.alloc_page_of [OF assms(2) aq] by blast
  qed
  ultimately show ?thesis using aq by auto
qed

lemma card_minus_one:
  assumes "card A = Suc k" "A - {s} \<subseteq> C"
  shows "\<exists>B. B \<subseteq> C \<and> card B = k"
proof -
  have "finite A" using assms(1) card.infinite by fastforce
  then have "k \<le> card (A - {s})" using assms(1) by (simp add: card_Diff_singleton_if)
  then show ?thesis using assms(2) by (metis obtain_subset_with_card_n order_trans)
qed

lemma vect_desc_alloc_pages:
  fixes st :: "(ptree, 'd, 'w) stub"
  assumes t: "vect_table sz key st" and i: "vect_id i" and free: "vect_lookup i st = Some NULL"
    and own: "A \<subseteq> owned (spool (objs st))" "card A = Suc (Suc k)"
  shows "\<exists>a st' B. vect_desc_alloc sz asg i st = Some (a, st') \<and> B \<subseteq> owned (spool (objs st')) \<and> card B = k"
proof -
  from t obtain L where v: "vect_ok (maps st)" and sl: "slab_ok sz (objs st) L" unfolding vect_table_def by blast
  have pool: "pool_ok (spool sl)" if "slab_ok sz sl L" for sl L using that by (auto simp: slab_ok_def slab_inv_def)
  have "A \<noteq> {}" using own(2) by auto
  then have room: "mem_room (objs st)" using ps.alloc_NULL [OF pool [OF sl]] own(1) by (auto simp: mem_room_def)
  obtain a sl1 where al: "cslab_alloc sz (objs st) = Some (a, sl1)" using slab.alloc_total [OF sl] by blast
  have a: "a \<noteq> NULL" by (rule cslab_alloc_room [OF sl room al])
  obtain s where s: "A - {s} \<subseteq> owned (spool sl1)" using cslab_alloc_owned [OF sl al] own(1) by blast
  obtain B where B: "B \<subseteq> owned (spool sl1)" "card B = Suc k" using card_minus_one [OF own(2) s] by (elim exE conjE)
  then have ne: "owned (spool sl1) \<noteq> {}" by auto
  obtain L1 where "slab_ok sz sl1 L1" using slab.alloc_ok [OF sl al] a by blast
  note p1 = pool [OF this]
  have page: "fst (alloc_page (spool sl1)) \<noteq> NULL" using ps.alloc_NULL [OF p1] ne by simp
  obtain r v' p' where ad: "cvect_add (maps st) a i (spool sl1) = Some (r, v', p')"
    using cvect_add_total [of i a "maps st" "spool sl1"] i a free by (auto simp: vect_lookup_def)
  have "r = 0" using cvect_add_props(2) [OF v ad] page by simp
  then have run: "vect_desc_alloc sz asg i st = Some (a, put_desc a asg (st\<lparr>maps := v', objs := sl1\<lparr>spool := p'\<rparr>\<rparr>))"
    using al a ad by (simp add: vect_desc_alloc_def Let_def put_desc_def)
  obtain x where x: "B - {x} \<subseteq> owned p'" using cvect_add_one_page [OF ad p1] B(1) by blast
  obtain C where "C \<subseteq> owned p'" "card C = k" using card_minus_one [OF B(2) x] by (elim exE conjE)
  then show ?thesis using run by (intro exI [of _ a] exI [of _ "put_desc a asg (st\<lparr>maps := v', objs := sl1\<lparr>spool := p'\<rparr>\<rparr>)"] exI [of _ C]) simp
qed

lemma vect_desc_alloc_world:
  "vect_desc_alloc sz asg i (st\<lparr>world := w\<rparr>) = map_option (map_prod id (\<lambda>s. s\<lparr>world := w\<rparr>)) (vect_desc_alloc sz asg i st)"
  "vect_desc_alloc sz asg i (st\<lparr>global_fault_cnt := c\<rparr>) =
     map_option (map_prod id (\<lambda>s. s\<lparr>global_fault_cnt := c\<rparr>)) (vect_desc_alloc sz asg i st)"
  by (auto simp: vect_desc_alloc_def put_desc_def Let_def split: Option.bind_split prod.split)

definition boot_vect_stub :: "'d \<Rightarrow> 'w \<Rightarrow> (ptree, 'd, 'w) stub" where
  "boot_vect_stub d w = \<lparr>descs = (\<lambda>_. d), maps = cvect_init PAGE_SIZE, objs = boot_objs, global_fault_cnt = 0,
     first_map_init = True, world = w\<rparr>"

lemma boot_vect_stub_ok:
  assumes sz: "0 < sz" "sz \<le> 4032"
  shows "vect_table sz key (boot_vect_stub d w)" "vect_id i \<Longrightarrow> vect_lookup i (boot_vect_stub d w) = Some NULL"
    "vect_id i \<Longrightarrow> \<exists>a st' B. vect_desc_alloc sz asg i (boot_vect_stub d w) = Some (a, st') \<and> B \<subseteq> owned (spool (objs st')) \<and> card B = 2"
proof -
  show t: "vect_table sz key (boot_vect_stub d w)" for key
    using boot_objs_ok(1) [OF sz] by (auto simp: vect_table_def boot_vect_stub_def vect_ok_cvect_init cvect_lookup_init)
  show l: "vect_lookup i (boot_vect_stub d w) = Some NULL" if "vect_id i" for i
    using that by (simp add: vect_lookup_def boot_vect_stub_def cvect_lookup_init)
  show "\<exists>a st' B. vect_desc_alloc sz asg i (boot_vect_stub d w) = Some (a, st') \<and> B \<subseteq> owned (spool (objs st')) \<and> card B = 2" if "vect_id i"
    by (rule vect_desc_alloc_pages [OF t that l [OF that], of "{2 * PAGE_SIZE, 3 * PAGE_SIZE, 4 * PAGE_SIZE, 5 * PAGE_SIZE}"])
      (use boot_objs_ok(2) [OF sz] in \<open>auto simp: boot_vect_stub_def\<close>)
qed

end
