(* ===== verification/Cstub.thy ===== *)
theory Cstub
  imports DescTable
begin

text \<open>
  What the client stubs share (\<^verbatim>\<open>components/include/cstub.h\<close> and the common shape of the
  generated \<^verbatim>\<open>__IDL_c_stub.c\<close> files): an invocation of the server that can come back with a
  fault, the update of the fault counter, and the loop around them.

  The server and the kernel are not part of this code: they are the argument \<open>E\<close> of every
  definition. An invocation is named by the interface function and takes the argument registers; it
  returns the result register, the fault flag, and the new state of the world.
\<close>

record 'w env =
  server :: "string \<Rightarrow> int list \<Rightarrow> 'w \<Rightarrow> int \<times> bool \<times> 'w"  \<comment> \<open>an invocation through the capability\<close>
  extern :: "string \<Rightarrow> int list \<Rightarrow> 'w \<Rightarrow> int \<times> 'w"       \<comment> \<open>a call into another interface\<close>
  cos_fault_cntl :: "'w \<Rightarrow> int \<times> 'w"                       \<comment> \<open>\<^verbatim>\<open>COS_CAP_FAULT_UPDATE\<close>\<close>
  cos_get_thd_id :: "'w \<Rightarrow> thdid"
  cos_spd_id :: spdid

definition CSTUB_INVOKE :: "'w env \<Rightarrow> string \<Rightarrow> int list \<Rightarrow> ('m, 'd, 'w) stub \<Rightarrow> int \<times> bool \<times> ('m, 'd, 'w) stub" where
  "CSTUB_INVOKE E f args st = (let (ret, fault, w) = server E f args (world st) in (ret, fault, st\<lparr>world := w\<rparr>))"

definition CSTUB_FAULT_UPDATE :: "'w env \<Rightarrow> ('m, 'd, 'w) stub \<Rightarrow> ('m, 'd, 'w) stub option" where
  "CSTUB_FAULT_UPDATE E st =
     (let (fault_update, w) = cos_fault_cntl E (world st); st = st\<lparr>world := w\<rparr> in
      if fault_update \<le> 0 then None
      else Some (st\<lparr>global_fault_cnt := global_fault_cnt st + 1\<rparr>))"

definition call_extern :: "'w env \<Rightarrow> string \<Rightarrow> int list \<Rightarrow> ('m, 'd, 'w) stub \<Rightarrow> int \<times> ('m, 'd, 'w) stub" where
  "call_extern E f args st = (let (ret, w) = extern E f args (world st) in (ret, st\<lparr>world := w\<rparr>))"

text \<open>
  The body of every stub function: \<open>upd\<close> brings the descriptor up to date, \<open>ivk\<close> invokes the
  server, \<open>post\<close> is the constant \<^verbatim>\<open>block_cli_if_desc_update_post_fault\<close> returns, and \<open>track\<close>
  records the result.
\<close>

definition cstub_turn :: "'w env \<Rightarrow> (('m, 'd, 'w) stub \<Rightarrow> ('m, 'd, 'w) stub option) \<Rightarrow>
    (('m, 'd, 'w) stub \<Rightarrow> (int \<times> bool \<times> ('m, 'd, 'w) stub) option) \<Rightarrow> int \<Rightarrow>
    (int \<Rightarrow> ('m, 'd, 'w) stub \<Rightarrow> (int \<times> ('m, 'd, 'w) stub) option) \<Rightarrow>
    ('m, 'd, 'w) stub \<Rightarrow> (int turn \<times> ('m, 'd, 'w) stub) option" where
  "cstub_turn E upd ivk post track st = do {
     st \<leftarrow> upd st;
     (ret, fault, st) \<leftarrow> ivk st;
     st \<leftarrow> (if fault then CSTUB_FAULT_UPDATE E st else Some st);
     if fault \<and> post \<noteq> 0 then Some (Redo, st)
     else do {
       (ret, st) \<leftarrow> track ret st;
       if ret = - ELOOP then Some (Redo, st) else Some (Return ret, st) } }"

definition cstub_redo :: "nat \<Rightarrow> 'w env \<Rightarrow> (('m, 'd, 'w) stub \<Rightarrow> ('m, 'd, 'w) stub option) \<Rightarrow>
    (('m, 'd, 'w) stub \<Rightarrow> (int \<times> bool \<times> ('m, 'd, 'w) stub) option) \<Rightarrow> int \<Rightarrow>
    (int \<Rightarrow> ('m, 'd, 'w) stub \<Rightarrow> (int \<times> ('m, 'd, 'w) stub) option) \<Rightarrow>
    ('m, 'd, 'w) stub \<Rightarrow> (int \<times> ('m, 'd, 'w) stub) option" where
  "cstub_redo n E upd ivk post track = redo n (cstub_turn E upd ivk post track)"

text \<open>The fields every descriptor has; \<open>'s\<close> are the state codes of the interface.\<close>

record 's desc_track =
  state :: 's
  next_state :: 's
  fault_cnt :: "64 word"

text \<open>The counter as it is stored in a descriptor, from \<^verbatim>\<open>unsigned long\<close> to \<^verbatim>\<open>unsigned long long\<close>.\<close>

definition fault_now :: "('m, 'd, 'w) stub \<Rightarrow> 64 word" where
  "fault_now st = ucast (global_fault_cnt st)"

lemma fault_now_simps [simp]: "fault_now (st\<lparr>world := w\<rparr>) = fault_now st" "fault_now (put_desc a f st) = fault_now st"
  by (simp_all add: fault_now_def)

text \<open>A descriptor that was up to date before a fault is not after it, also when the counter wraps.\<close>

lemma fault_now_Suc: "fault_now (st\<lparr>global_fault_cnt := global_fault_cnt st + 1\<rparr>) \<noteq> fault_now st"
proof -
  have u: "uint (ucast g :: 64 word) = uint g" for g :: u32
    using uint_lt2p [of g] by (simp add: unsigned_ucast_eq take_bit_int_eq_self)
  have "uint (global_fault_cnt st + 1) \<noteq> uint (global_fault_cnt st)" by (simp flip: word_uint_eq_iff)
  then show ?thesis using u [of "global_fault_cnt st + 1"] u [of "global_fault_cnt st"] by (auto simp: fault_now_def)
qed

section \<open>Servers that fail a bounded number of times\<close>

text \<open>
  \<open>fails_within E b\<close>: in a world \<open>w\<close> at most \<open>b w\<close> more invocations fault or come back with
  \<^verbatim>\<open>-EINVAL\<close> or \<^verbatim>\<open>-ELOOP\<close>, and the kernel accepts every fault update. This is what the
  liveness of a stub rests on: the code has no bound on its retries.
\<close>

definition fails_within :: "'w env \<Rightarrow> ('w \<Rightarrow> nat) \<Rightarrow> bool" where
  "fails_within E b \<longleftrightarrow>
     (\<forall>f args w. case server E f args w of (ret, fault, w') \<Rightarrow>
        b w' \<le> b w \<and> (fault \<or> ret = - EINVAL \<or> ret = - ELOOP \<longrightarrow> b w' < b w)) \<and>
     (\<forall>f args w. case extern E f args w of (ret, w') \<Rightarrow> b w' \<le> b w) \<and>
     (\<forall>w. case cos_fault_cntl E w of (r, w') \<Rightarrow> 0 < r \<and> b w' \<le> b w)"

lemma invoke_frame:
  "CSTUB_INVOKE E f args st = (ret, fault, st') \<Longrightarrow> \<exists>w. st' = st\<lparr>world := w\<rparr>"
  by (auto simp: CSTUB_INVOKE_def split: prod.splits)

lemma fault_update_frame:
  "CSTUB_FAULT_UPDATE E st = Some st' \<Longrightarrow> \<exists>w. st' = st\<lparr>world := w, global_fault_cnt := global_fault_cnt st + 1\<rparr>"
  by (auto simp: CSTUB_FAULT_UPDATE_def Let_def split: prod.splits if_splits)

lemma fails_within_server:
  assumes "fails_within E b" "server E f args w = (ret, fault, w')"
  shows "b w' \<le> b w \<and> (fault \<or> ret = - EINVAL \<or> ret = - ELOOP \<longrightarrow> b w' < b w)"
proof -
  have "case server E f args w of (ret, fault, w') \<Rightarrow>
      b w' \<le> b w \<and> (fault \<or> ret = - EINVAL \<or> ret = - ELOOP \<longrightarrow> b w' < b w)"
    using assms(1) unfolding fails_within_def by (elim conjE) simp
  then show ?thesis using assms(2) by simp
qed

lemma fails_within_cntl:
  assumes "fails_within E b" "cos_fault_cntl E w = (r, w')"
  shows "0 < r" "b w' \<le> b w"
proof -
  have "case cos_fault_cntl E w of (r, w') \<Rightarrow> 0 < r \<and> b w' \<le> b w"
    using assms(1) unfolding fails_within_def by (elim conjE) simp
  then show "0 < r" "b w' \<le> b w" using assms(2) by simp_all
qed

lemma fails_within_extern:
  assumes "fails_within E b" "extern E f args w = (r, w')"
  shows "b w' \<le> b w"
proof -
  have "case extern E f args w of (ret, w') \<Rightarrow> b w' \<le> b w"
    using assms(1) unfolding fails_within_def by (elim conjE) simp
  then show ?thesis using assms(2) by simp
qed

lemma invoke_budget:
  "fails_within E b \<Longrightarrow> CSTUB_INVOKE E f args st = (ret, fault, st') \<Longrightarrow>
   b (world st') \<le> b (world st) \<and> (fault \<or> ret = - EINVAL \<or> ret = - ELOOP \<longrightarrow> b (world st') < b (world st))"
  unfolding fails_within_def CSTUB_INVOKE_def by (fastforce split: prod.splits)

lemma fault_update_budget:
  assumes "fails_within E b"
  shows "\<exists>st'. CSTUB_FAULT_UPDATE E st = Some st' \<and> b (world st') \<le> b (world st)"
proof -
  obtain r w where r: "cos_fault_cntl E (world st) = (r, w)" by (cases "cos_fault_cntl E (world st)")
  then have "0 < r" "b w \<le> b (world st)" using assms by (auto simp: fails_within_def split: prod.splits)
  then show ?thesis using r by (simp add: CSTUB_FAULT_UPDATE_def)
qed

section \<open>The contract of a stub function\<close>

text \<open>
  A stub function comes back with the postcondition \<open>Q\<close> if its parts come back and keep \<open>I\<close>. The
  measure is the number of failures the server has left: a turn that goes round again has used one
  up, either by a fault or by a result that \<open>track\<close> turns into \<^verbatim>\<open>-ELOOP\<close>.
\<close>

lemma cstub_redo_total:
  fixes st :: "('m, 'd, 'w) stub"
  assumes fw: "fails_within E b" and I: "I st" and fuel: "b (world st) < n" and post: "post \<noteq> 0"
    and upd: "\<And>s. I s \<Longrightarrow> \<exists>s'. upd s = Some s' \<and> J s' \<and> b (world s') \<le> b (world s)"
    and ivk: "\<And>s. J s \<Longrightarrow> \<exists>ret fault s'. ivk s = Some (ret, fault, s') \<and> K ret fault s' \<and>
        b (world s') \<le> b (world s) \<and> (fault \<or> ret = - EINVAL \<or> ret = - ELOOP \<longrightarrow> b (world s') < b (world s))"
    and flt: "\<And>ret s s'. K ret True s \<Longrightarrow> CSTUB_FAULT_UPDATE E s = Some s' \<Longrightarrow> I s'"
    and track: "\<And>ret s. K ret False s \<Longrightarrow> \<exists>ret' s'. track ret s = Some (ret', s') \<and> b (world s') \<le> b (world s) \<and>
        (if ret' = - ELOOP then I s' \<and> (ret = - EINVAL \<or> ret = - ELOOP) else Q ret' s')"
  shows "\<exists>r st'. cstub_redo n E upd ivk post track st = Some (r, st') \<and> Q r st'"
  unfolding cstub_redo_def
proof (rule redo_total [where I = I and mu = "\<lambda>s. b (world s)"])
  fix s assume s: "I s"
  obtain s1 where s1: "upd s = Some s1" "J s1" "b (world s1) \<le> b (world s)" using upd [OF s] by blast
  obtain ret fault s2 where s2: "ivk s1 = Some (ret, fault, s2)" "K ret fault s2" "b (world s2) \<le> b (world s1)"
    "fault \<or> ret = - EINVAL \<or> ret = - ELOOP \<longrightarrow> b (world s2) < b (world s1)" using ivk [OF s1(2)] by blast
  show "(\<exists>s'. cstub_turn E upd ivk post track s = Some (Redo, s') \<and> I s' \<and> b (world s') < b (world s))
    \<or> (\<exists>r s'. cstub_turn E upd ivk post track s = Some (Return r, s') \<and> Q r s')"
  proof (cases fault)
    case True
    obtain s3 where s3: "CSTUB_FAULT_UPDATE E s2 = Some s3" "b (world s3) \<le> b (world s2)"
      using fault_update_budget [OF fw] by blast
    have "cstub_turn E upd ivk post track s = Some (Redo, s3)"
      using s1(1) s2(1) s3(1) True post by (simp add: cstub_turn_def)
    moreover have "b (world s3) < b (world s)" using s1(3) s2(4) s3(2) True by simp
    ultimately show ?thesis using flt [of ret s2 s3] s2(2) s3(1) True by simp
  next
    case False
    obtain ret' s3 where s3: "track ret s2 = Some (ret', s3)" "b (world s3) \<le> b (world s2)"
      "if ret' = - ELOOP then I s3 \<and> (ret = - EINVAL \<or> ret = - ELOOP) else Q ret' s3" using track [of ret s2] s2(2) False by auto
    show ?thesis
    proof (cases "ret' = - ELOOP")
      case True
      then have "cstub_turn E upd ivk post track s = Some (Redo, s3)"
        using s1(1) s2(1) s3(1) False by (simp add: cstub_turn_def)
      moreover have "b (world s3) < b (world s)" using s1(3) s2(4) s3(2,3) True by auto
      ultimately show ?thesis using s3(3) True by auto
    next
      case no: False
      then have "cstub_turn E upd ivk post track s = Some (Return ret', s3)"
        using s1(1) s2(1) s3(1) False by (simp add: cstub_turn_def)
      then show ?thesis using s3(3) no by auto
    qed
  qed
qed (rule I, rule fuel)

text \<open>Whatever the server does: an invariant of the parts holds whenever the stub returns.\<close>

lemma cstub_redo_partial:
  fixes st :: "('m, 'd, 'w) stub"
  assumes run: "cstub_redo n E upd ivk post track st = Some (r, st')" and I: "I st" and post: "post \<noteq> 0"
    and upd: "\<And>s s'. I s \<Longrightarrow> upd s = Some s' \<Longrightarrow> J s'"
    and ivk: "\<And>s ret fault s'. J s \<Longrightarrow> ivk s = Some (ret, fault, s') \<Longrightarrow> K ret fault s'"
    and flt: "\<And>ret s s'. K ret True s \<Longrightarrow> CSTUB_FAULT_UPDATE E s = Some s' \<Longrightarrow> I s'"
    and track: "\<And>ret s ret' s'. K ret False s \<Longrightarrow> track ret s = Some (ret', s') \<Longrightarrow>
        if ret' = - ELOOP then I s' else Q ret' s'"
  shows "Q r st'"
proof -
  have turn: "(t = Redo \<longrightarrow> I s') \<and> (\<forall>r. t = Return r \<longrightarrow> Q r s')"
    if s: "I s" and turn: "cstub_turn E upd ivk post track s = Some (t, s')" for s t s'
  proof -
    from turn obtain s1 ret fault s2 where s1: "upd s = Some s1" and s2: "ivk s1 = Some (ret, fault, s2)"
      by (auto simp: cstub_turn_def bind_eq_Some_conv)
    have k: "K ret fault s2" using ivk [OF upd [OF s s1] s2] .
    show ?thesis
      using turn s1 s2 post k flt [of ret s2] track [of ret s2]
      by (cases fault) (auto simp: cstub_turn_def bind_eq_Some_conv split: if_splits)
  qed
  show ?thesis
    by (rule redo_partial [OF run [unfolded cstub_redo_def], where I = I]) (use I turn in blast)+
qed

section \<open>The reference retry loop\<close>

text \<open>
  A stub that keeps no state on the server only has to invoke again after a fault, and after the
  results in \<open>again\<close>. On the state of the server alone this is the following loop.
\<close>

definition retry_turn :: "int set \<Rightarrow> 'w env \<Rightarrow> string \<Rightarrow> int list \<Rightarrow> 'w \<Rightarrow> (int turn \<times> 'w) option" where
  "retry_turn again E f args w = (case server E f args w of (ret, fault, w) \<Rightarrow>
     if fault then (case cos_fault_cntl E w of (u, w) \<Rightarrow> if u \<le> 0 then None else Some (Redo, w))
     else if ret \<in> again then Some (Redo, w) else Some (Return ret, w))"

definition retry :: "int set \<Rightarrow> nat \<Rightarrow> 'w env \<Rightarrow> string \<Rightarrow> int list \<Rightarrow> 'w \<Rightarrow> (int \<times> 'w) option" where
  "retry again n E f args w = redo n (retry_turn again E f args) w"

text \<open>With finitely many failures left it comes back with an answer given without a fault.\<close>

lemma retry_total:
  assumes fw: "fails_within E b" and again: "again \<subseteq> {- EINVAL, - ELOOP}" and fuel: "b w < n"
  shows "\<exists>r w'. retry again n E f args w = Some (r, w') \<and> r \<notin> again \<and> (\<exists>v. server E f args v = (r, False, w'))"
  unfolding retry_def
proof (rule redo_total [where I = "\<lambda>_. True" and mu = b, OF TrueI _ fuel])
  fix w
  obtain ret fault v where s: "server E f args w = (ret, fault, v)" by (metis prod_cases3)
  obtain u x where c: "cos_fault_cntl E v = (u, x)" by (cases "cos_fault_cntl E v")
  note b1 = fails_within_server [OF fw s] and b2 = fails_within_cntl [OF fw c]
  show "(\<exists>w'. retry_turn again E f args w = Some (Redo, w') \<and> True \<and> b w' < b w) \<or>
    (\<exists>r w'. retry_turn again E f args w = Some (Return r, w') \<and> r \<notin> again \<and> (\<exists>v. server E f args v = (r, False, w')))"
  proof (cases "fault \<or> ret \<in> again")
    case True
    then have "b v < b w" using b1 again by blast
    then show ?thesis using True s c b2 by (auto simp: retry_turn_def)
  qed (use s in \<open>auto simp: retry_turn_def\<close>)
qed

text \<open>Results that are never given make no difference.\<close>

lemma retry_again_cong:
  assumes "\<And>w ret w'. server E f args w = (ret, False, w') \<Longrightarrow> ret \<notin> again"
  shows "retry again n E f args = retry {} n E f args"
proof -
  have "retry_turn again E f args = retry_turn {} E f args"
    using assms by (intro ext) (auto simp: retry_turn_def split: prod.split)
  then show ?thesis by (intro ext) (simp add: retry_def)
qed

section \<open>The reference restore loop\<close>

text \<open>
  A stub whose server forgets an object in a fault has to bring it back before the next invocation:
  \<open>restore\<close> is what does that, and the flag says that it has not been done since the last fault.
\<close>

definition restore_turn :: "('w \<Rightarrow> 'w) \<Rightarrow> int set \<Rightarrow> 'w env \<Rightarrow> string \<Rightarrow> int list \<Rightarrow> 'w \<times> bool \<Rightarrow> (int turn \<times> 'w \<times> bool) option" where
  "restore_turn restore again E f args s = (case s of (w, lost) \<Rightarrow>
     case server E f args (if lost then restore w else w) of (ret, fault, w) \<Rightarrow>
       if fault then (case cos_fault_cntl E w of (u, w) \<Rightarrow> if u \<le> 0 then None else Some (Redo, w, True))
       else if ret \<in> again then Some (Redo, w, False) else Some (Return ret, w, False))"

definition restore_loop :: "('w \<Rightarrow> 'w) \<Rightarrow> int set \<Rightarrow> nat \<Rightarrow> 'w env \<Rightarrow> string \<Rightarrow> int list \<Rightarrow> 'w \<times> bool \<Rightarrow> (int \<times> 'w \<times> bool) option" where
  "restore_loop restore again n E f args s = redo n (restore_turn restore again E f args) s"

lemma restore_again_cong:
  assumes "\<And>w ret w'. server E f args w = (ret, False, w') \<Longrightarrow> ret \<notin> again"
  shows "restore_loop restore again n E f args = restore_loop restore {} n E f args"
proof -
  have "restore_turn restore again E f args = restore_turn restore {} E f args"
    using assms by (intro ext) (auto simp: restore_turn_def split: prod.split)
  then show ?thesis by (intro ext) (simp add: restore_loop_def)
qed

section \<open>A server for the examples\<close>

text \<open>
  A world that counts the failures left: invocations fault when the count is odd and are answered
  with \<^verbatim>\<open>-EINVAL\<close> when it is even and not 0; the functions in \<open>cs\<close> never fail and return
  an id; every other call returns 0.
\<close>

definition flaky :: "string list \<Rightarrow> nat env" where
  "flaky cs = \<lparr>server = (\<lambda>f args w. if f \<in> set cs then (100 + int w, False, w)
       else if w = 0 then (0, False, 0) else if odd w then (0, True, w - 1) else (- EINVAL, False, w - 1)),
     extern = (\<lambda>f args w. (1, w)), cos_fault_cntl = (\<lambda>w. (1, w)), cos_get_thd_id = (\<lambda>w. 7), cos_spd_id = 3\<rparr>"

lemma flaky_fails_within: "fails_within (flaky cs) (\<lambda>w. w)"
  by (auto simp: fails_within_def flaky_def)

text \<open>A server that faults as often as the world says and then answers every call with 5.\<close>

definition faulty :: "nat env" where
  "faulty = (flaky [])\<lparr>server := (\<lambda>f args w. if w = 0 then (5, False, 0) else (0, True, w - 1))\<rparr>"

lemma faulty_simps:
  "server faulty f args w = (if w = 0 then (5, False, 0) else (0, True, w - 1))" "cos_get_thd_id faulty w = 7"
  "cos_fault_cntl faulty w = (1, w)" "extern faulty f args w = (1, w)"
  by (simp_all add: faulty_def flaky_def)

end
