(* ===== verification/LockStub.thy ===== *)
theory LockStub
  imports Cstub
begin

text \<open>
  The generated client stub of the lock interface,
  \<^verbatim>\<open>components/interface/lock/__stubs_rec/__IDL_c_stub.c\<close>. A client names a lock by an id the
  stub chooses; the descriptor of that id holds the id the lock server knows the lock by. When the
  server has been rebooted it does not know its ids any more and answers \<^verbatim>\<open>-EINVAL\<close>; the stub
  then allocates a new server lock, moves its id into the old descriptor and tries again.
\<close>

section \<open>State\<close>

datatype lock_state_codes =
  state_lock_component_alloc | state_lock_component_free | state_lock_component_take
| state_lock_component_pretake | state_lock_component_release | lock_state_null

record lock_desc = "lock_state_codes desc_track" +
  lk_spdid :: spdid
  lk_lock_id :: int
  lk_thd_id :: int
  lk_server_lock_id :: int

type_synonym 'w lock_stub = "(cos_map, lock_desc, 'w) stub"

text \<open>\<^verbatim>\<open>sizeof(struct desc_track)\<close> on the 32-bit target.\<close>

abbreviation lock_desc_sz :: int where "lock_desc_sz \<equiv> 32"

section \<open>Descriptors\<close>

definition lock_call_desc_lookup :: "int \<Rightarrow> 'w lock_stub \<Rightarrow> addr option" where
  "lock_call_desc_lookup i st = map_lookup i st"

text \<open>
  The id is \<^verbatim>\<open>unsigned\<close> here, so the -1 of a full map counts as a large id and ends the loop.
\<close>

definition lock_call_desc_alloc :: "nat \<Rightarrow> 'w lock_stub \<Rightarrow> (addr \<times> 'w lock_stub) option" where
  "lock_call_desc_alloc n st = do {
     (desc, st) \<leftarrow> map_desc_alloc n lock_desc_sz (\<lambda>map_id. ul map_id \<ge> 2)
       (\<lambda>map_id d. d\<lparr>lk_lock_id := map_id, lk_server_lock_id := -1\<rparr>) st;
     assert_that (desc \<noteq> NULL \<and> ul (lk_lock_id (descs st desc)) \<ge> 1);
     Some (desc, st) }"

definition lock_call_desc_dealloc :: "addr \<Rightarrow> 'w lock_stub \<Rightarrow> 'w lock_stub option" where
  "lock_call_desc_dealloc desc st =
     map_desc_dealloc lock_desc_sz lk_lock_id (\<lambda>d. d\<lparr>lk_server_lock_id := -1\<rparr>) desc st"

definition lock_call_map_init :: "'w lock_stub \<Rightarrow> 'w lock_stub option" where
  "lock_call_map_init st = map_init_once st"

definition lock_call_desc_cons :: "addr \<Rightarrow> int \<Rightarrow> spdid \<Rightarrow> 'w lock_stub \<Rightarrow> 'w lock_stub option" where
  "lock_call_desc_cons desc i spdid st = do {
     assert_that (desc \<noteq> NULL);
     Some (put_desc desc (\<lambda>d. d\<lparr>lk_server_lock_id := i, lk_spdid := spdid, fault_cnt := fault_now st\<rparr>) st) }"

definition lock_call_desc_update :: "int \<Rightarrow> lock_state_codes \<Rightarrow> 'w lock_stub \<Rightarrow> (addr \<times> 'w lock_stub) option" where
  "lock_call_desc_update i to_state st =
     (if i = 0 then Some (NULL, st)
      else do {
        desc \<leftarrow> lock_call_desc_lookup i st;
        if desc = NULL then Some (desc, st)
        else let st = put_desc desc (\<lambda>d. d\<lparr>next_state := to_state\<rparr>) st in
          if fault_cnt (descs st desc) = fault_now st then Some (desc, st)
          else Some (desc, put_desc desc (\<lambda>d. d\<lparr>fault_cnt := fault_now st\<rparr>) st) })"

section \<open>Allocation\<close>

definition lock_track_alloc :: "nat \<Rightarrow> int \<Rightarrow> spdid \<Rightarrow> 'w lock_stub \<Rightarrow> (int \<times> 'w lock_stub) option" where
  "lock_track_alloc n ret spdid st =
     (if ret = - EINVAL then Some (ret, st)
      else do {
        (desc, st) \<leftarrow> lock_call_desc_alloc n st;
        assert_that (desc \<noteq> NULL);
        st \<leftarrow> lock_call_desc_cons desc ret spdid st;
        let st = put_desc desc (\<lambda>d. d\<lparr>state := state_lock_component_alloc\<rparr>) st in
        Some (lk_lock_id (descs st desc), st) })"

definition lock_desc_update_alloc :: "spdid \<Rightarrow> 'w lock_stub \<Rightarrow> 'w lock_stub option" where
  "lock_desc_update_alloc spdid st = Some st"

definition lock_post_fault_alloc :: int where
  "lock_post_fault_alloc = 1"

definition lock_invoke_alloc :: "'w env \<Rightarrow> spdid \<Rightarrow> 'w lock_stub \<Rightarrow> (int \<times> bool \<times> 'w lock_stub) option" where
  "lock_invoke_alloc E spdid st = Some (CSTUB_INVOKE E ''lock_component_alloc'' [spdid] st)"

definition lock_component_alloc :: "nat \<Rightarrow> 'w env \<Rightarrow> spdid \<Rightarrow> 'w lock_stub \<Rightarrow> (int \<times> 'w lock_stub) option" where
  "lock_component_alloc n E spdid st = do {
     st \<leftarrow> lock_call_map_init st;
     cstub_redo n E (lock_desc_update_alloc spdid) (lock_invoke_alloc E spdid) lock_post_fault_alloc
       (\<lambda>ret. lock_track_alloc n ret spdid) st }"

section \<open>Recovery\<close>

definition lock_recover_data :: "addr \<Rightarrow> 'w lock_stub \<Rightarrow> 'w lock_stub option" where
  "lock_recover_data desc st = Some st"

definition lock_basic_id :: "nat \<Rightarrow> 'w env \<Rightarrow> int \<Rightarrow> 'w lock_stub \<Rightarrow> 'w lock_stub option" where
  "lock_basic_id n E i st = do {
     assert_that (i \<noteq> 0);
     desc \<leftarrow> lock_call_desc_lookup i st;
     assert_that (desc \<noteq> NULL);
     (retval, st) \<leftarrow> lock_component_alloc n E (lk_spdid (descs st desc)) st;
     assert_that (retval \<noteq> 0);
     new_desc \<leftarrow> lock_call_desc_lookup retval st;
     assert_that (new_desc \<noteq> NULL);
     let st = put_desc desc (\<lambda>d. d\<lparr>lk_server_lock_id := lk_server_lock_id (descs st new_desc),
         state := state_lock_component_alloc, fault_cnt := fault_now st\<rparr>) st in do {
     st \<leftarrow> lock_call_desc_dealloc new_desc st;
     lock_recover_data desc st } }"

section \<open>Pretake, take, release, free\<close>

definition lock_track_pretake :: "nat \<Rightarrow> 'w env \<Rightarrow> int \<Rightarrow> spdid \<Rightarrow> int \<Rightarrow> int \<Rightarrow> 'w lock_stub \<Rightarrow> (int \<times> 'w lock_stub) option" where
  "lock_track_pretake n E ret spdid lock_id thd_id st = do {
     desc \<leftarrow> lock_call_desc_lookup lock_id st;
     if ret = - EINVAL then do { st \<leftarrow> lock_basic_id n E lock_id st; Some (- ELOOP, st) }
     else Some (ret, st) }"

definition lock_desc_update_pretake :: "spdid \<Rightarrow> int \<Rightarrow> int \<Rightarrow> 'w lock_stub \<Rightarrow> 'w lock_stub option" where
  "lock_desc_update_pretake spdid lock_id thd_id st =
     map_option snd (lock_call_desc_update lock_id state_lock_component_pretake st)"

definition lock_post_fault_pretake :: int where
  "lock_post_fault_pretake = 1"

definition lock_invoke_pretake :: "'w env \<Rightarrow> spdid \<Rightarrow> int \<Rightarrow> int \<Rightarrow> 'w lock_stub \<Rightarrow> (int \<times> bool \<times> 'w lock_stub) option" where
  "lock_invoke_pretake E spdid lock_id thd_id st = do {
     desc \<leftarrow> lock_call_desc_lookup lock_id st;
     d \<leftarrow> deref desc st;
     Some (CSTUB_INVOKE E ''lock_component_pretake'' [spdid, lk_server_lock_id d, thd_id] st) }"

definition lock_track_release :: "int \<Rightarrow> spdid \<Rightarrow> int \<Rightarrow> 'w lock_stub \<Rightarrow> (int \<times> 'w lock_stub) option" where
  "lock_track_release ret spdid lock_id st = do {
     desc \<leftarrow> lock_call_desc_lookup lock_id st;
     Some (if ret = - EINVAL then 0 else ret, st) }"

definition lock_desc_update_release :: "spdid \<Rightarrow> int \<Rightarrow> 'w lock_stub \<Rightarrow> 'w lock_stub option" where
  "lock_desc_update_release spdid lock_id st =
     map_option snd (lock_call_desc_update lock_id state_lock_component_release st)"

definition lock_post_fault_release :: int where
  "lock_post_fault_release = 1"

definition lock_invoke_release :: "'w env \<Rightarrow> spdid \<Rightarrow> int \<Rightarrow> 'w lock_stub \<Rightarrow> (int \<times> bool \<times> 'w lock_stub) option" where
  "lock_invoke_release E spdid lock_id st = do {
     desc \<leftarrow> lock_call_desc_lookup lock_id st;
     d \<leftarrow> deref desc st;
     Some (CSTUB_INVOKE E ''lock_component_release'' [spdid, lk_server_lock_id d] st) }"

definition lock_track_take :: "nat \<Rightarrow> 'w env \<Rightarrow> int \<Rightarrow> spdid \<Rightarrow> int \<Rightarrow> int \<Rightarrow> 'w lock_stub \<Rightarrow> (int \<times> 'w lock_stub) option" where
  "lock_track_take n E ret spdid lock_id thd_id st = do {
     desc \<leftarrow> lock_call_desc_lookup lock_id st;
     if ret = - EINVAL then do { st \<leftarrow> lock_basic_id n E lock_id st; Some (- ELOOP, st) }
     else Some (ret, st) }"

definition lock_desc_update_take :: "spdid \<Rightarrow> int \<Rightarrow> int \<Rightarrow> 'w lock_stub \<Rightarrow> 'w lock_stub option" where
  "lock_desc_update_take spdid lock_id thd_id st =
     map_option snd (lock_call_desc_update lock_id state_lock_component_take st)"

definition lock_post_fault_take :: int where
  "lock_post_fault_take = 1"

definition lock_invoke_take :: "'w env \<Rightarrow> spdid \<Rightarrow> int \<Rightarrow> int \<Rightarrow> 'w lock_stub \<Rightarrow> (int \<times> bool \<times> 'w lock_stub) option" where
  "lock_invoke_take E spdid lock_id thd_id st = do {
     desc \<leftarrow> lock_call_desc_lookup lock_id st;
     d \<leftarrow> deref desc st;
     Some (CSTUB_INVOKE E ''lock_component_take'' [spdid, lk_server_lock_id d, thd_id] st) }"

definition lock_desc_update_free :: "spdid \<Rightarrow> int \<Rightarrow> 'w lock_stub \<Rightarrow> 'w lock_stub option" where
  "lock_desc_update_free spdid lock_id st =
     map_option snd (lock_call_desc_update lock_id state_lock_component_free st)"

definition lock_post_fault_free :: int where
  "lock_post_fault_free = 1"

definition lock_invoke_free :: "'w env \<Rightarrow> spdid \<Rightarrow> int \<Rightarrow> 'w lock_stub \<Rightarrow> (int \<times> bool \<times> 'w lock_stub) option" where
  "lock_invoke_free E spdid lock_id st = do {
     desc \<leftarrow> lock_call_desc_lookup lock_id st;
     d \<leftarrow> deref desc st;
     Some (CSTUB_INVOKE E ''lock_component_free'' [spdid, lk_server_lock_id d] st) }"

definition lock_track_free :: "int \<Rightarrow> spdid \<Rightarrow> int \<Rightarrow> 'w lock_stub \<Rightarrow> (int \<times> 'w lock_stub) option" where
  "lock_track_free ret spdid lock_id st = do {
     desc \<leftarrow> lock_call_desc_lookup lock_id st;
     st \<leftarrow> (if desc \<noteq> NULL then lock_call_desc_dealloc desc st else Some st);
     Some (ret, st) }"

definition lock_component_pretake :: "nat \<Rightarrow> 'w env \<Rightarrow> spdid \<Rightarrow> int \<Rightarrow> int \<Rightarrow> 'w lock_stub \<Rightarrow> (int \<times> 'w lock_stub) option" where
  "lock_component_pretake n E spdid lock_id thd_id st = do {
     st \<leftarrow> lock_call_map_init st;
     cstub_redo n E (lock_desc_update_pretake spdid lock_id thd_id) (lock_invoke_pretake E spdid lock_id thd_id)
       lock_post_fault_pretake (\<lambda>ret. lock_track_pretake n E ret spdid lock_id thd_id) st }"

definition lock_component_release :: "nat \<Rightarrow> 'w env \<Rightarrow> spdid \<Rightarrow> int \<Rightarrow> 'w lock_stub \<Rightarrow> (int \<times> 'w lock_stub) option" where
  "lock_component_release n E spdid lock_id st = do {
     st \<leftarrow> lock_call_map_init st;
     cstub_redo n E (lock_desc_update_release spdid lock_id) (lock_invoke_release E spdid lock_id)
       lock_post_fault_release (\<lambda>ret. lock_track_release ret spdid lock_id) st }"

definition lock_component_take :: "nat \<Rightarrow> 'w env \<Rightarrow> spdid \<Rightarrow> int \<Rightarrow> int \<Rightarrow> 'w lock_stub \<Rightarrow> (int \<times> 'w lock_stub) option" where
  "lock_component_take n E spdid lock_id thd_id st = do {
     st \<leftarrow> lock_call_map_init st;
     cstub_redo n E (lock_desc_update_take spdid lock_id thd_id) (lock_invoke_take E spdid lock_id thd_id)
       lock_post_fault_take (\<lambda>ret. lock_track_take n E ret spdid lock_id thd_id) st }"

definition lock_component_free :: "nat \<Rightarrow> 'w env \<Rightarrow> spdid \<Rightarrow> int \<Rightarrow> 'w lock_stub \<Rightarrow> (int \<times> 'w lock_stub) option" where
  "lock_component_free n E spdid lock_id st = do {
     st \<leftarrow> lock_call_map_init st;
     cstub_redo n E (lock_desc_update_free spdid lock_id) (lock_invoke_free E spdid lock_id)
       lock_post_fault_free (\<lambda>ret. lock_track_free ret spdid lock_id) st }"

section \<open>The descriptor table\<close>

abbreviation lock_table :: "'w lock_stub \<Rightarrow> bool" where
  "lock_table \<equiv> map_table lock_desc_sz lk_lock_id"

lemma lock_call_desc_lookup_eq: "lock_call_desc_lookup = map_lookup"
  by (intro ext) (simp add: lock_call_desc_lookup_def)

lemma lock_call_desc_dealloc_eq:
  "lock_call_desc_dealloc = map_desc_dealloc lock_desc_sz lk_lock_id (\<lambda>d. d\<lparr>lk_server_lock_id := -1\<rparr>)"
  by (intro ext) (simp add: lock_call_desc_dealloc_def)

abbreviation lock_asg :: "int \<Rightarrow> lock_desc \<Rightarrow> lock_desc" where
  "lock_asg \<equiv> (\<lambda>map_id d. d\<lparr>lk_lock_id := map_id, lk_server_lock_id := -1\<rparr>)"

abbreviation lock_big :: "int \<Rightarrow> bool" where
  "lock_big \<equiv> (\<lambda>map_id. ul map_id \<ge> 2)"

lemma lock_big: "2 \<le> i \<Longrightarrow> lock_big i" "lock_big i \<Longrightarrow> i < 2 \<Longrightarrow> i < 0" "lock_big (-1)"
  by (auto simp: ul_def split: if_splits)

text \<open>The assertion at the end of \<^verbatim>\<open>call_desc_alloc\<close> never fails.\<close>

lemma lock_call_desc_alloc_eq:
  assumes "lock_table st"
  shows "lock_call_desc_alloc n st = map_desc_alloc n lock_desc_sz lock_big lock_asg st"
proof (cases "map_desc_alloc n lock_desc_sz lock_big lock_asg st")
  case None
  then show ?thesis by (simp add: lock_call_desc_alloc_def)
next
  case (Some r)
  obtain a st' where r: "r = (a, st')" by (cases r)
  have "a \<noteq> NULL \<and> (lk_lock_id (descs st' a) = -1 \<or> 2 \<le> lk_lock_id (descs st' a))"
    using map_desc_alloc_ok [where key = lk_lock_id, OF assms _ lock_big(1,2) Some [unfolded r]] by auto
  then have "a \<noteq> NULL \<and> ul (lk_lock_id (descs st' a)) \<ge> 1" by (auto simp: ul_def)
  then show ?thesis using Some r by (simp add: lock_call_desc_alloc_def)
qed

interpretation lk: desc_map lock_table "\<lambda>_. True" lock_call_desc_lookup lk_lock_id
  lock_call_desc_dealloc lock_call_desc_alloc map_primed map_room
  unfolding lock_call_desc_lookup_eq lock_call_desc_dealloc_eq
proof (rule desc_map_alloc_cong [OF _ lock_call_desc_alloc_eq])
  show "desc_map lock_table (\<lambda>_. True) map_lookup lk_lock_id
    (map_desc_dealloc lock_desc_sz lk_lock_id (\<lambda>d. d\<lparr>lk_server_lock_id := -1\<rparr>))
    (\<lambda>n. map_desc_alloc n lock_desc_sz lock_big lock_asg) map_primed map_room"
    by (rule desc_mapI) (auto simp: lock_big intro: lock_big(2))
qed

section \<open>Allocating a lock\<close>

text \<open>The client's view of its locks.\<close>

abbreviation lock_view :: "'w lock_stub \<Rightarrow> int \<Rightarrow> lock_desc option" where
  "lock_view \<equiv> view lock_call_desc_lookup"

lemma lock_view_simps [simp]:
  "lock_view (st\<lparr>world := w\<rparr>) = lock_view st" "lock_view (st\<lparr>global_fault_cnt := c\<rparr>) = lock_view st"
  "keeps lock_call_desc_lookup s (st\<lparr>world := w\<rparr>) = keeps lock_call_desc_lookup s st"
  "keeps lock_call_desc_lookup s (st\<lparr>global_fault_cnt := c\<rparr>) = keeps lock_call_desc_lookup s st"
  by (simp_all add: view_def keeps_def lock_call_desc_lookup_eq fun_eq_iff split: option.split)

text \<open>\<open>r\<close> is a new id whose descriptor records a lock the server just allocated; other ids are as before.\<close>

definition lock_new :: "'w env \<Rightarrow> spdid \<Rightarrow> 'w lock_stub \<Rightarrow> int \<Rightarrow> 'w lock_stub \<Rightarrow> bool" where
  "lock_new E spdid st r st' \<longleftrightarrow> 2 \<le> r \<and> lock_view st r = None \<and>
     (\<exists>d w. lock_view st' r = Some d \<and> lk_spdid d = spdid \<and> lk_lock_id d = r \<and>
        server E ''lock_component_alloc'' [spdid] w = (lk_server_lock_id d, False, world st')) \<and>
     (\<forall>j. 2 \<le> j \<longrightarrow> j \<noteq> r \<longrightarrow> lock_view st' j = lock_view st j)"

lemma lock_track_alloc_ok:
  assumes t: "lock_table s" and tr: "lock_track_alloc n ret spdid s = Some (r, s')" and ret: "ret \<noteq> - EINVAL"
  shows "lock_table s'" "same_rest s s'" "map_primed s \<Longrightarrow> map_primed s'" "r = -1 \<or> 2 \<le> r"
    "r \<noteq> -1 \<Longrightarrow> lock_view s r = None \<and> (\<exists>d. lock_view s' r = Some d \<and> lk_spdid d = spdid \<and>
       lk_lock_id d = r \<and> lk_server_lock_id d = ret)"
    "2 \<le> j \<Longrightarrow> j \<noteq> r \<Longrightarrow> lock_view s' j = lock_view s j" "keeps lock_call_desc_lookup s s'"
proof -
  from tr ret obtain a s1 where al: "lock_call_desc_alloc n s = Some (a, s1)"
    and s1: "s' = put_desc a (\<lambda>d. d\<lparr>lk_server_lock_id := ret, lk_spdid := spdid, fault_cnt := fault_now s1, state := state_lock_component_alloc\<rparr>) s1"
    and r: "r = lk_lock_id (descs s1 a)"
    by (auto simp: lock_track_alloc_def lock_call_desc_cons_def bind_eq_Some_conv Let_def)
  define f :: "lock_desc \<Rightarrow> lock_desc" where "f = (\<lambda>d. d\<lparr>lk_server_lock_id := ret, lk_spdid := spdid, fault_cnt := fault_now s1, state := state_lock_component_alloc\<rparr>)"
  have f: "lk_lock_id (f d) = lk_lock_id d" "lk_spdid (f d) = spdid" "lk_server_lock_id (f d) = ret" for d
    by (simp_all add: f_def)
  have s': "s' = put_desc a f s1" using s1 by (simp add: f_def)
  note ok = lk.alloc_ok [OF t al] and fr = lk.alloc_fresh [OF t al]
  show "lock_table s'" unfolding s' using lk.put_ok [OF _ f(1)] ok by blast
  show "same_rest s s'" using lk.alloc_frame [OF t al] by (simp add: s' same_rest_def)
  show "map_primed s'" if "map_primed s" using lk.alloc_primed [OF t al that] by (simp add: s')
  show "r = -1 \<or> 2 \<le> r" using fr r by blast
  show "keeps lock_call_desc_lookup s s'" using lk.alloc_descs [OF t al TrueI] by (simp add: keeps_def s')
  have v: "lock_view s' j = (if j = r then Some (f (descs s1 a)) else lock_view s j)" if "2 \<le> j" for j
    unfolding s' r by (rule lk.view_alloc_put [OF t al that f(1)])
  show "2 \<le> j \<Longrightarrow> j \<noteq> r \<Longrightarrow> lock_view s' j = lock_view s j" using v by simp
  assume "r \<noteq> -1"
  then have r2: "2 \<le> r" "lock_call_desc_lookup r s = Some NULL" using fr r by blast+
  have "lock_view s r = None" using r2(2) by (simp add: view_def)
  moreover have "lock_view s' r = Some (f (descs s1 a))" using v [OF r2(1)] by simp
  ultimately show "lock_view s r = None \<and> (\<exists>d. lock_view s' r = Some d \<and> lk_spdid d = spdid \<and>
       lk_lock_id d = r \<and> lk_server_lock_id d = ret)"
    using f r by auto
qed

abbreviation lock_stub_ok :: "'w lock_stub \<Rightarrow> bool" where
  "lock_stub_ok \<equiv> map_stub_ok lock_desc_sz lk_lock_id"

lemma lock_stub_okI: "lock_table st \<Longrightarrow> first_map_init st \<Longrightarrow> lock_stub_ok st"
  by (simp add: map_stub_ok_def)

lemma lock_init_ok:
  assumes "lock_stub_ok st"
  obtains st1 where "lock_call_map_init st = Some st1" "lock_table st1" "first_map_init st1"
    "lock_view st1 = lock_view st" "world st1 = world st" "first_map_init st \<longrightarrow> st1 = st"
    "keeps lock_call_desc_lookup st st1"
proof -
  from map_init_once_ok [OF assms] obtain st1 where s: "lock_call_map_init st = Some st1" "lock_table st1"
    "first_map_init st1" "world st1 = world st" "first_map_init st \<longrightarrow> st1 = st"
    by (auto simp: lock_call_map_init_def)
  have "lock_view st1 = lock_view st \<and> keeps lock_call_desc_lookup st st1"
  proof (cases "first_map_init st")
    case False
    then have b: "maps st = blank_map" using assms by (simp add: map_stub_ok_def)
    have e: "maps st1 = empty_map" using s(1) b False
      by (auto simp: lock_call_map_init_def map_init_once_def empty_map_def bind_eq_Some_conv)
    have "lock_view st1 i = None" for i
      using cm.find_unused [OF empty_map_ok(1), of i] empty_map_ok(2)
      by (simp add: view_def lock_call_desc_lookup_eq map_lookup_def e)
    moreover have "lock_call_desc_lookup i st = None" for i
      by (simp add: lock_call_desc_lookup_eq map_lookup_def b blank_map_def cos_map_lookup_def
          cos_vect_lookup_def u_cos_vect_lookup_def)
    ultimately show ?thesis by (auto simp: view_def keeps_def)
  qed (use s in simp)
  then show thesis using that s by blast
qed

text \<open>Whatever the server does: the result is its refusal, or -1 because the map is full, or a new id.\<close>

lemma lock_component_alloc_partial:
  assumes ok: "lock_stub_ok st" and run: "lock_component_alloc n E spdid st = Some (r, st')"
  shows "lock_table st' \<and> first_map_init st' \<and> (first_map_init st \<and> map_primed st \<longrightarrow> map_primed st') \<and>
    keeps lock_call_desc_lookup st st' \<and>
    (if r = - EINVAL \<or> r = -1 then \<forall>j. 2 \<le> j \<longrightarrow> lock_view st' j = lock_view st j else lock_new E spdid st r st')"
proof -
  obtain st1 where i: "lock_call_map_init st = Some st1" and t1: "lock_table st1" "first_map_init st1"
    and v1: "lock_view st1 = lock_view st" and p1: "first_map_init st \<longrightarrow> st1 = st" and k1: "keeps lock_call_desc_lookup st st1"
    by (rule lock_init_ok [OF ok])
  let ?I = "\<lambda>s. lock_table s \<and> first_map_init s \<and> (map_primed st1 \<longrightarrow> map_primed s) \<and> keeps lock_call_desc_lookup st s \<and>
    (\<forall>j. 2 \<le> j \<longrightarrow> lock_view s j = lock_view st j)"
  let ?K = "\<lambda>ret fault s. ?I s \<and> (\<exists>w. server E ''lock_component_alloc'' [spdid] w = (ret, fault, world s))"
  let ?Q = "\<lambda>r s. lock_table s \<and> first_map_init s \<and> (map_primed st1 \<longrightarrow> map_primed s) \<and> keeps lock_call_desc_lookup st s \<and>
    (if r = - EINVAL \<or> r = -1 then \<forall>j. 2 \<le> j \<longrightarrow> lock_view s j = lock_view st j else lock_new E spdid st r s)"
  have "?Q r st'"
  proof (rule cstub_redo_partial [where I = ?I and J = ?I and K = ?K and Q = ?Q])
    show "cstub_redo n E (lock_desc_update_alloc spdid) (lock_invoke_alloc E spdid) lock_post_fault_alloc
       (\<lambda>ret. lock_track_alloc n ret spdid) st1 = Some (r, st')" using run i by (simp add: lock_component_alloc_def)
    show "?I st1" using t1 v1 k1 by simp
  next
    fix s ret fault s' assume "?I s" "lock_invoke_alloc E spdid s = Some (ret, fault, s')"
    then show "?K ret fault s'" by (auto simp: lock_invoke_alloc_def CSTUB_INVOKE_def split: prod.splits)
  next
    fix ret s s' assume "?K ret True s" "CSTUB_FAULT_UPDATE E s = Some s'"
    then show "?I s'" by (auto dest!: fault_update_frame)
  next
    fix ret s r s' assume K: "?K ret False s" and tr: "lock_track_alloc n ret spdid s = Some (r, s')"
    show "if r = - ELOOP then ?I s' else ?Q r s'"
    proof (cases "ret = - EINVAL")
      case True
      then show ?thesis using K tr by (auto simp: lock_track_alloc_def)
    next
      case False
      have t: "lock_table s" using K by simp
      note p = lock_track_alloc_ok [OF t tr False]
      have r: "r \<noteq> - ELOOP" "r \<noteq> - EINVAL" using p(4) by auto
      have w: "world s' = world s" "first_map_init s' = first_map_init s" using p(2) by (auto simp: same_rest_def)
      have "lock_new E spdid st r s'" if "r \<noteq> -1"
      proof -
        have r2: "2 \<le> r" using p(4) that by auto
        then show ?thesis using p(5) [OF that] p(6) K w unfolding lock_new_def by auto
      qed
      moreover have "keeps lock_call_desc_lookup st s'" using K p(7) keeps_trans by blast
      ultimately show ?thesis using p(1,3,6) r w K by auto
    qed
  qed (auto simp: lock_desc_update_alloc_def lock_post_fault_alloc_def)
  then show ?thesis using p1 by auto
qed

section \<open>Recovering a lock\<close>

lemma lock_lookup_neg: "lock_table s \<Longrightarrow> i < 0 \<Longrightarrow> lock_call_desc_lookup i s = Some NULL"
  using cm.find_unused [of "maps s" i] cm.uses_ge [of i "maps s"]
  by (auto simp: lock_call_desc_lookup_eq map_lookup_def map_table_def)

text \<open>
  The effect of \<^verbatim>\<open>block_cli_if_basic_id\<close> on a lock \<open>i\<close>: it keeps its id and owner and gets the id
  of a lock the server has just allocated for that owner; the helper id is gone again.
\<close>

definition lock_recovered :: "'w env \<Rightarrow> int \<Rightarrow> 'w lock_stub \<Rightarrow> 'w lock_stub \<Rightarrow> bool" where
  "lock_recovered E i s s' \<longleftrightarrow>
     (\<forall>d. lock_view s i = Some d \<longrightarrow> (\<exists>d' w. lock_view s' i = Some d' \<and> lk_spdid d' = lk_spdid d \<and>
        server E ''lock_component_alloc'' [lk_spdid d] w = (lk_server_lock_id d', False, world s'))) \<and>
     (\<forall>j. 2 \<le> j \<longrightarrow> j \<noteq> i \<longrightarrow> lock_view s' j = lock_view s j)"

lemma lock_basic_id_partial:
  assumes t: "lock_table s" and fi: "first_map_init s" and run: "lock_basic_id n E i s = Some s'"
  shows "lock_table s' \<and> first_map_init s' \<and> (map_primed s \<longrightarrow> map_primed s' \<and> map_room s') \<and>
    (2 \<le> i \<longrightarrow> lock_recovered E i s s')"
proof -
  from run obtain a r s1 new where lk: "lock_call_desc_lookup i s = Some a" and a: "a \<noteq> NULL"
    and al: "lock_component_alloc n E (lk_spdid (descs s a)) s = Some (r, s1)"
    and lr: "lock_call_desc_lookup r s1 = Some new" and nw: "new \<noteq> NULL"
    and dl: "lock_call_desc_dealloc new (put_desc a (\<lambda>d. d\<lparr>lk_server_lock_id := lk_server_lock_id (descs s1 new),
         state := state_lock_component_alloc, fault_cnt := fault_now s1\<rparr>) s1) = Some s'"
    by (auto simp: lock_basic_id_def lock_recover_data_def bind_eq_Some_conv Let_def)
  define f :: "lock_desc \<Rightarrow> lock_desc" where "f = (\<lambda>d. d\<lparr>lk_server_lock_id := lk_server_lock_id (descs s1 new),
         state := state_lock_component_alloc, fault_cnt := fault_now s1\<rparr>)"
  have f: "lk_lock_id (f d) = lk_lock_id d" "lk_spdid (f d) = lk_spdid d"
    "lk_server_lock_id (f d) = lk_server_lock_id (descs s1 new)" for d by (simp_all add: f_def)
  note dl = dl [folded f_def]
  note p = lock_component_alloc_partial [OF lock_stub_okI [OF t fi] al]
  have t1: "lock_table s1" using p by blast
  have "\<not> r < 0" using lock_lookup_neg [OF t1] lr nw by auto
  then have new: "lock_new E (lk_spdid (descs s a)) s r s1" using p by auto
  let ?s2 = "put_desc a f s1"
  have t2: "lock_table ?s2" by (rule lk.put_ok [OF t1 f(1)])
  have lr2: "lock_call_desc_lookup r ?s2 = Some new" using lr by simp
  have t': "lock_table s'" by (rule lk.dealloc_ok [OF t2 TrueI lr2 nw dl])
  have r2: "2 \<le> r" using new by (simp add: lock_new_def)
  have fr: "same_rest ?s2 s'" using lk.dealloc_frame [OF dl] by blast
  have pr: "map_primed s' \<and> map_room s'" if "map_primed s"
    using lk.dealloc_room [OF t2 r2 lr2 nw _ dl] p fi that by simp
  have "lock_recovered E i s s'" if i: "2 \<le> i"
  proof -
    have vi: "lock_view s i = Some (descs s a)" using lk a by (simp add: view_def)
    then have ir: "i \<noteq> r" using new by (auto simp: lock_new_def)
    have a1: "lock_call_desc_lookup i s1 = Some a" "descs s1 a = descs s a" using p lk a unfolding keeps_def by blast+
    have v2: "lock_view ?s2 j = (if j = i then Some (f (descs s a)) else lock_view s1 j)" for j
      using lk.view_put [OF t1 TrueI a1(1) a TrueI, of f j] a1(2) by simp
    have v': "lock_view s' j = (if j = r then None else lock_view ?s2 j)" for j
      by (rule lk.view_dealloc [OF t2 TrueI lr2 nw dl TrueI])
    have "descs s1 new = d" if "lock_view s1 r = Some d" for d using that lr nw by (simp add: view_def)
    then obtain w where w: "server E ''lock_component_alloc'' [lk_spdid (descs s a)] w =
        (lk_server_lock_id (descs s1 new), False, world s1)" using new by (auto simp: lock_new_def)
    have ws: "world s' = world s1" using fr by (simp add: same_rest_def)
    have "lock_view s' i = Some (f (descs s a))" using v' v2 ir by simp
    moreover have "lock_view s' j = lock_view s j" if "2 \<le> j" "j \<noteq> i" for j
      using v' [of j] v2 [of j] that new by (cases "j = r") (auto simp: lock_new_def)
    ultimately show ?thesis using vi w ws f unfolding lock_recovered_def by auto
  qed
  then show ?thesis using t' fr p pr by (auto simp: same_rest_def)
qed

section \<open>Taking a lock\<close>

text \<open>
  \<^verbatim>\<open>pretake\<close> and \<^verbatim>\<open>take\<close> have the same loop: invoke the server with the id in the
  descriptor; recover the lock and go round again when the server does not know it.
\<close>

lemma lock_call_desc_update_ok:
  assumes t: "lock_table s" and run: "lock_call_desc_update i c s = Some (x, s')"
  shows "lock_table s'" "same_rest s s'" "maps s' = maps s" "objs s' = objs s"
    "map_option (\<lambda>d. (lk_spdid d, lk_server_lock_id d)) (lock_view s' i) = map_option (\<lambda>d. (lk_spdid d, lk_server_lock_id d)) (lock_view s i)"
    "j \<noteq> i \<Longrightarrow> lock_view s' j = lock_view s j"
proof -
  have "lock_table s' \<and> same_rest s s' \<and> maps s' = maps s \<and> objs s' = objs s \<and>
    map_option (\<lambda>d. (lk_spdid d, lk_server_lock_id d)) (lock_view s' i) = map_option (\<lambda>d. (lk_spdid d, lk_server_lock_id d)) (lock_view s i) \<and>
    (\<forall>j. j \<noteq> i \<longrightarrow> lock_view s' j = lock_view s j)"
  proof (cases "s' = s")
    case False
    then obtain a f where lk: "lock_call_desc_lookup i s = Some a" "a \<noteq> NULL" and s': "s' = put_desc a f s"
      and f: "\<And>d. lk_lock_id (f d) = lk_lock_id d" "\<And>d. lk_spdid (f d) = lk_spdid d"
        "\<And>d. lk_server_lock_id (f d) = lk_server_lock_id d"
      using run by (fastforce simp: lock_call_desc_update_def bind_eq_Some_conv Let_def split: if_splits)
    show ?thesis
      using lk.put_ok [OF t f(1)] lk.view_put [OF t TrueI lk TrueI, of f] f lk
      by (simp add: s' same_rest_def view_def)
  qed (use t in simp)
  then show "lock_table s'" "same_rest s s'" "maps s' = maps s" "objs s' = objs s"
    "map_option (\<lambda>d. (lk_spdid d, lk_server_lock_id d)) (lock_view s' i) = map_option (\<lambda>d. (lk_spdid d, lk_server_lock_id d)) (lock_view s i)"
    "j \<noteq> i \<Longrightarrow> lock_view s' j = lock_view s j" by auto
qed

lemma lock_call_desc_update_total:
  "lock_table s \<Longrightarrow> \<exists>x s'. lock_call_desc_update i c s = Some (x, s')"
  using lk.look_total [of s i] by (auto simp: lock_call_desc_update_def Let_def)

text \<open>The state of a call on lock \<open>i\<close>: the lock keeps its owner, the other locks are untouched.\<close>

definition lock_call_on :: "int \<Rightarrow> spdid \<Rightarrow> 'w lock_stub \<Rightarrow> 'w lock_stub \<Rightarrow> bool" where
  "lock_call_on i spd st s \<longleftrightarrow> lock_table s \<and> first_map_init s \<and>
     (\<exists>d. lock_view s i = Some d \<and> lk_spdid d = spd) \<and>
     (\<forall>j. 2 \<le> j \<longrightarrow> j \<noteq> i \<longrightarrow> lock_view s j = lock_view st j)"

text \<open>What the server answered, to an invocation with the id the descriptor holds.\<close>

definition lock_answer :: "'w env \<Rightarrow> string \<Rightarrow> (int \<Rightarrow> int list) \<Rightarrow> int \<Rightarrow> int \<Rightarrow> bool \<Rightarrow> 'w lock_stub \<Rightarrow> bool" where
  "lock_answer E f args i ret fault s \<longleftrightarrow>
     (\<exists>d w. lock_view s i = Some d \<and> server E f (args (lk_server_lock_id d)) w = (ret, fault, world s))"

definition lock_invoke_with :: "'w env \<Rightarrow> string \<Rightarrow> (int \<Rightarrow> int list) \<Rightarrow> int \<Rightarrow> 'w lock_stub \<Rightarrow> (int \<times> bool \<times> 'w lock_stub) option" where
  "lock_invoke_with E f args i st = do {
     desc \<leftarrow> lock_call_desc_lookup i st;
     d \<leftarrow> deref desc st;
     Some (CSTUB_INVOKE E f (args (lk_server_lock_id d)) st) }"

lemma lock_invokes:
  "lock_invoke_take E spdid i thd = lock_invoke_with E ''lock_component_take'' (\<lambda>sid. [spdid, sid, thd]) i"
  "lock_invoke_pretake E spdid i thd = lock_invoke_with E ''lock_component_pretake'' (\<lambda>sid. [spdid, sid, thd]) i"
  "lock_invoke_release E spdid i = lock_invoke_with E ''lock_component_release'' (\<lambda>sid. [spdid, sid]) i"
  "lock_invoke_free E spdid i = lock_invoke_with E ''lock_component_free'' (\<lambda>sid. [spdid, sid]) i"
  by (intro ext; simp add: lock_invoke_take_def lock_invoke_pretake_def lock_invoke_release_def
      lock_invoke_free_def lock_invoke_with_def)+

lemma lock_invoke_with_ok:
  assumes "lock_view s i \<noteq> None"
  obtains ret fault w where "lock_invoke_with E f args i s = Some (ret, fault, s\<lparr>world := w\<rparr>)"
    "lock_answer E f args i ret fault (s\<lparr>world := w\<rparr>)"
    "CSTUB_INVOKE E f (args (lk_server_lock_id (the (lock_view s i)))) s = (ret, fault, s\<lparr>world := w\<rparr>)"
proof -
  from assms obtain a where a: "lock_call_desc_lookup i s = Some a" "a \<noteq> NULL" "lock_view s i = Some (descs s a)"
    by (auto simp: view_def split: option.splits if_splits)
  obtain ret fault w where w: "server E f (args (lk_server_lock_id (descs s a))) (world s) = (ret, fault, w)"
    by (metis prod_cases3)
  show thesis
    by (rule that [of ret fault w])
      (use a w in \<open>auto simp: lock_invoke_with_def lock_answer_def deref_def CSTUB_INVOKE_def\<close>)
qed

lemma lock_call_on_update:
  assumes "lock_call_on i spd st s" "lock_call_desc_update i c s = Some (x, s')"
  shows "lock_call_on i spd st s'"
proof -
  have t: "lock_table s" using assms(1) by (simp add: lock_call_on_def)
  note u = lock_call_desc_update_ok [OF t assms(2)]
  show ?thesis using assms(1) u(1,2,5,6) by (auto simp: lock_call_on_def same_rest_def)
qed

lemma lock_call_on_recover:
  assumes "lock_call_on i spd st s" "lock_basic_id n E i s = Some s'" "2 \<le> i"
  shows "lock_call_on i spd st s'"
  using lock_basic_id_partial [OF _ _ assms(2)] assms(1,3)
  by (auto simp: lock_call_on_def lock_recovered_def)

lemma lock_call_on_simps [simp]:
  "lock_call_on i spd st (s\<lparr>world := w\<rparr>) = lock_call_on i spd st s"
  "lock_call_on i spd st (s\<lparr>global_fault_cnt := c\<rparr>) = lock_call_on i spd st s"
  by (simp_all add: lock_call_on_def)

definition lock_track_with :: "nat \<Rightarrow> 'w env \<Rightarrow> int \<Rightarrow> int \<Rightarrow> 'w lock_stub \<Rightarrow> (int \<times> 'w lock_stub) option" where
  "lock_track_with n E i ret st = do {
     desc \<leftarrow> lock_call_desc_lookup i st;
     if ret = - EINVAL then do { st \<leftarrow> lock_basic_id n E i st; Some (- ELOOP, st) }
     else Some (ret, st) }"

lemma lock_tracks:
  "lock_track_take n E ret spdid i thd = lock_track_with n E i ret"
  "lock_track_pretake n E ret spdid i thd = lock_track_with n E i ret"
  by (intro ext; simp add: lock_track_take_def lock_track_pretake_def lock_track_with_def)+

lemma lock_take_loop_partial:
  assumes run: "cstub_redo n E (\<lambda>s. map_option snd (lock_call_desc_update i c s)) (lock_invoke_with E f args i) 1
      (lock_track_with n E i) s = Some (r, s')"
    and I: "lock_call_on i spd st s" and i: "2 \<le> i"
  shows "lock_call_on i spd st s' \<and> lock_answer E f args i r False s' \<and> r \<noteq> - EINVAL"
proof (rule cstub_redo_partial [where I = "lock_call_on i spd st" and J = "lock_call_on i spd st"
    and K = "\<lambda>ret fault s. lock_call_on i spd st s \<and> lock_answer E f args i ret fault s"
    and Q = "\<lambda>r s. lock_call_on i spd st s \<and> lock_answer E f args i r False s \<and> r \<noteq> - EINVAL", OF run I])
  fix s ret fault s' assume I: "lock_call_on i spd st s" and iv: "lock_invoke_with E f args i s = Some (ret, fault, s')"
  have "lock_view s i \<noteq> None" using I by (auto simp: lock_call_on_def)
  then obtain ret' fault' w where "lock_invoke_with E f args i s = Some (ret', fault', s\<lparr>world := w\<rparr>)"
    "lock_answer E f args i ret' fault' (s\<lparr>world := w\<rparr>)" by (rule lock_invoke_with_ok)
  then show "lock_call_on i spd st s' \<and> lock_answer E f args i ret fault s'" using iv I by simp
next
  fix ret s s' assume "lock_call_on i spd st s \<and> lock_answer E f args i ret True s" "CSTUB_FAULT_UPDATE E s = Some s'"
  then show "lock_call_on i spd st s'" by (auto dest!: fault_update_frame)
next
  fix ret s ret' s' assume K: "lock_call_on i spd st s \<and> lock_answer E f args i ret False s"
    and tr: "lock_track_with n E i ret s = Some (ret', s')"
  then show "if ret' = - ELOOP then lock_call_on i spd st s'
      else lock_call_on i spd st s' \<and> lock_answer E f args i ret' False s' \<and> ret' \<noteq> - EINVAL"
    using lock_call_on_recover [OF _ _ i]
    by (auto simp: lock_track_with_def bind_eq_Some_conv split: if_splits)
qed (auto intro: lock_call_on_update)

text \<open>
  The server's part in the liveness of recovery: \<^verbatim>\<open>lock_component_alloc\<close> of the lock server
  returns an id or 0; \<^verbatim>\<open>-EINVAL\<close> is the answer to an unknown id, which an allocation has none of.
\<close>

definition lock_server_allocs :: "'w env \<Rightarrow> bool" where
  "lock_server_allocs E \<longleftrightarrow>
     (\<forall>spd w. case server E ''lock_component_alloc'' [spd] w of (r, fault, w') \<Rightarrow> fault \<or> r \<noteq> - EINVAL)"

definition lock_ready :: "'w lock_stub \<Rightarrow> bool" where
  "lock_ready st \<longleftrightarrow> first_map_init st \<and> lock_table st \<and> map_primed st \<and> map_room st"

lemma lock_ready_simps [simp]:
  "lock_ready (st\<lparr>world := w\<rparr>) = lock_ready st" "lock_ready (st\<lparr>global_fault_cnt := c\<rparr>) = lock_ready st"
  by (simp_all add: lock_ready_def)

lemma lock_component_alloc_total:
  assumes fw: "fails_within E b" and al: "lock_server_allocs E" and rd: "lock_ready st" and fuel: "b (world st) < n"
  shows "\<exists>r st'. lock_component_alloc n E spdid st = Some (r, st') \<and> 2 \<le> r \<and> b (world st') \<le> b (world st)"
proof -
  let ?I = "\<lambda>s. lock_ready s \<and> b (world s) \<le> b (world st)"
  have "\<exists>r st'. cstub_redo n E (lock_desc_update_alloc spdid) (lock_invoke_alloc E spdid) lock_post_fault_alloc
       (\<lambda>ret. lock_track_alloc n ret spdid) st = Some (r, st') \<and> (2 \<le> r \<and> b (world st') \<le> b (world st))"
  proof (rule cstub_redo_total [where I = ?I and J = ?I and K = "\<lambda>ret fault s. ?I s \<and> (fault \<or> ret \<noteq> - EINVAL)"
      and Q = "\<lambda>r s. 2 \<le> r \<and> b (world s) \<le> b (world st)", OF fw _ fuel])
    fix s assume I: "?I s"
    obtain ret fault s' where iv: "CSTUB_INVOKE E ''lock_component_alloc'' [spdid] s = (ret, fault, s')"
      by (metis prod_cases3)
    note bd = invoke_budget [OF fw iv]
    have "fault \<or> ret \<noteq> - EINVAL"
      using al iv by (fastforce simp: lock_server_allocs_def CSTUB_INVOKE_def split: prod.splits)
    then show "\<exists>ret fault s'. lock_invoke_alloc E spdid s = Some (ret, fault, s') \<and> (?I s' \<and> (fault \<or> ret \<noteq> - EINVAL)) \<and>
        b (world s') \<le> b (world s) \<and> (fault \<or> ret = - EINVAL \<or> ret = - ELOOP \<longrightarrow> b (world s') < b (world s))"
      using iv bd I invoke_frame [OF iv] by (auto simp: lock_invoke_alloc_def)
  next
    fix ret s s' assume "?I s \<and> (True \<or> ret \<noteq> - EINVAL)" "CSTUB_FAULT_UPDATE E s = Some s'"
    then show "?I s'" using fault_update_frame [of E s s'] fault_update_budget [OF fw, of s] by auto
  next
    fix ret s assume K: "?I s \<and> (False \<or> ret \<noteq> - EINVAL)"
    then have rd: "lock_table s" "map_primed s" "map_room s" by (auto simp: lock_ready_def)
    obtain a s1 where a: "lock_call_desc_alloc n s = Some (a, s1)" "2 \<le> lk_lock_id (descs s1 a)"
      using lk.alloc_total [OF rd, of n] fuel by auto
    have "world s1 = world s" "a \<noteq> NULL"
      using lk.alloc_frame [OF rd(1) a(1)] lk.alloc_ok [OF rd(1) a(1)] by (auto simp: same_rest_def)
    then show "\<exists>ret' s'. lock_track_alloc n ret spdid s = Some (ret', s') \<and> b (world s') \<le> b (world s) \<and>
        (if ret' = - ELOOP then ?I s' \<and> (ret = - EINVAL \<or> ret = - ELOOP) else 2 \<le> ret' \<and> b (world s') \<le> b (world st))"
      using a K by (auto simp: lock_track_alloc_def lock_call_desc_cons_def)
  qed (use rd in \<open>auto simp: lock_post_fault_alloc_def lock_desc_update_alloc_def\<close>)
  then show ?thesis
    using rd by (auto simp: lock_component_alloc_def lock_call_map_init_def map_init_once_def lock_ready_def)
qed

lemma lock_basic_id_total:
  assumes fw: "fails_within E b" and al: "lock_server_allocs E" and rd: "lock_ready st" and fuel: "b (world st) < n"
    and i: "2 \<le> i" and d: "lock_view st i \<noteq> None"
  shows "\<exists>st'. lock_basic_id n E i st = Some st' \<and> lock_ready st' \<and> b (world st') \<le> b (world st)"
proof -
  have t: "lock_table st" "first_map_init st" "map_primed st" using rd by (auto simp: lock_ready_def)
  from d obtain a where a: "lock_call_desc_lookup i st = Some a" "a \<noteq> NULL"
    by (auto simp: view_def split: option.splits if_splits)
  obtain r s1 where s1: "lock_component_alloc n E (lk_spdid (descs st a)) st = Some (r, s1)" "2 \<le> r"
    "b (world s1) \<le> b (world st)" using lock_component_alloc_total [OF fw al rd fuel] by blast
  note p = lock_component_alloc_partial [OF lock_stub_okI [OF t(1,2)] s1(1)]
  have new: "lock_new E (lk_spdid (descs st a)) st r s1" using p s1(2) by auto
  then obtain an where an: "lock_call_desc_lookup r s1 = Some an" "an \<noteq> NULL"
    by (auto simp: lock_new_def view_def split: option.splits if_splits)
  define s2 where "s2 = put_desc a (\<lambda>d. d\<lparr>lk_server_lock_id := lk_server_lock_id (descs s1 an),
         state := state_lock_component_alloc, fault_cnt := fault_now s1\<rparr>) s1"
  have t2: "lock_table s2" unfolding s2_def by (rule lk.put_ok) (use p in auto)
  have an2: "lock_call_desc_lookup r s2 = Some an" using an by (simp add: s2_def)
  obtain s3 where s3: "lock_call_desc_dealloc an s2 = Some s3" using lk.dealloc_total [OF t2 TrueI an2 an(2)] by blast
  have run: "lock_basic_id n E i st = Some s3"
    using i a s1(1,2) an s3 by (simp add: lock_basic_id_def lock_recover_data_def s2_def)
  have "world s3 = world s1" using lk.dealloc_frame [OF s3] by (simp add: same_rest_def s2_def)
  then show ?thesis
    using run lock_basic_id_partial [OF t(1,2) run] t(3) s1(3) by (auto simp: lock_ready_def)
qed

lemma lock_take_loop_total:
  assumes fw: "fails_within E b" and al: "lock_server_allocs E" and rd: "lock_ready s" and fuel: "b (world s) < n"
    and i: "2 \<le> i" and d: "lock_view s i \<noteq> None"
  shows "\<exists>r s'. cstub_redo n E (\<lambda>s. map_option snd (lock_call_desc_update i c s)) (lock_invoke_with E f args i) 1
      (lock_track_with n E i) s = Some (r, s') \<and> lock_ready s'"
proof -
  let ?I = "\<lambda>t. lock_ready t \<and> lock_view t i \<noteq> None \<and> b (world t) \<le> b (world s)"
  show ?thesis
  proof (rule cstub_redo_total [where I = ?I and J = ?I and K = "\<lambda>ret fault. ?I" and Q = "\<lambda>r. lock_ready", OF fw _ fuel])
    fix t assume I: "?I t"
    then have t: "lock_table t" by (simp add: lock_ready_def)
    obtain x t' where u: "lock_call_desc_update i c t = Some (x, t')" using lock_call_desc_update_total [OF t] by blast
    note p = lock_call_desc_update_ok [OF t u]
    have "lock_ready t'" using I p(1,2) lk.room_cong [OF p(3,4)] by (simp add: lock_ready_def same_rest_def)
    moreover have "lock_view t' i \<noteq> None" using I p(5) by auto
    moreover have "world t' = world t" using p(2) by (simp add: same_rest_def)
    ultimately show "\<exists>t'. map_option snd (lock_call_desc_update i c t) = Some t' \<and> ?I t' \<and> b (world t') \<le> b (world t)"
      using I u by simp
  next
    fix t assume I: "?I t"
    then obtain ret fault w where iv: "lock_invoke_with E f args i t = Some (ret, fault, t\<lparr>world := w\<rparr>)"
      "CSTUB_INVOKE E f (args (lk_server_lock_id (the (lock_view t i)))) t = (ret, fault, t\<lparr>world := w\<rparr>)"
      using lock_invoke_with_ok by metis
    show "\<exists>ret fault t'. lock_invoke_with E f args i t = Some (ret, fault, t') \<and> ?I t' \<and> b (world t') \<le> b (world t) \<and>
        (fault \<or> ret = - EINVAL \<or> ret = - ELOOP \<longrightarrow> b (world t') < b (world t))"
      using I iv(1) invoke_budget [OF fw iv(2)] by (intro exI [of _ ret] exI [of _ fault] exI [of _ "t\<lparr>world := w\<rparr>"]) auto
  next
    fix t t' assume "?I t" "CSTUB_FAULT_UPDATE E t = Some t'"
    then show "?I t'" using fault_update_frame [of E t t'] fault_update_budget [OF fw, of t] by auto
  next
    fix ret t assume I: "?I t"
    then obtain a where a: "lock_call_desc_lookup i t = Some a" by (auto simp: view_def split: option.splits)
    show "\<exists>ret' t'. lock_track_with n E i ret t = Some (ret', t') \<and> b (world t') \<le> b (world t) \<and>
        (if ret' = - ELOOP then ?I t' \<and> (ret = - EINVAL \<or> ret = - ELOOP) else lock_ready t')"
    proof (cases "ret = - EINVAL")
      case True
      have tr: "lock_ready t" "lock_view t i \<noteq> None" "b (world t) < n" using I fuel by auto
      obtain t' where t': "lock_basic_id n E i t = Some t'" "lock_ready t'" "b (world t') \<le> b (world t)"
        using lock_basic_id_total [OF fw al tr(1,3) i tr(2)] by blast
      have "lock_table t" "first_map_init t" using I by (auto simp: lock_ready_def)
      then have "lock_recovered E i t t'" using lock_basic_id_partial t'(1) i by blast
      then have "lock_view t' i \<noteq> None" using tr(2) by (auto simp: lock_recovered_def)
      then show ?thesis using True a t' I by (simp add: lock_track_with_def)
    qed (use a I in \<open>simp add: lock_track_with_def\<close>)
  qed (use rd d in auto)
qed

section \<open>Releasing and freeing a lock\<close>

lemma lock_release_loop_partial:
  assumes run: "cstub_redo n E (\<lambda>s. map_option snd (lock_call_desc_update i c s)) (lock_invoke_with E f args i) 1
      (\<lambda>ret. lock_track_release ret spdid i) s = Some (r, s')"
    and I: "lock_call_on i spd st s"
  shows "lock_call_on i spd st s' \<and> (\<exists>ret. lock_answer E f args i ret False s' \<and> r = (if ret = - EINVAL then 0 else ret))"
proof (rule cstub_redo_partial [where I = "lock_call_on i spd st" and J = "lock_call_on i spd st"
    and K = "\<lambda>ret fault s. lock_call_on i spd st s \<and> lock_answer E f args i ret fault s"
    and Q = "\<lambda>r s. lock_call_on i spd st s \<and> (\<exists>ret. lock_answer E f args i ret False s \<and> r = (if ret = - EINVAL then 0 else ret))",
    OF run I])
  fix s ret fault s' assume I: "lock_call_on i spd st s" and iv: "lock_invoke_with E f args i s = Some (ret, fault, s')"
  have "lock_view s i \<noteq> None" using I by (auto simp: lock_call_on_def)
  then obtain ret' fault' w where "lock_invoke_with E f args i s = Some (ret', fault', s\<lparr>world := w\<rparr>)"
    "lock_answer E f args i ret' fault' (s\<lparr>world := w\<rparr>)" by (rule lock_invoke_with_ok)
  then show "lock_call_on i spd st s' \<and> lock_answer E f args i ret fault s'" using iv I by simp
next
  fix ret s s' assume "lock_call_on i spd st s \<and> lock_answer E f args i ret True s" "CSTUB_FAULT_UPDATE E s = Some s'"
  then show "lock_call_on i spd st s'" by (auto dest!: fault_update_frame)
next
  fix ret s ret' s' assume "lock_call_on i spd st s \<and> lock_answer E f args i ret False s"
    "lock_track_release ret spdid i s = Some (ret', s')"
  then show "if ret' = - ELOOP then lock_call_on i spd st s'
      else lock_call_on i spd st s' \<and> (\<exists>ret. lock_answer E f args i ret False s' \<and> ret' = (if ret = - EINVAL then 0 else ret))"
    by (auto simp: lock_track_release_def bind_eq_Some_conv split: if_splits)
qed (auto intro: lock_call_on_update)

lemma lock_free_loop_partial:
  assumes run: "cstub_redo n E (\<lambda>s. map_option snd (lock_call_desc_update i c s)) (lock_invoke_with E f args i) 1
      (\<lambda>ret. lock_track_free ret spdid i) s = Some (r, s')"
    and I: "lock_table s" "first_map_init s"
  shows "lock_table s' \<and> first_map_init s' \<and> lock_view s' i = None \<and> (\<forall>j. j \<noteq> i \<longrightarrow> lock_view s' j = lock_view s j)"
proof -
  let ?I = "\<lambda>t. lock_table t \<and> first_map_init t \<and> (\<forall>j. j \<noteq> i \<longrightarrow> lock_view t j = lock_view s j)"
  let ?K = "\<lambda>t. ?I t \<and> lock_view t i \<noteq> None" and ?Q = "\<lambda>t. ?I t \<and> lock_view t i = None"
  have "?Q s'"
  proof (rule cstub_redo_partial [where I = ?I and J = ?I and K = "\<lambda>ret fault. ?K" and Q = "\<lambda>r. ?Q", OF run])
    fix t t' assume I: "?I t" and u: "map_option snd (lock_call_desc_update i c t) = Some t'"
    from u obtain x where u: "lock_call_desc_update i c t = Some (x, t')" by (auto simp: prod_eq_iff)
    have t: "lock_table t" using I by simp
    show "?I t'" using lock_call_desc_update_ok [OF t u] I by (auto simp: same_rest_def)
  next
    fix t ret fault t' assume I: "?I t" and iv: "lock_invoke_with E f args i t = Some (ret, fault, t')"
    have v: "lock_view t i \<noteq> None" using iv
      by (auto simp: lock_invoke_with_def bind_eq_Some_conv view_def deref_def split: if_splits)
    from lock_invoke_with_ok [OF v, of E f args] iv obtain w where "t' = t\<lparr>world := w\<rparr>" by (metis option.inject prod.inject)
    then show "?K t'" using I v by simp
  next
    fix t t' assume "?K t" "CSTUB_FAULT_UPDATE E t = Some t'"
    then show "?I t'" by (auto dest!: fault_update_frame)
  next
    fix ret t ret' t' assume K: "?K t" and tr: "lock_track_free ret spdid i t = Some (ret', t')"
    then obtain a where a: "lock_call_desc_lookup i t = Some a" "a \<noteq> NULL" by (auto simp: view_def split: option.splits if_splits)
    with tr have dl: "lock_call_desc_dealloc a t = Some t'" by (auto simp: lock_track_free_def bind_eq_Some_conv)
    have t: "lock_table t" using K by simp
    have "lock_table t'" by (rule lk.dealloc_ok [OF t TrueI a dl])
    moreover have "lock_view t' j = (if j = i then None else lock_view t j)" for j
      by (rule lk.view_dealloc [OF t TrueI a dl TrueI])
    moreover have "first_map_init t' = first_map_init t" using lk.dealloc_frame [OF dl] by (simp add: same_rest_def)
    ultimately show "if ret' = - ELOOP then ?I t' else ?Q t'" using K by auto
  qed (use I in auto)
  then show ?thesis by blast
qed

section \<open>The table after any calls\<close>

lemma lock_loop_table:
  assumes run: "cstub_redo n E (\<lambda>s. map_option snd (lock_call_desc_update i c s)) (lock_invoke_with E f args i) 1 track s = Some (r, s')"
    and I: "lock_table s" "first_map_init s"
    and track: "\<And>ret s r s'. lock_table s \<Longrightarrow> first_map_init s \<Longrightarrow> track ret s = Some (r, s') \<Longrightarrow> lock_table s' \<and> first_map_init s'"
  shows "lock_table s' \<and> first_map_init s'"
proof -
  let ?I = "\<lambda>s. lock_table s \<and> first_map_init s"
  show ?thesis
  proof (rule cstub_redo_partial [where I = ?I and J = ?I and K = "\<lambda>ret fault. ?I" and Q = "\<lambda>r. ?I", OF run])
    fix s s' assume I: "?I s" and u: "map_option snd (lock_call_desc_update i c s) = Some s'"
    from u obtain x where "lock_call_desc_update i c s = Some (x, s')" by (auto simp: prod_eq_iff)
    then show "?I s'" using lock_call_desc_update_ok(1,2) I by (fastforce simp: same_rest_def)
  next
    fix s ret fault s' assume "?I s" "lock_invoke_with E f args i s = Some (ret, fault, s')"
    then show "?I s'" by (auto simp: lock_invoke_with_def bind_eq_Some_conv dest!: invoke_frame)
  next
    fix s s' assume "?I s" "CSTUB_FAULT_UPDATE E s = Some s'"
    then show "?I s'" by (auto dest!: fault_update_frame)
  next
    fix ret s ret' s' assume "?I s" "track ret s = Some (ret', s')"
    then show "if ret' = - ELOOP then ?I s' else ?I s'" using track by auto
  qed (use I in auto)
qed

lemma lock_track_with_table:
  "lock_table s \<Longrightarrow> first_map_init s \<Longrightarrow> lock_track_with n E i ret s = Some (r, s') \<Longrightarrow> lock_table s' \<and> first_map_init s'"
  by (auto simp: lock_track_with_def bind_eq_Some_conv dest: lock_basic_id_partial split: if_splits)

lemma lock_track_release_table:
  "lock_table s \<Longrightarrow> first_map_init s \<Longrightarrow> lock_track_release ret spdid i s = Some (r, s') \<Longrightarrow> lock_table s' \<and> first_map_init s'"
  by (auto simp: lock_track_release_def bind_eq_Some_conv)

text \<open>The calls of a client.\<close>

datatype lock_op = Alloc spdid | Pretake spdid int int | Take spdid int int | Release spdid int | Free spdid int

definition lock_exec :: "nat \<Rightarrow> 'w env \<Rightarrow> lock_op \<Rightarrow> 'w lock_stub \<Rightarrow> (int \<times> 'w lock_stub) option" where
  "lock_exec n E opr st = (case opr of
     Alloc spd \<Rightarrow> lock_component_alloc n E spd st
   | Pretake spd i thd \<Rightarrow> lock_component_pretake n E spd i thd st
   | Take spd i thd \<Rightarrow> lock_component_take n E spd i thd st
   | Release spd i \<Rightarrow> lock_component_release n E spd i st
   | Free spd i \<Rightarrow> lock_component_free n E spd i st)"

text \<open>Each call but the allocation is the loop with its own name, arguments and state code.\<close>

lemma lock_exec_loop:
  assumes "lock_call_map_init st = Some s"
  shows "lock_exec n E (Take spd i thd) st = cstub_redo n E
      (\<lambda>s. map_option snd (lock_call_desc_update i state_lock_component_take s))
      (lock_invoke_with E ''lock_component_take'' (\<lambda>sid. [spd, sid, thd]) i) 1 (lock_track_with n E i) s"
    "lock_exec n E (Pretake spd i thd) st = cstub_redo n E
      (\<lambda>s. map_option snd (lock_call_desc_update i state_lock_component_pretake s))
      (lock_invoke_with E ''lock_component_pretake'' (\<lambda>sid. [spd, sid, thd]) i) 1 (lock_track_with n E i) s"
    "lock_exec n E (Release spd i) st = cstub_redo n E
      (\<lambda>s. map_option snd (lock_call_desc_update i state_lock_component_release s))
      (lock_invoke_with E ''lock_component_release'' (\<lambda>sid. [spd, sid]) i) 1 (\<lambda>ret. lock_track_release ret spd i) s"
    "lock_exec n E (Free spd i) st = cstub_redo n E
      (\<lambda>s. map_option snd (lock_call_desc_update i state_lock_component_free s))
      (lock_invoke_with E ''lock_component_free'' (\<lambda>sid. [spd, sid]) i) 1 (\<lambda>ret. lock_track_free ret spd i) s"
proof -
  have u: "lock_desc_update_take spd i thd = (\<lambda>s. map_option snd (lock_call_desc_update i state_lock_component_take s))"
    "lock_desc_update_pretake spd i thd = (\<lambda>s. map_option snd (lock_call_desc_update i state_lock_component_pretake s))"
    "lock_desc_update_release spd i = (\<lambda>s. map_option snd (lock_call_desc_update i state_lock_component_release s))"
    "lock_desc_update_free spd i = (\<lambda>s. map_option snd (lock_call_desc_update i state_lock_component_free s))"
    by (intro ext; simp add: lock_desc_update_take_def lock_desc_update_pretake_def lock_desc_update_release_def lock_desc_update_free_def)+
  show "lock_exec n E (Take spd i thd) st = cstub_redo n E
      (\<lambda>s. map_option snd (lock_call_desc_update i state_lock_component_take s))
      (lock_invoke_with E ''lock_component_take'' (\<lambda>sid. [spd, sid, thd]) i) 1 (lock_track_with n E i) s"
    "lock_exec n E (Pretake spd i thd) st = cstub_redo n E
      (\<lambda>s. map_option snd (lock_call_desc_update i state_lock_component_pretake s))
      (lock_invoke_with E ''lock_component_pretake'' (\<lambda>sid. [spd, sid, thd]) i) 1 (lock_track_with n E i) s"
    "lock_exec n E (Release spd i) st = cstub_redo n E
      (\<lambda>s. map_option snd (lock_call_desc_update i state_lock_component_release s))
      (lock_invoke_with E ''lock_component_release'' (\<lambda>sid. [spd, sid]) i) 1 (\<lambda>ret. lock_track_release ret spd i) s"
    "lock_exec n E (Free spd i) st = cstub_redo n E
      (\<lambda>s. map_option snd (lock_call_desc_update i state_lock_component_free s))
      (lock_invoke_with E ''lock_component_free'' (\<lambda>sid. [spd, sid]) i) 1 (\<lambda>ret. lock_track_free ret spd i) s"
    by (simp_all add: assms lock_exec_def lock_component_take_def lock_component_pretake_def lock_component_release_def
        lock_component_free_def lock_invokes lock_tracks u lock_post_fault_take_def lock_post_fault_pretake_def
        lock_post_fault_release_def lock_post_fault_free_def)
qed

lemma lock_exec_table:
  assumes ok: "lock_stub_ok st" and run: "lock_exec n E opr st = Some (r, st')"
  shows "lock_table st' \<and> first_map_init st'"
proof -
  obtain s where s: "lock_call_map_init st = Some s" "lock_table s" "first_map_init s" by (rule lock_init_ok [OF ok])
  show ?thesis
  proof (cases opr)
    case (Alloc spd)
    then show ?thesis using run lock_component_alloc_partial [OF ok] by (auto simp: lock_exec_def)
  next
    case (Pretake spd i thd)
    show ?thesis
      by (rule lock_loop_table [OF run [unfolded Pretake lock_exec_loop [OF s(1)]] s(2,3)]) (rule lock_track_with_table)
  next
    case (Take spd i thd)
    show ?thesis
      by (rule lock_loop_table [OF run [unfolded Take lock_exec_loop [OF s(1)]] s(2,3)]) (rule lock_track_with_table)
  next
    case (Release spd i)
    show ?thesis
      by (rule lock_loop_table [OF run [unfolded Release lock_exec_loop [OF s(1)]] s(2,3)]) (rule lock_track_release_table)
  next
    case (Free spd i)
    show ?thesis using lock_free_loop_partial [OF run [unfolded Free lock_exec_loop [OF s(1)]] s(2,3)] by blast
  qed
qed

text \<open>
  The states of a stub: as the loader left it, after a call, and after the rest of the system has
  moved on.
\<close>

inductive lock_reach :: "'w env \<Rightarrow> 'w lock_stub \<Rightarrow> bool" for E :: "'w env" where
  boot: "maps st = blank_map \<Longrightarrow> \<not> first_map_init st \<Longrightarrow> slab_ok lock_desc_sz (objs st) {} \<Longrightarrow> lock_reach E st"
| call: "lock_reach E st \<Longrightarrow> lock_exec n E opr st = Some (r, st') \<Longrightarrow> lock_reach E st'"
| rest: "lock_reach E st \<Longrightarrow> lock_reach E (st\<lparr>world := w\<rparr>)"

inductive_cases lock_reach_cases: "lock_reach E st"

lemma lock_reach_ok: "lock_reach E st \<Longrightarrow> lock_stub_ok st"
proof (induction rule: lock_reach.induct)
  case (boot st)
  then show ?case by (auto simp: map_stub_ok_def)
next
  case (call st n opr r st')
  then show ?case using lock_exec_table lock_stub_okI by blast
next
  case (rest st w)
  then show ?case by (simp add: map_stub_ok_def)
qed

section \<open>The abstract locks\<close>

text \<open>
  What a client may assume: locks are the ids it was given, each with the component it was allocated
  for. Allocation adds an id that was not there (or fails and adds none), freeing removes one, and
  nothing else changes anything. Faults, reboots of the server and the change of server ids do not
  appear.
\<close>

definition lock_abs :: "'w lock_stub \<Rightarrow> int \<rightharpoonup> spdid" where
  "lock_abs st i = (if 2 \<le> i then map_option lk_spdid (lock_view st i) else None)"

fun lock_spec :: "lock_op \<Rightarrow> int \<Rightarrow> (int \<rightharpoonup> spdid) \<Rightarrow> (int \<rightharpoonup> spdid) \<Rightarrow> bool" where
  "lock_spec (Alloc spd) r A A' \<longleftrightarrow> (if r = - EINVAL \<or> r = -1 then A' = A else r \<notin> dom A \<and> A' = A(r \<mapsto> spd))"
| "lock_spec (Free spd i) r A A' \<longleftrightarrow> A' = A(i := None)"
| "lock_spec opr r A A' \<longleftrightarrow> A' = A"

fun lock_op_id :: "lock_op \<Rightarrow> int option" where
  "lock_op_id (Alloc spd) = None"
| "lock_op_id (Pretake spd i thd) = Some i"
| "lock_op_id (Take spd i thd) = Some i"
| "lock_op_id (Release spd i) = Some i"
| "lock_op_id (Free spd i) = Some i"

lemma lock_abs_call_on:
  assumes "lock_call_on i spd st s'" "lock_abs st i = Some spd"
  shows "lock_abs s' = lock_abs st"
  using assms by (auto simp: lock_call_on_def lock_abs_def fun_eq_iff split: if_splits)

lemma lock_abs_start:
  assumes "lock_stub_ok st" "lock_abs st i = Some spd"
  obtains s where "lock_call_map_init st = Some s" "lock_table s" "first_map_init s" "lock_view s = lock_view st"
    "lock_call_on i spd st s" "2 \<le> i"
proof -
  obtain s where s: "lock_call_map_init st = Some s" "lock_table s" "first_map_init s" "lock_view s = lock_view st"
    by (rule lock_init_ok [OF assms(1)])
  show thesis
    by (rule that [OF s]) (use s assms(2) in \<open>auto simp: lock_call_on_def lock_abs_def split: if_splits\<close>)
qed

lemma lock_spec_alloc:
  assumes "lock_stub_ok st" "lock_component_alloc n E spd st = Some (r, st')"
  shows "lock_spec (Alloc spd) r (lock_abs st) (lock_abs st')"
  using lock_component_alloc_partial [OF assms]
  by (auto simp: lock_new_def lock_abs_def fun_eq_iff split: if_splits)

section \<open>An example state\<close>

text \<open>A stub that has just allocated its first lock, for component 5, from a server that will fail four times.\<close>

definition lock_boot :: "'w \<Rightarrow> 'w lock_stub" where
  "lock_boot w = boot_map_stub \<lparr>state = lock_state_null, next_state = lock_state_null, fault_cnt = 0,
     lk_spdid = 0, lk_lock_id = 0, lk_thd_id = 0, lk_server_lock_id = 0\<rparr> w"

abbreviation lock_flaky :: "nat env" where
  "lock_flaky \<equiv> flaky [''lock_component_alloc'']"

definition lock_one :: "nat lock_stub" where
  "lock_one = snd (the (lock_component_alloc 3 lock_flaky 5 (lock_boot 4)))"

lemma lock_flaky_allocs: "lock_server_allocs lock_flaky"
  by (simp add: lock_server_allocs_def flaky_def)

lemma lock_boot_ok: "lock_stub_ok (lock_boot w)"
  by (simp add: lock_boot_def boot_map_stub_ok)

lemma lock_boot_reach: "lock_reach E (lock_boot w)"
  by (rule lock_reach.boot) (use boot_objs_ok(1) [of lock_desc_sz] in \<open>simp_all add: lock_boot_def boot_map_stub_def\<close>)

lemma lock_one:
  shows "lock_component_alloc 3 lock_flaky 5 (lock_boot 4) = Some (2, lock_one)"
    and "lock_ready lock_one" "lock_abs lock_one 2 = Some 5" "world lock_one = 4"
proof -
  let ?s = "(lock_boot (4 :: nat))\<lparr>first_map_init := True, maps := empty_map\<rparr>"
  have i: "lock_call_map_init (lock_boot 4) = Some ?s"
    by (simp add: lock_call_map_init_def lock_boot_def boot_map_init)
  have m: "maps ?s = empty_map" "objs ?s = boot_objs" "world ?s = 4" "first_map_init ?s"
    by (simp_all add: lock_boot_def boot_map_stub_def)
  note al = boot_map_alloc [where key = lk_lock_id and asg = lock_asg and big = lock_big and n = 3 and st = ?s, OF _ _ _ _ _ _ _ m(1,2), of lock_desc_sz]
  have t: "lock_table ?s" using al(1) by (simp add: ul_def)
  obtain a s' where a: "lock_call_desc_alloc 3 ?s = Some (a, s')" "lk_lock_id (descs s' a) = 2" "map_primed s'" "map_room s'"
    using al(2) unfolding lock_call_desc_alloc_eq [OF t] by (auto simp: ul_def)
  note ok = lk.alloc_ok [OF t a(1)] and fr = lk.alloc_frame [OF t a(1)]
  define st' where "st' = put_desc a (\<lambda>d. d\<lparr>lk_server_lock_id := 104, lk_spdid := 5, fault_cnt := fault_now s',
    state := state_lock_component_alloc\<rparr>) s'"
  have tr: "lock_track_alloc 3 104 5 ?s = Some (2, st')"
    using a(1,2) ok by (simp add: lock_track_alloc_def lock_call_desc_cons_def st'_def)
  have iv: "lock_invoke_alloc lock_flaky 5 ?s = Some (104, False, ?s)"
    using m(3) by (simp add: lock_invoke_alloc_def CSTUB_INVOKE_def flaky_def)
  have run: "lock_component_alloc 3 lock_flaky 5 (lock_boot 4) = Some (2, st')"
    unfolding lock_component_alloc_def i cstub_redo_def numeral_3_eq_3
    using iv tr [unfolded numeral_3_eq_3] by (simp add: cstub_turn_def lock_desc_update_alloc_def)
  then have one: "lock_one = st'" by (simp add: lock_one_def)
  show "lock_component_alloc 3 lock_flaky 5 (lock_boot 4) = Some (2, lock_one)" using run one by simp
  show "world lock_one = 4" unfolding one st'_def using fr m(3) by (simp add: same_rest_def)
  have ne: "(104 :: int) \<noteq> - EINVAL" by simp
  note p = lock_track_alloc_ok [OF t tr ne]
  show "lock_abs lock_one 2 = Some 5" unfolding one using p(5) by (auto simp: lock_abs_def)
  have "first_map_init st'" using p(2) m(4) by (simp add: same_rest_def)
  then show "lock_ready lock_one" unfolding one using p(1) a(3,4) by (simp add: lock_ready_def st'_def)
qed

lemma lock_one_ok: "lock_stub_ok lock_one" "lock_view lock_one 2 \<noteq> None"
  using lock_one(2,3) by (auto simp: lock_ready_def lock_abs_def intro: lock_stub_okI)

lemma lock_take_total:
  assumes "fails_within E b" "lock_server_allocs E" "lock_ready st" "b (world st) < n" "2 \<le> i" "lock_view st i \<noteq> None"
  shows "\<exists>r st'. lock_component_take n E spdid i thd st = Some (r, st') \<and> lock_ready st'"
proof -
  have i: "lock_call_map_init st = Some st" using assms(3) by (simp add: lock_ready_def lock_call_map_init_def map_init_once_def)
  have "lock_component_take n E spdid i thd st = lock_exec n E (Take spdid i thd) st" by (simp add: lock_exec_def)
  then show ?thesis unfolding lock_exec_loop [OF i] using lock_take_loop_total [OF assms] by simp
qed

lemma lock_one_reach: "lock_reach lock_flaky lock_one" "lock_table lock_one" "first_map_init lock_one"
  "lock_call_desc_lookup 77 lock_one = Some NULL"
proof -
  have "lock_exec 3 lock_flaky (Alloc 5) (lock_boot 4) = Some (2, lock_one)" using lock_one(1) by (simp add: lock_exec_def)
  then show "lock_reach lock_flaky lock_one" by (rule lock_reach.call [OF lock_boot_reach])
  show t: "lock_table lock_one" "first_map_init lock_one" using lock_one(2) by (auto simp: lock_ready_def)
  have "lock_abs (lock_boot 4) 77 = None"
    by (simp add: lock_abs_def view_def lock_call_desc_lookup_eq map_lookup_def lock_boot_def boot_map_stub_def
        blank_map_def cos_map_lookup_def cos_vect_lookup_def u_cos_vect_lookup_def)
  then have "lock_abs lock_one 77 = None" using lock_spec_alloc [OF lock_boot_ok lock_one(1)] by simp
  then show "lock_call_desc_lookup 77 lock_one = Some NULL" using lk.view_None [OF t(1) TrueI] by (simp add: lock_abs_def)
qed

section \<open>Properties\<close>

text \<open>
  C1: refinement. Whatever the server does, however often it faults or forgets its locks, a call of
  the lock stub that returns acts on the client's locks as the abstract specification says:
  allocation adds a new id owned by the calling component (or fails and adds none), freeing removes
  the id, and pretake, take and release change nothing. Recovery is invisible to the client.
\<close>

theorem lock_stub_refines_spec:
  assumes "lock_stub_ok st" "lock_exec n E opr st = Some (r, st')"
    and "\<forall>i. lock_op_id opr = Some i \<longrightarrow> i \<in> dom (lock_abs st)"
  shows "lock_spec opr r (lock_abs st) (lock_abs st') \<and> lock_stub_ok st'"
proof (rule conjI)
  show "lock_stub_ok st'" using lock_exec_table [OF assms(1,2)] lock_stub_okI by blast
  show "lock_spec opr r (lock_abs st) (lock_abs st')"
  proof (cases opr)
    case (Alloc spd)
    then show ?thesis using assms(2) lock_spec_alloc [OF assms(1)] by (simp add: lock_exec_def)
  next
    case (Pretake spd i thd)
    then obtain o' where o: "lock_abs st i = Some o'" using assms(3) by auto
    obtain s where s: "lock_call_map_init st = Some s" "lock_call_on i o' st s" "2 \<le> i"
      by (rule lock_abs_start [OF assms(1) o])
    note p = lock_take_loop_partial [OF assms(2) [unfolded Pretake lock_exec_loop [OF s(1)]] s(2,3)]
    show ?thesis using lock_abs_call_on [OF conjunct1 [OF p] o] by (simp add: Pretake)
  next
    case (Take spd i thd)
    then obtain o' where o: "lock_abs st i = Some o'" using assms(3) by auto
    obtain s where s: "lock_call_map_init st = Some s" "lock_call_on i o' st s" "2 \<le> i"
      by (rule lock_abs_start [OF assms(1) o])
    note p = lock_take_loop_partial [OF assms(2) [unfolded Take lock_exec_loop [OF s(1)]] s(2,3)]
    show ?thesis using lock_abs_call_on [OF conjunct1 [OF p] o] by (simp add: Take)
  next
    case (Release spd i)
    then obtain o' where o: "lock_abs st i = Some o'" using assms(3) by auto
    obtain s where s: "lock_call_map_init st = Some s" "lock_call_on i o' st s"
      by (rule lock_abs_start [OF assms(1) o])
    note p = lock_release_loop_partial [OF assms(2) [unfolded Release lock_exec_loop [OF s(1)]] s(2)]
    show ?thesis using lock_abs_call_on [OF conjunct1 [OF p] o] by (simp add: Release)
  next
    case (Free spd i)
    then obtain o' where o: "lock_abs st i = Some o'" using assms(3) by auto
    obtain s where s: "lock_call_map_init st = Some s" "lock_table s" "first_map_init s" "lock_view s = lock_view st"
      by (rule lock_abs_start [OF assms(1) o])
    note p = lock_free_loop_partial [OF assms(2) [unfolded Free lock_exec_loop [OF s(1)]] s(2,3)]
    have "lock_abs st' = (lock_abs st)(i := None)" using p s(4) by (auto simp: lock_abs_def fun_eq_iff)
    then show ?thesis by (simp add: Free)
  qed
qed

theorem lock_stub_refines_spec_witness:
  "lock_spec (Alloc 5) 2 (lock_abs (lock_boot (4 :: nat))) (lock_abs lock_one) \<and> lock_stub_ok lock_one"
  by (rule lock_stub_refines_spec [OF lock_boot_ok, where n = 3 and E = lock_flaky and opr = "Alloc 5" and r = 2 and st' = lock_one])
    (use lock_one(1) in \<open>simp_all add: lock_exec_def\<close>)



text \<open>
  C3: correctness of recovery. When \<^verbatim>\<open>lock_component_take\<close> returns for a lock the client owns, the
  lock still has its id and owner, the result is what the server answered, without a fault, to an
  invocation with exactly the server id the descriptor now holds, and no other lock's descriptor has
  changed. An answer \<^verbatim>\<open>-EINVAL\<close> never reaches the client.
\<close>

theorem lock_component_take_transparent:
  assumes "lock_stub_ok st" "2 \<le> lock_id" "lock_view st lock_id = Some d"
    and "lock_component_take n E spdid lock_id thd st = Some (r, st')"
  shows "\<exists>d' w. lock_view st' lock_id = Some d' \<and> lk_spdid d' = lk_spdid d \<and> lk_lock_id d' = lock_id \<and>
      server E ''lock_component_take'' [spdid, lk_server_lock_id d', thd] w = (r, False, world st') \<and>
      r \<noteq> - EINVAL \<and> (\<forall>j. 2 \<le> j \<longrightarrow> j \<noteq> lock_id \<longrightarrow> lock_view st' j = lock_view st j)"
proof -
  have o: "lock_abs st lock_id = Some (lk_spdid d)" using assms(2,3) by (simp add: lock_abs_def)
  obtain s where s: "lock_call_map_init st = Some s" "lock_call_on lock_id (lk_spdid d) st s"
    by (rule lock_abs_start [OF assms(1) o])
  have run: "lock_exec n E (Take spdid lock_id thd) st = Some (r, st')" using assms(4) by (simp add: lock_exec_def)
  note p = lock_take_loop_partial [OF run [unfolded lock_exec_loop [OF s(1)]] s(2) assms(2)]
  have t: "lock_table st'" using lock_exec_table [OF assms(1) run] by simp
  have "lk_lock_id d' = lock_id" if "lock_view st' lock_id = Some d'" for d'
    using that lk.look_key [OF t TrueI] by (auto simp: lk.view_Some)
  then show ?thesis using p by (auto simp: lock_call_on_def lock_answer_def)
qed

theorem lock_component_take_transparent_witness:
  "\<exists>d r st' d' w. lock_view lock_one 2 = Some d \<and> lock_component_take 5 lock_flaky 5 2 9 lock_one = Some (r, st') \<and>
     lock_view st' 2 = Some d' \<and> lk_spdid d' = lk_spdid d \<and> lk_lock_id d' = 2 \<and>
     server lock_flaky ''lock_component_take'' [5, lk_server_lock_id d', 9] w = (r, False, world st')"
proof -
  obtain r st' where run: "lock_component_take 5 lock_flaky 5 2 9 lock_one = Some (r, st')"
    using lock_take_total [OF flaky_fails_within lock_flaky_allocs lock_one(2), of 5 2 5 9] lock_one(4) lock_one_ok(2) by auto
  obtain d where d: "lock_view lock_one 2 = Some d" using lock_one_ok(2) by blast
  have "(2 :: int) \<le> 2" by simp
  from lock_component_take_transparent [OF lock_one_ok(1) this d run] show ?thesis using d run by blast
qed

text \<open>
  C8: invariant of the descriptor table. In every state a client can bring the stub into, by any
  sequence of calls and against any server, the map and the slab are well formed, the descriptor
  found under an id carries that id, and no two ids share a descriptor.
\<close>

theorem lock_descriptors_distinct:
  assumes "lock_reach E st" "first_map_init st"
  shows "lock_table st \<and> (\<forall>i d. lock_view st i = Some d \<longrightarrow> lk_lock_id d = i) \<and>
    (\<forall>i j a. lock_call_desc_lookup i st = Some a \<longrightarrow> lock_call_desc_lookup j st = Some a \<longrightarrow> a \<noteq> NULL \<longrightarrow> i = j)"
proof -
  have t: "lock_table st" using lock_reach_ok [OF assms(1)] assms(2) by (simp add: map_stub_ok_def)
  have "lk_lock_id d = i" if "lock_view st i = Some d" for i d using that lk.look_key [OF t TrueI] by (auto simp: lk.view_Some)
  then show ?thesis using t lk.look_inj [OF t TrueI TrueI] by blast
qed

theorem lock_descriptors_distinct_witness:
  "lock_table lock_one \<and> map_option lk_lock_id (lock_view lock_one 2) = Some 2"
  using lock_descriptors_distinct [OF lock_one_reach(1,3)] lock_one_ok(2) by auto



text \<open>
  The stub trusts the id. \<^verbatim>\<open>call_desc_update\<close> accepts an id without a descriptor, but the
  invocation reads the descriptor all the same: a take, pretake, release or free of an id that was
  never allocated or has been freed dereferences \<^verbatim>\<open>NULL\<close>.
\<close>

theorem lock_unknown_id_traps:
  assumes "lock_table st" "first_map_init st" "lock_call_desc_lookup lock_id st = Some NULL"
  shows "lock_component_take n E spdid lock_id thd st = None \<and> lock_component_pretake n E spdid lock_id thd st = None \<and>
    lock_component_release n E spdid lock_id st = None \<and> lock_component_free n E spdid lock_id st = None"
proof -
  have i: "lock_call_map_init st = Some st" using assms(2) by (simp add: lock_call_map_init_def map_init_once_def)
  have none: "cstub_redo n E (\<lambda>s. map_option snd (lock_call_desc_update lock_id c s)) (lock_invoke_with E f args lock_id) 1 track st = None"
    for c f args track
    using assms(3) by (cases n) (auto simp: cstub_redo_def cstub_turn_def lock_call_desc_update_def lock_invoke_with_def deref_def)
  have "lock_exec n E (Take spdid lock_id thd) st = None \<and> lock_exec n E (Pretake spdid lock_id thd) st = None \<and>
    lock_exec n E (Release spdid lock_id) st = None \<and> lock_exec n E (Free spdid lock_id) st = None"
    unfolding lock_exec_loop [OF i] using none by simp
  then show ?thesis by (simp add: lock_exec_def)
qed

theorem lock_unknown_id_traps_witness:
  "lock_component_take 5 lock_flaky 5 77 9 lock_one = None \<and> lock_component_free 5 lock_flaky 5 77 lock_one = None"
  using lock_unknown_id_traps [OF lock_one_reach(2,3,4)] by blast

end
