(* ===== verification/SchedStub.thy ===== *)
theory SchedStub
  imports Cstub
begin

text \<open>
  The client stubs of the scheduler interface: the generated
  \<^verbatim>\<open>components/interface/sched/__stubs_rec/__IDL_c_stub.c\<close> and the hand-written
  \<^verbatim>\<open>__c_stub.c\<close> it replaces. Both keep a descriptor per client thread. The scheduler recovers the
  threads by itself, so the stubs only have to count faults and invoke again; the theory proves that
  both are the retry loop \<open>retry\<close> on the state of the server.
\<close>

section \<open>State\<close>

datatype sched_state_codes =
  state_sched_create_thd | state_sched_block | state_sched_wakeup | state_sched_component_take
| state_sched_component_release | state_sched_timeout | state_sched_timestamp | sched_state_null

record sched_desc = "sched_state_codes desc_track" +
  sc_thdid :: thdid
  sc_dependency_thd :: int
  sc_amnt :: int

type_synonym 'w sched_stub = "(ptree, sched_desc, 'w) stub"

abbreviation sched_desc_sz :: int where "sched_desc_sz \<equiv> 28"

section \<open>Descriptors\<close>

definition sched_call_desc_lookup :: "int \<Rightarrow> 'w sched_stub \<Rightarrow> addr option" where
  "sched_call_desc_lookup i st = vect_lookup i st"

definition sched_call_desc_alloc :: "int \<Rightarrow> 'w sched_stub \<Rightarrow> (addr \<times> 'w sched_stub) option" where
  "sched_call_desc_alloc i st = vect_desc_alloc sched_desc_sz (\<lambda>d. d\<lparr>sc_thdid := i\<rparr>) i st"

definition sched_call_desc_dealloc :: "addr \<Rightarrow> 'w sched_stub \<Rightarrow> 'w sched_stub option" where
  "sched_call_desc_dealloc desc st = vect_desc_dealloc sched_desc_sz sc_thdid desc st"

definition sched_call_map_init :: "'w sched_stub \<Rightarrow> 'w sched_stub" where
  "sched_call_map_init st = vect_init_once st"

definition sched_call_desc_cons :: "addr \<Rightarrow> int \<Rightarrow> spdid \<Rightarrow> int \<Rightarrow> int \<Rightarrow> int \<Rightarrow> 'w sched_stub \<Rightarrow> 'w sched_stub" where
  "sched_call_desc_cons desc i spdid sched_param0 sched_param1 sched_param2 st = st"

text \<open>The argument of \<^verbatim>\<open>call_desc_update\<close> is not used: the descriptor is always the current thread's.\<close>

definition sched_call_desc_update :: "'w env \<Rightarrow> int \<Rightarrow> sched_state_codes \<Rightarrow> 'w sched_stub \<Rightarrow> (addr \<times> 'w sched_stub) option" where
  "sched_call_desc_update E i to_state st =
     (let thd = cos_get_thd_id E (world st) in do {
      desc \<leftarrow> sched_call_desc_lookup thd st;
      (desc, st) \<leftarrow> (if desc = NULL then do {
          (desc, st) \<leftarrow> sched_call_desc_alloc thd st;
          Some (desc, put_desc desc (\<lambda>d. d\<lparr>fault_cnt := fault_now st\<rparr>) st) }
        else Some (desc, st));
      let st = put_desc desc (\<lambda>d. d\<lparr>next_state := to_state\<rparr>) st in
      if fault_cnt (descs st desc) = fault_now st then Some (desc, st)
      else Some (desc, put_desc desc (\<lambda>d. d\<lparr>fault_cnt := fault_now st\<rparr>) st) })"

section \<open>The stub functions\<close>

text \<open>
  The tracking functions of all calls but the creation of a thread have the same body, and so have
  the functions that update the descriptor before the invocation.
\<close>

definition sched_track_with :: "'w env \<Rightarrow> sched_state_codes \<Rightarrow> int \<Rightarrow> 'w sched_stub \<Rightarrow> (int \<times> 'w sched_stub) option" where
  "sched_track_with E c ret st = do {
     desc \<leftarrow> sched_call_desc_lookup (cos_get_thd_id E (world st)) st;
     if ret = - EINVAL then do {
       (desc, st) \<leftarrow> sched_call_desc_update E (cos_get_thd_id E (world st)) c st;
       Some (- ELOOP, st) }
     else Some (ret, st) }"

definition sched_update_with :: "'w env \<Rightarrow> sched_state_codes \<Rightarrow> 'w sched_stub \<Rightarrow> 'w sched_stub option" where
  "sched_update_with E c st = map_option snd (sched_call_desc_update E (cos_get_thd_id E (world st)) c st)"

definition sched_track_timestamp :: "'w env \<Rightarrow> int \<Rightarrow> 'w sched_stub \<Rightarrow> (int \<times> 'w sched_stub) option" where
  "sched_track_timestamp E ret st = sched_track_with E state_sched_timestamp ret st"

definition sched_desc_update_timestamp :: "'w env \<Rightarrow> 'w sched_stub \<Rightarrow> 'w sched_stub option" where
  "sched_desc_update_timestamp E st = sched_update_with E state_sched_timestamp st"

definition sched_post_fault_timestamp :: int where
  "sched_post_fault_timestamp = 1"

definition sched_invoke_timestamp :: "'w env \<Rightarrow> 'w sched_stub \<Rightarrow> (int \<times> bool \<times> 'w sched_stub) option" where
  "sched_invoke_timestamp E st = Some (CSTUB_INVOKE E ''sched_timestamp'' [] st)"

definition sched_timestamp :: "nat \<Rightarrow> 'w env \<Rightarrow> 'w sched_stub \<Rightarrow> (int \<times> 'w sched_stub) option" where
  "sched_timestamp n E st =
     cstub_redo n E (sched_desc_update_timestamp E) (sched_invoke_timestamp E) sched_post_fault_timestamp
       (\<lambda>ret. sched_track_timestamp E ret) (sched_call_map_init st)"

definition sched_track_block :: "'w env \<Rightarrow> int \<Rightarrow> int \<Rightarrow> int \<Rightarrow> 'w sched_stub \<Rightarrow> (int \<times> 'w sched_stub) option" where
  "sched_track_block E ret spdid dependency_thd st = sched_track_with E state_sched_block ret st"

definition sched_desc_update_block :: "'w env \<Rightarrow> int \<Rightarrow> int \<Rightarrow> 'w sched_stub \<Rightarrow> 'w sched_stub option" where
  "sched_desc_update_block E spdid dependency_thd st = sched_update_with E state_sched_block st"

definition sched_post_fault_block :: int where
  "sched_post_fault_block = 1"

definition sched_invoke_block :: "'w env \<Rightarrow> int \<Rightarrow> int \<Rightarrow> 'w sched_stub \<Rightarrow> (int \<times> bool \<times> 'w sched_stub) option" where
  "sched_invoke_block E spdid dependency_thd st = Some (CSTUB_INVOKE E ''sched_block'' [spdid, dependency_thd] st)"

definition sched_block :: "nat \<Rightarrow> 'w env \<Rightarrow> int \<Rightarrow> int \<Rightarrow> 'w sched_stub \<Rightarrow> (int \<times> 'w sched_stub) option" where
  "sched_block n E spdid dependency_thd st =
     cstub_redo n E (sched_desc_update_block E spdid dependency_thd) (sched_invoke_block E spdid dependency_thd) sched_post_fault_block
       (\<lambda>ret. sched_track_block E ret spdid dependency_thd) (sched_call_map_init st)"

definition sched_track_timeout :: "'w env \<Rightarrow> int \<Rightarrow> int \<Rightarrow> int \<Rightarrow> 'w sched_stub \<Rightarrow> (int \<times> 'w sched_stub) option" where
  "sched_track_timeout E ret spdid amnt st = sched_track_with E state_sched_timeout ret st"

definition sched_desc_update_timeout :: "'w env \<Rightarrow> int \<Rightarrow> int \<Rightarrow> 'w sched_stub \<Rightarrow> 'w sched_stub option" where
  "sched_desc_update_timeout E spdid amnt st = sched_update_with E state_sched_timeout st"

definition sched_post_fault_timeout :: int where
  "sched_post_fault_timeout = 1"

definition sched_invoke_timeout :: "'w env \<Rightarrow> int \<Rightarrow> int \<Rightarrow> 'w sched_stub \<Rightarrow> (int \<times> bool \<times> 'w sched_stub) option" where
  "sched_invoke_timeout E spdid amnt st = Some (CSTUB_INVOKE E ''sched_timeout'' [spdid, amnt] st)"

definition sched_timeout :: "nat \<Rightarrow> 'w env \<Rightarrow> int \<Rightarrow> int \<Rightarrow> 'w sched_stub \<Rightarrow> (int \<times> 'w sched_stub) option" where
  "sched_timeout n E spdid amnt st =
     cstub_redo n E (sched_desc_update_timeout E spdid amnt) (sched_invoke_timeout E spdid amnt) sched_post_fault_timeout
       (\<lambda>ret. sched_track_timeout E ret spdid amnt) (sched_call_map_init st)"

definition sched_track_component_release :: "'w env \<Rightarrow> int \<Rightarrow> int \<Rightarrow> 'w sched_stub \<Rightarrow> (int \<times> 'w sched_stub) option" where
  "sched_track_component_release E ret spdid st = sched_track_with E state_sched_component_release ret st"

definition sched_desc_update_component_release :: "'w env \<Rightarrow> int \<Rightarrow> 'w sched_stub \<Rightarrow> 'w sched_stub option" where
  "sched_desc_update_component_release E spdid st = sched_update_with E state_sched_component_release st"

definition sched_post_fault_component_release :: int where
  "sched_post_fault_component_release = 1"

definition sched_invoke_component_release :: "'w env \<Rightarrow> int \<Rightarrow> 'w sched_stub \<Rightarrow> (int \<times> bool \<times> 'w sched_stub) option" where
  "sched_invoke_component_release E spdid st = Some (CSTUB_INVOKE E ''sched_component_release'' [spdid] st)"

definition sched_component_release :: "nat \<Rightarrow> 'w env \<Rightarrow> int \<Rightarrow> 'w sched_stub \<Rightarrow> (int \<times> 'w sched_stub) option" where
  "sched_component_release n E spdid st =
     cstub_redo n E (sched_desc_update_component_release E spdid) (sched_invoke_component_release E spdid) sched_post_fault_component_release
       (\<lambda>ret. sched_track_component_release E ret spdid) (sched_call_map_init st)"

definition sched_track_component_take :: "'w env \<Rightarrow> int \<Rightarrow> int \<Rightarrow> 'w sched_stub \<Rightarrow> (int \<times> 'w sched_stub) option" where
  "sched_track_component_take E ret spdid st = sched_track_with E state_sched_component_take ret st"

definition sched_desc_update_component_take :: "'w env \<Rightarrow> int \<Rightarrow> 'w sched_stub \<Rightarrow> 'w sched_stub option" where
  "sched_desc_update_component_take E spdid st = sched_update_with E state_sched_component_take st"

definition sched_post_fault_component_take :: int where
  "sched_post_fault_component_take = 1"

definition sched_invoke_component_take :: "'w env \<Rightarrow> int \<Rightarrow> 'w sched_stub \<Rightarrow> (int \<times> bool \<times> 'w sched_stub) option" where
  "sched_invoke_component_take E spdid st = Some (CSTUB_INVOKE E ''sched_component_take'' [spdid] st)"

definition sched_component_take :: "nat \<Rightarrow> 'w env \<Rightarrow> int \<Rightarrow> 'w sched_stub \<Rightarrow> (int \<times> 'w sched_stub) option" where
  "sched_component_take n E spdid st =
     cstub_redo n E (sched_desc_update_component_take E spdid) (sched_invoke_component_take E spdid) sched_post_fault_component_take
       (\<lambda>ret. sched_track_component_take E ret spdid) (sched_call_map_init st)"

definition sched_track_wakeup :: "'w env \<Rightarrow> int \<Rightarrow> int \<Rightarrow> int \<Rightarrow> 'w sched_stub \<Rightarrow> (int \<times> 'w sched_stub) option" where
  "sched_track_wakeup E ret spdid thdid st = sched_track_with E state_sched_wakeup ret st"

definition sched_desc_update_wakeup :: "'w env \<Rightarrow> int \<Rightarrow> int \<Rightarrow> 'w sched_stub \<Rightarrow> 'w sched_stub option" where
  "sched_desc_update_wakeup E spdid thdid st = sched_update_with E state_sched_wakeup st"

definition sched_post_fault_wakeup :: int where
  "sched_post_fault_wakeup = 1"

definition sched_invoke_wakeup :: "'w env \<Rightarrow> int \<Rightarrow> int \<Rightarrow> 'w sched_stub \<Rightarrow> (int \<times> bool \<times> 'w sched_stub) option" where
  "sched_invoke_wakeup E spdid thdid st = Some (CSTUB_INVOKE E ''sched_wakeup'' [spdid, thdid] st)"

definition sched_wakeup :: "nat \<Rightarrow> 'w env \<Rightarrow> int \<Rightarrow> int \<Rightarrow> 'w sched_stub \<Rightarrow> (int \<times> 'w sched_stub) option" where
  "sched_wakeup n E spdid thdid st =
     cstub_redo n E (sched_desc_update_wakeup E spdid thdid) (sched_invoke_wakeup E spdid thdid) sched_post_fault_wakeup
       (\<lambda>ret. sched_track_wakeup E ret spdid thdid) (sched_call_map_init st)"

definition sched_track_create_thd :: "int \<Rightarrow> int \<Rightarrow> int \<Rightarrow> int \<Rightarrow> int \<Rightarrow> 'w sched_stub \<Rightarrow> (int \<times> 'w sched_stub) option" where
  "sched_track_create_thd ret spdid sched_param0 sched_param1 sched_param2 st =
     (if ret = - EINVAL then Some (ret, st)
      else do {
        (desc, st) \<leftarrow> sched_call_desc_alloc ret st;
        assert_that (desc \<noteq> NULL);
        let st = sched_call_desc_cons desc ret spdid sched_param0 sched_param1 sched_param2 st;
            st = put_desc desc (\<lambda>d. d\<lparr>state := state_sched_create_thd\<rparr>) st in
        Some (sc_thdid (descs st desc), st) })"

definition sched_desc_update_create_thd :: "int \<Rightarrow> int \<Rightarrow> int \<Rightarrow> int \<Rightarrow> 'w sched_stub \<Rightarrow> 'w sched_stub option" where
  "sched_desc_update_create_thd spdid sched_param0 sched_param1 sched_param2 st = Some st"

definition sched_post_fault_create_thd :: int where
  "sched_post_fault_create_thd = 1"

definition sched_invoke_create_thd :: "'w env \<Rightarrow> int \<Rightarrow> int \<Rightarrow> int \<Rightarrow> int \<Rightarrow> 'w sched_stub \<Rightarrow> (int \<times> bool \<times> 'w sched_stub) option" where
  "sched_invoke_create_thd E spdid sched_param0 sched_param1 sched_param2 st =
     Some (CSTUB_INVOKE E ''sched_create_thd'' [spdid, sched_param0, sched_param1, sched_param2] st)"

definition sched_create_thd :: "nat \<Rightarrow> 'w env \<Rightarrow> int \<Rightarrow> int \<Rightarrow> int \<Rightarrow> int \<Rightarrow> 'w sched_stub \<Rightarrow> (int \<times> 'w sched_stub) option" where
  "sched_create_thd n E spdid sched_param0 sched_param1 sched_param2 st =
     cstub_redo n E (sched_desc_update_create_thd spdid sched_param0 sched_param1 sched_param2)
       (sched_invoke_create_thd E spdid sched_param0 sched_param1 sched_param2) sched_post_fault_create_thd
       (\<lambda>ret. sched_track_create_thd ret spdid sched_param0 sched_param1 sched_param2) (sched_call_map_init st)"

section \<open>The hand-written stub\<close>

datatype thd_state =
  THD_STATE_CREATE | THD_STATE_CREATE_DEFAULT | THD_STATE_WAKEUP | THD_STATE_BLOCK | THD_STATE_RUNNING
| THD_STATE_LOCK_TAKE | THD_STATE_LOCK_RELEASE

record rec_data_thd =
  rt_thd :: thdid
  rt_dep_thd :: thdid
  rt_lock_state :: int
  rt_state :: thd_state
  rt_fcnt :: u32

type_synonym 'w thd_stub = "(ptree, rec_data_thd, 'w) stub"

abbreviation rec_data_thd_sz :: int where "rec_data_thd_sz \<equiv> 20"

definition thdrdt_lookup :: "thdid \<Rightarrow> 'w thd_stub \<Rightarrow> addr option" where
  "thdrdt_lookup thd st = vect_lookup thd st"

text \<open>The thread id is stored after the descriptor is in the vector, which makes no difference to the result.\<close>

definition thdrdt_alloc :: "thdid \<Rightarrow> 'w thd_stub \<Rightarrow> (addr \<times> 'w thd_stub) option" where
  "thdrdt_alloc thd st = vect_desc_alloc rec_data_thd_sz (\<lambda>d. d\<lparr>rt_thd := thd\<rparr>) thd st"

definition thdrdt_dealloc :: "addr \<Rightarrow> 'w thd_stub \<Rightarrow> 'w thd_stub option" where
  "thdrdt_dealloc thd_track st = vect_desc_dealloc rec_data_thd_sz rt_thd thd_track st"

definition thd_rd_cons :: "addr \<Rightarrow> thdid \<Rightarrow> thdid \<Rightarrow> thd_state \<Rightarrow> 'w thd_stub \<Rightarrow> 'w thd_stub option" where
  "thd_rd_cons rdt thd dep_thd c st = do {
     assert_that (rdt \<noteq> NULL);
     Some (put_desc rdt (\<lambda>d. d\<lparr>rt_thd := thd, rt_dep_thd := dep_thd, rt_lock_state := 0, rt_state := c,
       rt_fcnt := global_fault_cnt st\<rparr>) st) }"

definition thd_rd_update :: "'w env \<Rightarrow> thdid \<Rightarrow> thdid \<Rightarrow> thd_state \<Rightarrow> 'w thd_stub \<Rightarrow> (addr \<times> 'w thd_stub) option" where
  "thd_rd_update E thd target_thd c st = do {
     rdt \<leftarrow> thdrdt_lookup thd st;
     (rdt, st) \<leftarrow> (if rdt = NULL then do {
         (rdt, st) \<leftarrow> thdrdt_alloc (cos_get_thd_id E (world st)) st;
         st \<leftarrow> thd_rd_cons rdt thd target_thd c st;
         Some (rdt, put_desc rdt (\<lambda>d. d\<lparr>rt_state := c, rt_fcnt := global_fault_cnt st\<rparr>) st) }
       else Some (rdt, st));
     if rt_fcnt (descs st rdt) = global_fault_cnt st then Some (rdt, st)
     else Some (rdt, put_desc rdt (\<lambda>d. d\<lparr>rt_fcnt := global_fault_cnt st\<rparr>) st) }"

text \<open>
  One turn of a hand-written stub function that tracks the thread: \<open>fin\<close> is what it does with the
  descriptor after an invocation without a fault.
\<close>

definition thd_turn :: "'w env \<Rightarrow> thdid \<Rightarrow> thd_state \<Rightarrow> string \<Rightarrow> int list \<Rightarrow> (int \<Rightarrow> addr \<Rightarrow> 'w thd_stub \<Rightarrow> 'w thd_stub option) \<Rightarrow>
    'w thd_stub \<Rightarrow> (int turn \<times> 'w thd_stub) option" where
  "thd_turn E target_thd c f args fin st = do {
     (rdt, st) \<leftarrow> thd_rd_update E (cos_get_thd_id E (world st)) target_thd c st;
     assert_that (rdt \<noteq> NULL);
     let (ret, fault, st) = CSTUB_INVOKE E f args st in
     if fault then do { st \<leftarrow> CSTUB_FAULT_UPDATE E st; Some (Redo, st) }
     else do { st \<leftarrow> fin ret rdt st; Some (Return ret, st) } }"

definition thd_running :: "int \<Rightarrow> addr \<Rightarrow> 'w thd_stub \<Rightarrow> 'w thd_stub option" where
  "thd_running ret rdt st = Some (put_desc rdt (\<lambda>d. d\<lparr>rt_state := THD_STATE_RUNNING\<rparr>) st)"

definition hw_sched_create_thd :: "nat \<Rightarrow> 'w env \<Rightarrow> spdid \<Rightarrow> int \<Rightarrow> int \<Rightarrow> int \<Rightarrow> 'w thd_stub \<Rightarrow> (int \<times> 'w thd_stub) option" where
  "hw_sched_create_thd n E spdid sched_param0 sched_param1 sched_param2 st =
     redo n (thd_turn E 0 THD_STATE_CREATE ''sched_create_thd'' [spdid, sched_param0, sched_param1, sched_param2]
       (\<lambda>ret rdt st. do { assert_that (ret > 0); thd_running ret rdt st })) st"

definition hw_sched_wakeup :: "nat \<Rightarrow> 'w env \<Rightarrow> spdid \<Rightarrow> thdid \<Rightarrow> 'w thd_stub \<Rightarrow> (int \<times> 'w thd_stub) option" where
  "hw_sched_wakeup n E spdid dep_thd st =
     redo n (thd_turn E dep_thd THD_STATE_WAKEUP ''sched_wakeup'' [spdid, dep_thd] thd_running) st"

definition hw_sched_block :: "nat \<Rightarrow> 'w env \<Rightarrow> spdid \<Rightarrow> thdid \<Rightarrow> 'w thd_stub \<Rightarrow> (int \<times> 'w thd_stub) option" where
  "hw_sched_block n E spdid thd_id st =
     redo n (thd_turn E thd_id THD_STATE_BLOCK ''sched_block'' [spdid, thd_id] thd_running) st"

definition hw_sched_component_take :: "nat \<Rightarrow> 'w env \<Rightarrow> spdid \<Rightarrow> 'w thd_stub \<Rightarrow> (int \<times> 'w thd_stub) option" where
  "hw_sched_component_take n E spdid st =
     redo n (thd_turn E 0 THD_STATE_LOCK_TAKE ''sched_component_take'' [spdid]
       (\<lambda>ret rdt st. do {
          assert_that (rt_thd (descs st rdt) = cos_get_thd_id E (world st));
          Some (put_desc rdt (\<lambda>d. d\<lparr>rt_lock_state := 1, rt_state := THD_STATE_RUNNING\<rparr>) st) })) st"

text \<open>
  The release does not go round again after a fault (the \<^verbatim>\<open>goto\<close> is commented out); it returns
  whatever the result register held.
\<close>

definition hw_sched_component_release :: "'w env \<Rightarrow> spdid \<Rightarrow> 'w thd_stub \<Rightarrow> (int \<times> 'w thd_stub) option" where
  "hw_sched_component_release E spdid st = do {
     (rdt, st) \<leftarrow> thd_rd_update E (cos_get_thd_id E (world st)) 0 THD_STATE_LOCK_RELEASE st;
     assert_that (rdt \<noteq> NULL);
     let (ret, fault, st) = CSTUB_INVOKE E ''sched_component_release'' [spdid] st in do {
     st \<leftarrow> (if fault then CSTUB_FAULT_UPDATE E st else Some st);
     assert_that (rt_thd (descs st rdt) = cos_get_thd_id E (world st));
     Some (ret, put_desc rdt (\<lambda>d. d\<lparr>rt_state := THD_STATE_RUNNING, rt_lock_state := 0\<rparr>) st) } }"

text \<open>The calls that keep no descriptor: \<open>on_fault\<close> is what is done after the fault update.\<close>

definition plain_turn :: "'w env \<Rightarrow> string \<Rightarrow> int list \<Rightarrow> ('w thd_stub \<Rightarrow> 'w thd_stub) \<Rightarrow> 'w thd_stub \<Rightarrow> (int turn \<times> 'w thd_stub) option" where
  "plain_turn E f args on_fault st =
     (let (ret, fault, st) = CSTUB_INVOKE E f args st in
      if fault then do { st \<leftarrow> CSTUB_FAULT_UPDATE E st; Some (Redo, on_fault st) }
      else Some (Return ret, st))"

definition hw_sched_timeout_thd :: "nat \<Rightarrow> 'w env \<Rightarrow> spdid \<Rightarrow> 'w thd_stub \<Rightarrow> (int \<times> 'w thd_stub) option" where
  "hw_sched_timeout_thd n E spdid st = redo n (plain_turn E ''sched_timeout_thd'' [spdid] (\<lambda>st. st)) st"

text \<open>\<open>last_ticks\<close> is the static variable of that name.\<close>

definition sched_restore_ticks :: "'w env \<Rightarrow> int \<Rightarrow> 'w thd_stub \<Rightarrow> 'w thd_stub" where
  "sched_restore_ticks E last_ticks st = snd (call_extern E ''sched_restore_ticks'' [last_ticks] st)"

definition hw_sched_timeout :: "nat \<Rightarrow> 'w env \<Rightarrow> int \<Rightarrow> spdid \<Rightarrow> int \<Rightarrow> 'w thd_stub \<Rightarrow> (int \<times> 'w thd_stub) option" where
  "hw_sched_timeout n E last_ticks spdid amnt st =
     redo n (plain_turn E ''sched_timeout'' [spdid, amnt] (sched_restore_ticks E last_ticks)) st"

definition hw_sched_timestamp :: "nat \<Rightarrow> 'w env \<Rightarrow> int \<Rightarrow> 'w thd_stub \<Rightarrow> (int \<times> int \<times> 'w thd_stub) option" where
  "hw_sched_timestamp n E last_ticks st = do {
     (ret, st) \<leftarrow> redo n (plain_turn E ''sched_timestamp'' [] (\<lambda>st. st)) st;
     if last_ticks > ul ret then Some (last_ticks, last_ticks, sched_restore_ticks E last_ticks st)
     else Some (ul ret, ul ret, st) }"

definition hw_sched_create_net_acap :: "nat \<Rightarrow> 'w env \<Rightarrow> spdid \<Rightarrow> int \<Rightarrow> int \<Rightarrow> 'w thd_stub \<Rightarrow> (int \<times> 'w thd_stub) option" where
  "hw_sched_create_net_acap n E spdid acap_id port st =
     redo n (plain_turn E ''sched_create_net_acap'' [spdid, acap_id, port] (\<lambda>st. st)) st"

section \<open>The descriptor tables\<close>

abbreviation sched_table :: "'w sched_stub \<Rightarrow> bool" where
  "sched_table \<equiv> vect_table sched_desc_sz sc_thdid"

abbreviation thd_table :: "'w thd_stub \<Rightarrow> bool" where
  "thd_table \<equiv> vect_table rec_data_thd_sz rt_thd"

lemma sched_desc_eqs:
  "sched_call_desc_lookup = vect_lookup" "sched_call_desc_dealloc = vect_desc_dealloc sched_desc_sz sc_thdid"
  "sched_call_desc_alloc = (\<lambda>i st. vect_desc_alloc sched_desc_sz ((\<lambda>i d. d\<lparr>sc_thdid := i\<rparr>) i) i st)"
  by (intro ext; simp add: sched_call_desc_lookup_def sched_call_desc_dealloc_def sched_call_desc_alloc_def)+

interpretation sc: desc_vect sched_table vect_id sched_call_desc_lookup sc_thdid sched_call_desc_dealloc sched_call_desc_alloc
  unfolding sched_desc_eqs by (rule desc_vectI) simp

lemma thd_desc_eqs:
  "thdrdt_lookup = vect_lookup" "thdrdt_dealloc = vect_desc_dealloc rec_data_thd_sz rt_thd"
  "thdrdt_alloc = (\<lambda>i st. vect_desc_alloc rec_data_thd_sz ((\<lambda>i d. d\<lparr>rt_thd := i\<rparr>) i) i st)"
  by (intro ext; simp add: thdrdt_lookup_def thdrdt_dealloc_def thdrdt_alloc_def)+

interpretation rt: desc_vect thd_table vect_id thdrdt_lookup rt_thd thdrdt_dealloc thdrdt_alloc
  unfolding thd_desc_eqs by (rule desc_vectI) simp

abbreviation sched_view :: "'w sched_stub \<Rightarrow> int \<Rightarrow> sched_desc option" where
  "sched_view \<equiv> view sched_call_desc_lookup"

abbreviation thd_view :: "'w thd_stub \<Rightarrow> int \<Rightarrow> rec_data_thd option" where
  "thd_view \<equiv> view thdrdt_lookup"

lemma sched_view_simps [simp]:
  "sched_view (st\<lparr>world := w\<rparr>) = sched_view st" "sched_view (st\<lparr>global_fault_cnt := c\<rparr>) = sched_view st"
  "thd_view (s\<lparr>world := w\<rparr>) = thd_view s" "thd_view (s\<lparr>global_fault_cnt := c\<rparr>) = thd_view s"
  by (simp_all add: view_def sched_desc_eqs thd_desc_eqs fun_eq_iff split: option.split)

lemma can_track_simps [simp]:
  "can_track sched_call_desc_lookup sched_call_desc_alloc thd (st\<lparr>world := w\<rparr>) = can_track sched_call_desc_lookup sched_call_desc_alloc thd st"
  "can_track sched_call_desc_lookup sched_call_desc_alloc thd (st\<lparr>global_fault_cnt := c\<rparr>) = can_track sched_call_desc_lookup sched_call_desc_alloc thd st"
  "can_track thdrdt_lookup thdrdt_alloc thd (s\<lparr>world := w\<rparr>) = can_track thdrdt_lookup thdrdt_alloc thd s"
  "can_track thdrdt_lookup thdrdt_alloc thd (s\<lparr>global_fault_cnt := c\<rparr>) = can_track thdrdt_lookup thdrdt_alloc thd s"
  by (simp_all add: can_track_def sched_call_desc_alloc_def thdrdt_alloc_def vect_desc_alloc_world)

abbreviation sched_trackable :: "int \<Rightarrow> 'w sched_stub \<Rightarrow> bool" where
  "sched_trackable \<equiv> can_track sched_call_desc_lookup sched_call_desc_alloc"

abbreviation thd_trackable :: "int \<Rightarrow> 'w thd_stub \<Rightarrow> bool" where
  "thd_trackable \<equiv> can_track thdrdt_lookup thdrdt_alloc"

section \<open>One turn of the loops\<close>

lemma sched_update_ok:
  assumes t: "sched_table s" and thd: "cos_get_thd_id E (world s) = thd" "vect_id thd" and can: "sched_trackable thd s"
  shows "\<exists>a s'. sched_call_desc_update E i c s = Some (a, s') \<and> sched_table s' \<and> sched_call_desc_lookup thd s' = Some a \<and> a \<noteq> NULL \<and>
    same_rest s s' \<and> (\<forall>j. vect_id j \<longrightarrow> j \<noteq> thd \<longrightarrow> sched_view s' j = sched_view s j)"
proof (rule sc.ensure_put_ok [OF t thd(2) can])
  let ?fin = "\<lambda>desc st. Some (put_desc desc (\<lambda>d. d\<lparr>fault_cnt := fault_now st\<rparr>) st)"
  let ?g = "\<lambda>s d. if fault_cnt d = fault_now s then d\<lparr>next_state := c\<rparr> else d\<lparr>next_state := c, fault_cnt := fault_now s\<rparr>"
  fix a s' assume e: "ensure sched_call_desc_lookup sched_call_desc_alloc ?fin thd s = Some (a, s')"
  have "sched_call_desc_update E i c s = (let st = put_desc a (\<lambda>d. d\<lparr>next_state := c\<rparr>) s' in
      if fault_cnt (descs st a) = fault_now st then Some (a, st)
      else Some (a, put_desc a (\<lambda>d. d\<lparr>fault_cnt := fault_now st\<rparr>) st))"
    unfolding sched_call_desc_update_def Let_def thd(1)
    using e by (cases "sched_call_desc_lookup thd s") (auto simp: ensure_def bind_eq_Some_conv simp del: put_desc_put split: if_splits)
  then show "sched_call_desc_update E i c s = Some (a, put_desc a (?g s') s')"
    by (simp add: Let_def fault_now_def put_desc_def)
qed simp_all

text \<open>What a call keeps: the table, that the thread can be tracked, and the descriptors of other threads.\<close>

definition sched_call_by :: "thdid \<Rightarrow> 'w sched_stub \<Rightarrow> 'w sched_stub \<Rightarrow> bool" where
  "sched_call_by thd st s \<longleftrightarrow> sched_table s \<and> first_map_init s \<and> sched_trackable thd s \<and>
     (\<forall>j. vect_id j \<longrightarrow> j \<noteq> thd \<longrightarrow> sched_view s j = sched_view st j)"

lemma sched_call_by_simps [simp]:
  "sched_call_by thd st (s\<lparr>world := w\<rparr>) = sched_call_by thd st s"
  "sched_call_by thd st (s\<lparr>global_fault_cnt := c\<rparr>) = sched_call_by thd st s"
  by (simp_all add: sched_call_by_def)

lemma sched_update_call_by:
  assumes "sched_call_by thd st s" "\<And>w. cos_get_thd_id E w = thd" "vect_id thd"
  shows "\<exists>s'. sched_update_with E c s = Some s' \<and> sched_call_by thd st s' \<and> same_rest s s'"
proof -
  have t: "sched_table s" "sched_trackable thd s" using assms(1) by (auto simp: sched_call_by_def)
  obtain a s' where u: "sched_call_desc_update E thd c s = Some (a, s')" "sched_table s'" "sched_call_desc_lookup thd s' = Some a"
    "a \<noteq> NULL" "same_rest s s'" "\<forall>j. vect_id j \<longrightarrow> j \<noteq> thd \<longrightarrow> sched_view s' j = sched_view s j"
    using sched_update_ok [OF t(1) assms(2,3) t(2)] by blast
  then show ?thesis using assms(1,2)
    by (auto simp: sched_update_with_def sched_call_by_def can_track_def view_def same_rest_def)
qed

lemma sched_track_call_by:
  assumes "sched_call_by thd st s" "\<And>w. cos_get_thd_id E w = thd" "vect_id thd"
  shows "\<exists>s'. sched_track_with E c ret s = Some (if ret = - EINVAL then - ELOOP else ret, s') \<and> sched_call_by thd st s' \<and> same_rest s s'"
proof -
  have t: "sched_table s" using assms(1) by (simp add: sched_call_by_def)
  obtain a where a: "sched_call_desc_lookup thd s = Some a" using sc.look_total [OF t assms(3)] by blast
  obtain s' where u: "sched_update_with E c s = Some s'" "sched_call_by thd st s'" "same_rest s s'"
    using sched_update_call_by [OF assms] by blast
  then obtain x where "sched_call_desc_update E thd c s = Some (x, s')" by (auto simp: sched_update_with_def assms(2) prod_eq_iff)
  then show ?thesis using u a assms(1) by (simp add: sched_track_with_def assms(2))
qed

lemma sched_loop:
  fixes c f args
  assumes I: "sched_call_by thd st s" and thd: "\<And>w. cos_get_thd_id E w = thd" "vect_id thd"
  defines "body \<equiv> cstub_turn E (sched_update_with E c) (\<lambda>s. Some (CSTUB_INVOKE E f args s)) 1 (sched_track_with E c)"
  shows "map_option (map_prod id world) (redo n body s) = retry {- EINVAL, - ELOOP} n E f args (world s)"
    and "redo n body s = Some (r, s') \<Longrightarrow> sched_call_by thd st s'"
proof -
  have turn: "map_option (map_prod id world) (body s) = retry_turn {- EINVAL, - ELOOP} E f args (world s) \<and>
      (\<forall>t s'. body s = Some (t, s') \<longrightarrow> sched_call_by thd st s')" if I: "sched_call_by thd st s" for s
  proof -
    obtain s1 where s1: "sched_update_with E c s = Some s1" "sched_call_by thd st s1" "same_rest s s1"
      using sched_update_call_by [OF I thd] by blast
    obtain ret fault w where w: "server E f args (world s1) = (ret, fault, w)" by (metis prod_cases3)
    let ?s2 = "s1\<lparr>world := w\<rparr>"
    obtain s3 where s3: "sched_track_with E c ret ?s2 = Some (if ret = - EINVAL then - ELOOP else ret, s3)"
      "sched_call_by thd st s3" "same_rest ?s2 s3" using sched_track_call_by [OF _ thd, of st ?s2] s1(2) by auto
    obtain u w' where u: "cos_fault_cntl E w = (u, w')" by (cases "cos_fault_cntl E w")
    have ws: "world s1 = world s" "world s3 = w" using s1(3) s3(3) by (auto simp: same_rest_def)
    show ?thesis
    proof (cases fault)
      case True
      then show ?thesis using s1 w u ws
        by (auto simp: body_def cstub_turn_def CSTUB_INVOKE_def CSTUB_FAULT_UPDATE_def retry_turn_def)
    next
      case False
      then show ?thesis using s1 w s3 ws
        by (auto simp: body_def cstub_turn_def CSTUB_INVOKE_def retry_turn_def)
    qed
  qed
  show "map_option (map_prod id world) (redo n body s) = retry {- EINVAL, - ELOOP} n E f args (world s)"
    unfolding retry_def by (rule redo_abs [where I = "sched_call_by thd st"]) (use I turn in blast)+
  show "sched_call_by thd st s'" if "redo n body s = Some (r, s')"
    by (rule redo_partial [where I = "sched_call_by thd st" and Q = "\<lambda>r. sched_call_by thd st", OF that]) (use I turn in blast)+
qed

section \<open>The loops of the hand-written stub\<close>

lemma thd_update_ok:
  assumes t: "thd_table s" and thd: "cos_get_thd_id E (world s) = thd" "vect_id thd" and can: "thd_trackable thd s"
  shows "\<exists>a s'. thd_rd_update E thd tgt c s = Some (a, s') \<and> thd_table s' \<and> thdrdt_lookup thd s' = Some a \<and> a \<noteq> NULL \<and>
    same_rest s s' \<and> (\<forall>j. vect_id j \<longrightarrow> j \<noteq> thd \<longrightarrow> thd_view s' j = thd_view s j)"
proof (rule rt.ensure_put_ok [OF t thd(2) can])
  let ?fin = "\<lambda>rdt st. do { st \<leftarrow> thd_rd_cons rdt thd tgt c st;
      Some (put_desc rdt (\<lambda>d. d\<lparr>rt_state := c, rt_fcnt := global_fault_cnt st\<rparr>) st) }"
  let ?g = "\<lambda>s d. d\<lparr>rt_dep_thd := tgt, rt_lock_state := 0, rt_state := c, rt_fcnt := global_fault_cnt s\<rparr>"
  let ?h = "\<lambda>s d. d\<lparr>rt_fcnt := global_fault_cnt s\<rparr>"
  show "?fin a s = Some (put_desc a (?g s) s)" if "a \<noteq> NULL" "rt_thd (descs s a) = thd" for a and s :: "'a thd_stub"
    using that by (cases "descs s a") (simp add: thd_rd_cons_def put_desc_def)
  fix a s' assume e: "ensure thdrdt_lookup thdrdt_alloc ?fin thd s = Some (a, s')"
  have "thd_rd_update E thd tgt c s = (if rt_fcnt (descs s' a) = global_fault_cnt s' then Some (a, s') else Some (a, put_desc a (?h s') s'))"
  proof (cases "thdrdt_lookup thd s")
    case (Some b)
    then show ?thesis
    proof (cases "b = NULL")
      case True
      then obtain s1 s2 where "thdrdt_alloc thd s = Some (a, s1)" "thd_rd_cons a thd tgt c s1 = Some s2"
        "s' = put_desc a (\<lambda>d. d\<lparr>rt_state := c, rt_fcnt := global_fault_cnt s2\<rparr>) s2"
        using Some e by (auto simp: ensure_def bind_eq_Some_conv)
      then show ?thesis using Some True thd(1) by (simp add: thd_rd_update_def)
    qed (use Some e in \<open>auto simp: ensure_def thd_rd_update_def\<close>)
  qed (use e in \<open>simp add: ensure_def\<close>)
  then show "thd_rd_update E thd tgt c s = Some (a, put_desc a (?h s') s')"
    using put_desc_same [of "?h s'" s' a] by (cases "descs s' a") (auto split: if_splits)
qed simp_all

definition thd_call_by :: "thdid \<Rightarrow> 'w thd_stub \<Rightarrow> 'w thd_stub \<Rightarrow> bool" where
  "thd_call_by thd st s \<longleftrightarrow> thd_table s \<and> thd_trackable thd s \<and>
     (\<forall>j. vect_id j \<longrightarrow> j \<noteq> thd \<longrightarrow> thd_view s j = thd_view st j)"

lemma thd_call_by_simps [simp]:
  "thd_call_by thd st (s\<lparr>world := w\<rparr>) = thd_call_by thd st s"
  "thd_call_by thd st (s\<lparr>global_fault_cnt := c\<rparr>) = thd_call_by thd st s"
  by (simp_all add: thd_call_by_def)

lemma thd_call_by_put:
  assumes "thd_call_by thd st s" "vect_id thd" "thdrdt_lookup thd s = Some a" "a \<noteq> NULL" "\<And>d. rt_thd (h d) = rt_thd d"
  shows "thd_call_by thd st (put_desc a h s)"
proof -
  have t: "thd_table s" using assms(1) by (simp add: thd_call_by_def)
  have "thd_view (put_desc a h s) thd \<noteq> None" using assms(3,4) by (simp add: view_def)
  then show ?thesis
    using assms(1) rt.put_ok [OF t assms(5)] rt.view_put [OF t assms(2-4), of _ h] by (simp add: thd_call_by_def can_track_def)
qed

lemma thd_loop:
  fixes tgt c f args fin
  assumes I: "thd_call_by thd st s" and thd: "\<And>w. cos_get_thd_id E w = thd" "vect_id thd"
    and fin: "\<And>ret a s. a \<noteq> NULL \<Longrightarrow> rt_thd (descs s a) = thd \<Longrightarrow> fin ret a s = Some (put_desc a h s)"
    and h: "\<And>d. rt_thd (h d) = rt_thd d"
  defines "body \<equiv> thd_turn E tgt c f args fin"
  shows "map_option (map_prod id world) (redo n body s) = retry {} n E f args (world s)"
    and "redo n body s = Some (r, s') \<Longrightarrow> thd_call_by thd st s'"
proof -
  have turn: "map_option (map_prod id world) (body s) = retry_turn {} E f args (world s) \<and>
      (\<forall>t s'. body s = Some (t, s') \<longrightarrow> thd_call_by thd st s')" if I: "thd_call_by thd st s" for s
  proof -
    have t: "thd_table s" "thd_trackable thd s" using I by (auto simp: thd_call_by_def)
    obtain a s1 where s1: "thd_rd_update E thd tgt c s = Some (a, s1)" "thd_table s1" "thdrdt_lookup thd s1 = Some a" "a \<noteq> NULL"
      "same_rest s s1" "\<forall>j. vect_id j \<longrightarrow> j \<noteq> thd \<longrightarrow> thd_view s1 j = thd_view s j"
      using thd_update_ok [OF t(1) thd t(2)] by blast
    have I1: "thd_call_by thd st s1" using I s1 by (auto simp: thd_call_by_def can_track_def view_def)
    have key: "rt_thd (descs s1 a) = thd" using rt.look_key [OF s1(2) thd(2) s1(3,4)] .
    obtain ret fault w where w: "server E f args (world s1) = (ret, fault, w)" by (metis prod_cases3)
    obtain u w' where u: "cos_fault_cntl E w = (u, w')" by (cases "cos_fault_cntl E w")
    have ws: "world s1 = world s" using s1(5) by (simp add: same_rest_def)
    show ?thesis
    proof (cases fault)
      case True
      then show ?thesis using s1(1,4) I1 w u ws thd(1)
        by (auto simp: body_def thd_turn_def CSTUB_INVOKE_def CSTUB_FAULT_UPDATE_def retry_turn_def)
    next
      case False
      have lk: "thdrdt_lookup thd (s1\<lparr>world := w\<rparr>) = Some a" using s1(3) by (simp add: thd_desc_eqs)
      have "thd_call_by thd st (put_desc a h (s1\<lparr>world := w\<rparr>))"
        by (rule thd_call_by_put [OF _ thd(2) lk s1(4) h]) (simp add: I1)
      then show ?thesis using False s1(1,4) w ws thd(1) fin [OF s1(4), of "s1\<lparr>world := w\<rparr>"] key
        by (auto simp: body_def thd_turn_def CSTUB_INVOKE_def retry_turn_def)
    qed
  qed
  show "map_option (map_prod id world) (redo n body s) = retry {} n E f args (world s)"
    unfolding retry_def by (rule redo_abs [where I = "thd_call_by thd st"]) (use I turn in blast)+
  show "thd_call_by thd st s'" if "redo n body s = Some (r, s')"
    by (rule redo_partial [where I = "thd_call_by thd st" and Q = "\<lambda>r. thd_call_by thd st", OF that]) (use I turn in blast)+
qed

section \<open>All calls of the interface\<close>

text \<open>The calls that track the current thread, and the invocation each of them stands for.\<close>

datatype sched_call = Timestamp | Block spdid thdid | Timeout spdid int | Component_release spdid | Component_take spdid | Wakeup spdid thdid

fun sched_exec :: "nat \<Rightarrow> 'w env \<Rightarrow> sched_call \<Rightarrow> 'w sched_stub \<Rightarrow> (int \<times> 'w sched_stub) option" where
  "sched_exec n E Timestamp = sched_timestamp n E"
| "sched_exec n E (Block spd dep) = sched_block n E spd dep"
| "sched_exec n E (Timeout spd amnt) = sched_timeout n E spd amnt"
| "sched_exec n E (Component_release spd) = sched_component_release n E spd"
| "sched_exec n E (Component_take spd) = sched_component_take n E spd"
| "sched_exec n E (Wakeup spd thd) = sched_wakeup n E spd thd"

fun sched_fn :: "sched_call \<Rightarrow> string" where
  "sched_fn Timestamp = ''sched_timestamp''"
| "sched_fn (Block spd dep) = ''sched_block''"
| "sched_fn (Timeout spd amnt) = ''sched_timeout''"
| "sched_fn (Component_release spd) = ''sched_component_release''"
| "sched_fn (Component_take spd) = ''sched_component_take''"
| "sched_fn (Wakeup spd thd) = ''sched_wakeup''"

fun sched_args :: "sched_call \<Rightarrow> int list" where
  "sched_args Timestamp = []"
| "sched_args (Block spd dep) = [spd, dep]"
| "sched_args (Timeout spd amnt) = [spd, amnt]"
| "sched_args (Component_release spd) = [spd]"
| "sched_args (Component_take spd) = [spd]"
| "sched_args (Wakeup spd thd) = [spd, thd]"

lemmas sched_op_defs =
  sched_timestamp_def sched_block_def sched_timeout_def sched_component_release_def sched_component_take_def sched_wakeup_def

lemmas sched_part_defs =
  sched_desc_update_timestamp_def sched_invoke_timestamp_def sched_post_fault_timestamp_def sched_track_timestamp_def
  sched_desc_update_block_def sched_invoke_block_def sched_post_fault_block_def sched_track_block_def
  sched_desc_update_timeout_def sched_invoke_timeout_def sched_post_fault_timeout_def sched_track_timeout_def
  sched_desc_update_component_release_def sched_invoke_component_release_def sched_post_fault_component_release_def
  sched_track_component_release_def
  sched_desc_update_component_take_def sched_invoke_component_take_def sched_post_fault_component_take_def
  sched_track_component_take_def
  sched_desc_update_wakeup_def sched_invoke_wakeup_def sched_post_fault_wakeup_def sched_track_wakeup_def

lemma sched_exec_loop:
  "\<exists>c. sched_exec n E opr st = redo n (cstub_turn E (sched_update_with E c) (\<lambda>s. Some (CSTUB_INVOKE E (sched_fn opr) (sched_args opr) s)) 1
     (sched_track_with E c)) (sched_call_map_init st)"
  by (cases opr) (auto simp: sched_op_defs sched_part_defs [abs_def] cstub_redo_def)

text \<open>A thread whose calls can be tracked.\<close>

definition sched_runs :: "'w env \<Rightarrow> thdid \<Rightarrow> 'w sched_stub \<Rightarrow> bool" where
  "sched_runs E thd st \<longleftrightarrow> vect_stub_ok sched_desc_sz sc_thdid st \<and> (\<forall>w. cos_get_thd_id E w = thd) \<and> vect_id thd \<and>
     sched_trackable thd (sched_call_map_init st)"

lemma sched_exec_retry:
  assumes "sched_runs E thd st"
  shows "map_option (map_prod id world) (sched_exec n E opr st) = retry {- EINVAL, - ELOOP} n E (sched_fn opr) (sched_args opr) (world st)"
    and "sched_exec n E opr st = Some (r, st') \<Longrightarrow> sched_call_by thd (sched_call_map_init st) st'"
proof -
  obtain c where e: "sched_exec n E opr st = redo n (cstub_turn E (sched_update_with E c)
      (\<lambda>s. Some (CSTUB_INVOKE E (sched_fn opr) (sched_args opr) s)) 1 (sched_track_with E c)) (sched_call_map_init st)"
    using sched_exec_loop by blast
  have v: "vect_stub_ok sched_desc_sz sc_thdid st" using assms by (simp add: sched_runs_def)
  have I: "sched_call_by thd (sched_call_map_init st) (sched_call_map_init st)"
    using assms vect_init_once_ok(1,2) [OF v] by (simp add: sched_runs_def sched_call_by_def sched_call_map_init_def)
  have thd: "\<And>w. cos_get_thd_id E w = thd" "vect_id thd" using assms by (auto simp: sched_runs_def)
  have w: "world (sched_call_map_init st) = world st" using vect_init_once_ok(3) [OF v] by (simp add: sched_call_map_init_def)
  show "map_option (map_prod id world) (sched_exec n E opr st) = retry {- EINVAL, - ELOOP} n E (sched_fn opr) (sched_args opr) (world st)"
    unfolding e by (simp only: sched_loop(1) [OF I thd] w)
  show "sched_exec n E opr st = Some (r, st') \<Longrightarrow> sched_call_by thd (sched_call_map_init st) st'"
    unfolding e by (rule sched_loop(2) [OF I thd])
qed

fun hw_sched_exec :: "nat \<Rightarrow> 'w env \<Rightarrow> sched_call \<Rightarrow> 'w thd_stub \<Rightarrow> (int \<times> 'w thd_stub) option" where
  "hw_sched_exec n E (Block spd dep) = hw_sched_block n E spd dep"
| "hw_sched_exec n E (Component_take spd) = hw_sched_component_take n E spd"
| "hw_sched_exec n E (Wakeup spd thd) = hw_sched_wakeup n E spd thd"
| "hw_sched_exec n E opr = (\<lambda>st. None)"

definition thd_runs :: "'w env \<Rightarrow> thdid \<Rightarrow> 'w thd_stub \<Rightarrow> bool" where
  "thd_runs E thd st \<longleftrightarrow> thd_table st \<and> (\<forall>w. cos_get_thd_id E w = thd) \<and> vect_id thd \<and> thd_trackable thd st"

lemma hw_sched_exec_retry:
  assumes "thd_runs E thd st" "(\<exists>spd dep. opr = Block spd dep) \<or> (\<exists>spd t. opr = Wakeup spd t) \<or> (\<exists>spd. opr = Component_take spd)"
  shows "map_option (map_prod id world) (hw_sched_exec n E opr st) = retry {} n E (sched_fn opr) (sched_args opr) (world st)"
proof -
  have I: "thd_call_by thd st st" and thd: "\<And>w. cos_get_thd_id E w = thd" "vect_id thd"
    using assms(1) by (auto simp: thd_runs_def thd_call_by_def)
  from assms(2) show ?thesis
    by (auto simp: hw_sched_block_def hw_sched_wakeup_def hw_sched_component_take_def thd_running_def thd(1)
        intro!: thd_loop(1) [OF I thd])
qed

section \<open>Example states\<close>

definition sched_boot :: "'w \<Rightarrow> 'w sched_stub" where
  "sched_boot w = boot_vect_stub \<lparr>state = sched_state_null, next_state = sched_state_null, fault_cnt = 0, sc_thdid = 0,
     sc_dependency_thd = 0, sc_amnt = 0\<rparr> w"

definition thd_boot :: "'w \<Rightarrow> 'w thd_stub" where
  "thd_boot w = boot_vect_stub \<lparr>rt_thd = 0, rt_dep_thd = 0, rt_lock_state = 0, rt_state = THD_STATE_CREATE, rt_fcnt = 0\<rparr> w"

lemma sched_boot_runs:
  assumes "\<And>w. cos_get_thd_id E w = 7"
  shows "sched_runs E 7 (sched_boot w)" "thd_runs E 7 (thd_boot w)"
proof -
  have b: "first_map_init (sched_boot w)" "vect_table sched_desc_sz sc_thdid (sched_boot w)" "vect_table rec_data_thd_sz rt_thd (thd_boot w)"
    unfolding sched_boot_def thd_boot_def by (simp add: boot_vect_stub_def, (rule boot_vect_stub_ok(1); simp)+)
  have "\<exists>a st'. sched_call_desc_alloc 7 (sched_boot w) = Some (a, st')" "\<exists>a st'. thdrdt_alloc 7 (thd_boot w) = Some (a, st')"
    unfolding sched_call_desc_alloc_def thdrdt_alloc_def sched_boot_def thd_boot_def
    using boot_vect_stub_ok(3) [of sched_desc_sz 7] boot_vect_stub_ok(3) [of rec_data_thd_sz 7] by fastforce+
  then show "sched_runs E 7 (sched_boot w)" "thd_runs E 7 (thd_boot w)"
    using b assms by (auto simp: sched_runs_def thd_runs_def vect_stub_ok_def sched_call_map_init_def vect_init_once_def can_track_def)
qed

section \<open>Properties\<close>

text \<open>
  C12: the generated scheduler stub is the retry loop. On the state of the server, each of the calls
  that track the current thread is the loop that invokes the function with the client's own
  arguments until there is an answer that is neither a fault nor \<^verbatim>\<open>-EINVAL\<close> nor \<^verbatim>\<open>-ELOOP\<close>: same
  invocations, same result, and the stub asserts exactly when the loop does. When it returns, the
  descriptors of all other threads are as they were.
\<close>

theorem sched_stub_is_retry:
  assumes "sched_runs E thd st"
  shows "map_option (map_prod id world) (sched_exec n E opr st) =
      retry {- EINVAL, - ELOOP} n E (sched_fn opr) (sched_args opr) (world st) \<and>
    (\<forall>r st'. sched_exec n E opr st = Some (r, st') \<longrightarrow> sched_table st' \<and>
      (\<forall>j. vect_id j \<longrightarrow> j \<noteq> thd \<longrightarrow> sched_view st' j = sched_view (sched_call_map_init st) j))"
  using sched_exec_retry [OF assms, of n opr] by (auto simp: sched_call_by_def)

theorem sched_stub_is_retry_witness:
  "map_option (map_prod id world) (sched_exec 4 (flaky []) (Block 3 9) (sched_boot 3)) =
     retry {- EINVAL, - ELOOP} 4 (flaky []) ''sched_block'' [3, 9] 3"
proof -
  have "sched_runs (flaky []) 7 (sched_boot 3)" by (rule sched_boot_runs(1)) (simp add: flaky_def)
  from sched_stub_is_retry [OF this, of 4 "Block 3 9"] show ?thesis by (simp add: sched_boot_def boot_vect_stub_def)
qed





text \<open>A client that reads the clock \<open>k\<close> times.\<close>

fun hw_timestamps :: "nat \<Rightarrow> 'w env \<Rightarrow> nat \<Rightarrow> int \<Rightarrow> 'w thd_stub \<Rightarrow> int list option" where
  "hw_timestamps n E 0 last_ticks st = Some []"
| "hw_timestamps n E (Suc k) last_ticks st = do {
     (ret, last_ticks, st) \<leftarrow> hw_sched_timestamp n E last_ticks st;
     ts \<leftarrow> hw_timestamps n E k last_ticks st;
     Some (ret # ts) }"

text \<open>
  C35: time does not go backwards. Whatever clock values a scheduler reports that has lost its
  ticks in a fault, the timestamps a client reads are increasing, because the stub keeps the last
  one it returned.
\<close>

theorem hw_sched_timestamps_sorted:
  assumes "hw_timestamps n E k last_ticks st = Some ts"
  shows "sorted ts \<and> (\<forall>t \<in> set ts. last_ticks \<le> t)"
  using assms
proof (induction k arbitrary: last_ticks st ts)
  case (Suc k)
  then obtain ret l st' ts' where t: "hw_sched_timestamp n E last_ticks st = Some (ret, l, st')" "hw_timestamps n E k l st' = Some ts'" "ts = ret # ts'"
    by (auto simp: bind_eq_Some_conv)
  have "last_ticks \<le> ret" "l = ret" using t(1) by (auto simp: hw_sched_timestamp_def bind_eq_Some_conv split: if_splits)
  then show ?case using Suc.IH [OF t(2)] t(3) by auto
qed simp

theorem hw_sched_timestamps_sorted_witness:
  "hw_timestamps 2 (faulty\<lparr>server := \<lambda>f args w. (int w, False, w - 10)\<rparr>) 3 25 (thd_boot 30) = Some [30, 30, 30] \<and> sorted [30, 30, 30 :: int]"
proof -
  have e: "hw_timestamps 2 (faulty\<lparr>server := \<lambda>f args w. (int w, False, w - 10)\<rparr>) 3 25 (thd_boot 30) = Some [30, 30, 30]"
    by (simp add: numeral_2_eq_2 numeral_3_eq_3 hw_sched_timestamp_def plain_turn_def CSTUB_INVOKE_def thd_boot_def boot_vect_stub_def
        ul_def sched_restore_ticks_def call_extern_def faulty_simps)
  from hw_sched_timestamps_sorted [OF e] e show ?thesis by simp
qed

end
