(* ===== verification/PteStub.thy ===== *)
theory PteStub
  imports Cstub
begin

text \<open>
  The client stubs of the periodic wakeup interface: the generated
  \<^verbatim>\<open>components/interface/periodic_wake/__stubs_rec/__IDL_c_stub.c\<close> and the hand-written
  \<^verbatim>\<open>__c_stub.c\<close>. A client thread that asked to be woken periodically has a descriptor with its
  period; after a fault the server has to be told the period again before the thread waits. The
  theory proves that both stubs do so, that they agree, and where they do not.
\<close>

section \<open>State\<close>

datatype pte_state_codes = state_periodic_wake_create | state_periodic_wake_remove | state_periodic_wake_wait | pte_state_null

record pte_desc = "pte_state_codes desc_track" +
  pw_spdid :: spdid
  pw_period :: int
  pw_thdid :: thdid

type_synonym 'w pte_stub = "(ptree, pte_desc, 'w) stub"

abbreviation pte_desc_sz :: int where "pte_desc_sz \<equiv> 28"

section \<open>Descriptors\<close>

definition pte_call_desc_lookup :: "int \<Rightarrow> 'w pte_stub \<Rightarrow> addr option" where
  "pte_call_desc_lookup i st = vect_lookup i st"

definition pte_call_desc_alloc :: "int \<Rightarrow> 'w pte_stub \<Rightarrow> (addr \<times> 'w pte_stub) option" where
  "pte_call_desc_alloc i st = vect_desc_alloc pte_desc_sz (\<lambda>d. d\<lparr>pw_thdid := i\<rparr>) i st"

definition pte_call_desc_dealloc :: "addr \<Rightarrow> 'w pte_stub \<Rightarrow> 'w pte_stub option" where
  "pte_call_desc_dealloc desc st = vect_desc_dealloc pte_desc_sz pw_thdid desc st"

definition pte_call_map_init :: "'w pte_stub \<Rightarrow> 'w pte_stub" where
  "pte_call_map_init st = vect_init_once st"

definition pte_call_desc_cons :: "addr \<Rightarrow> int \<Rightarrow> spdid \<Rightarrow> int \<Rightarrow> 'w pte_stub \<Rightarrow> 'w pte_stub option" where
  "pte_call_desc_cons desc i spdid period st = do {
     assert_that (desc \<noteq> NULL);
     Some (put_desc desc (\<lambda>d. d\<lparr>pw_spdid := spdid, pw_period := period, fault_cnt := fault_now st\<rparr>) st) }"

section \<open>Recovery\<close>

definition pte_recover_data :: "addr \<Rightarrow> 'w pte_stub \<Rightarrow> 'w pte_stub" where
  "pte_recover_data desc st = st"

definition pte_basic_id :: "'w env \<Rightarrow> int \<Rightarrow> 'w pte_stub \<Rightarrow> 'w pte_stub option" where
  "pte_basic_id E i st = do {
     assert_that (i \<noteq> 0);
     desc \<leftarrow> pte_call_desc_lookup i st;
     assert_that (desc \<noteq> NULL);
     let (ret, st) = call_extern E ''periodic_wake_create_exist'' [pw_spdid (descs st desc), pw_period (descs st desc), 0] st;
         st = put_desc desc (\<lambda>d. d\<lparr>state := state_periodic_wake_create, fault_cnt := fault_now st\<rparr>) st in
     Some (pte_recover_data desc st) }"

definition pte_recover :: "'w env \<Rightarrow> int \<Rightarrow> 'w pte_stub \<Rightarrow> 'w pte_stub option" where
  "pte_recover E i st = pte_basic_id E i st"

definition pte_call_desc_update :: "'w env \<Rightarrow> int \<Rightarrow> pte_state_codes \<Rightarrow> 'w pte_stub \<Rightarrow> (addr \<times> 'w pte_stub) option" where
  "pte_call_desc_update E i to_state st =
     (if i = 0 then Some (NULL, st)
      else do {
        desc \<leftarrow> pte_call_desc_lookup i st;
        if desc = NULL then Some (desc, st)
        else let st = put_desc desc (\<lambda>d. d\<lparr>next_state := to_state\<rparr>) st in
          if fault_cnt (descs st desc) = fault_now st then Some (desc, st)
          else do {
            st \<leftarrow> pte_recover E i (put_desc desc (\<lambda>d. d\<lparr>fault_cnt := fault_now st\<rparr>) st);
            Some (desc, st) } })"

section \<open>The stub functions\<close>

definition pte_track_wait :: "'w env \<Rightarrow> int \<Rightarrow> spdid \<Rightarrow> 'w pte_stub \<Rightarrow> (int \<times> 'w pte_stub) option" where
  "pte_track_wait E ret spdid st = do {
     desc \<leftarrow> pte_call_desc_lookup (cos_get_thd_id E (world st)) st;
     Some (ret, st) }"

definition pte_desc_update_wait :: "'w env \<Rightarrow> spdid \<Rightarrow> 'w pte_stub \<Rightarrow> 'w pte_stub option" where
  "pte_desc_update_wait E spdid st =
     map_option snd (pte_call_desc_update E (cos_get_thd_id E (world st)) state_periodic_wake_wait st)"

definition pte_post_fault_wait :: int where
  "pte_post_fault_wait = 1"

definition pte_invoke_wait :: "'w env \<Rightarrow> spdid \<Rightarrow> 'w pte_stub \<Rightarrow> (int \<times> bool \<times> 'w pte_stub) option" where
  "pte_invoke_wait E spdid st = do {
     desc \<leftarrow> pte_call_desc_lookup (cos_get_thd_id E (world st)) st;
     Some (CSTUB_INVOKE E ''periodic_wake_wait'' [spdid] st) }"

definition pte_track_create :: "'w env \<Rightarrow> int \<Rightarrow> spdid \<Rightarrow> int \<Rightarrow> 'w pte_stub \<Rightarrow> (int \<times> 'w pte_stub) option" where
  "pte_track_create E ret spdid period st =
     (if ret = - EINVAL then Some (ret, st)
      else do {
        (desc, st) \<leftarrow> pte_call_desc_alloc (cos_get_thd_id E (world st)) st;
        assert_that (desc \<noteq> NULL);
        st \<leftarrow> pte_call_desc_cons desc (cos_get_thd_id E (world st)) spdid period st;
        Some (ret, put_desc desc (\<lambda>d. d\<lparr>state := state_periodic_wake_create\<rparr>) st) })"

definition pte_desc_update_create :: "spdid \<Rightarrow> int \<Rightarrow> 'w pte_stub \<Rightarrow> 'w pte_stub option" where
  "pte_desc_update_create spdid period st = Some st"

definition pte_post_fault_create :: int where
  "pte_post_fault_create = 1"

definition pte_invoke_create :: "'w env \<Rightarrow> spdid \<Rightarrow> int \<Rightarrow> 'w pte_stub \<Rightarrow> (int \<times> bool \<times> 'w pte_stub) option" where
  "pte_invoke_create E spdid period st = Some (CSTUB_INVOKE E ''periodic_wake_create'' [spdid, period] st)"

definition pte_desc_update_remove :: "'w env \<Rightarrow> spdid \<Rightarrow> thdid \<Rightarrow> 'w pte_stub \<Rightarrow> 'w pte_stub option" where
  "pte_desc_update_remove E spdid thdid st =
     map_option snd (pte_call_desc_update E (cos_get_thd_id E (world st)) state_periodic_wake_remove st)"

definition pte_post_fault_remove :: int where
  "pte_post_fault_remove = 1"

definition pte_invoke_remove :: "'w env \<Rightarrow> spdid \<Rightarrow> thdid \<Rightarrow> 'w pte_stub \<Rightarrow> (int \<times> bool \<times> 'w pte_stub) option" where
  "pte_invoke_remove E spdid thdid st = do {
     desc \<leftarrow> pte_call_desc_lookup (cos_get_thd_id E (world st)) st;
     Some (CSTUB_INVOKE E ''periodic_wake_remove'' [spdid, thdid] st) }"

definition pte_track_remove :: "int \<Rightarrow> spdid \<Rightarrow> thdid \<Rightarrow> 'w pte_stub \<Rightarrow> (int \<times> 'w pte_stub) option" where
  "pte_track_remove ret spdid thdid st = do {
     desc \<leftarrow> pte_call_desc_lookup thdid st;
     st \<leftarrow> (if desc \<noteq> NULL then pte_call_desc_dealloc desc st else Some st);
     Some (ret, st) }"

definition periodic_wake_wait :: "nat \<Rightarrow> 'w env \<Rightarrow> spdid \<Rightarrow> 'w pte_stub \<Rightarrow> (int \<times> 'w pte_stub) option" where
  "periodic_wake_wait n E spdid st =
     cstub_redo n E (pte_desc_update_wait E spdid) (pte_invoke_wait E spdid) pte_post_fault_wait
       (\<lambda>ret. pte_track_wait E ret spdid) (pte_call_map_init st)"

definition periodic_wake_create :: "nat \<Rightarrow> 'w env \<Rightarrow> spdid \<Rightarrow> int \<Rightarrow> 'w pte_stub \<Rightarrow> (int \<times> 'w pte_stub) option" where
  "periodic_wake_create n E spdid period st =
     cstub_redo n E (pte_desc_update_create spdid period) (pte_invoke_create E spdid period) pte_post_fault_create
       (\<lambda>ret. pte_track_create E ret spdid period) (pte_call_map_init st)"

definition periodic_wake_remove :: "nat \<Rightarrow> 'w env \<Rightarrow> spdid \<Rightarrow> thdid \<Rightarrow> 'w pte_stub \<Rightarrow> (int \<times> 'w pte_stub) option" where
  "periodic_wake_remove n E spdid thdid st =
     cstub_redo n E (pte_desc_update_remove E spdid thdid) (pte_invoke_remove E spdid thdid) pte_post_fault_remove
       (\<lambda>ret. pte_track_remove ret spdid thdid) (pte_call_map_init st)"

section \<open>The hand-written stub\<close>

datatype pte_state = PTE_CREATED | PTE_WAIT

record rec_data_pte =
  rp_tid :: thdid
  rp_period :: int
  rp_creation_ticks :: int
  rp_state :: pte_state
  rp_fcnt :: u32

type_synonym 'w rdpte_stub = "(ptree, rec_data_pte, 'w) stub"

abbreviation rec_data_pte_sz :: int where "rec_data_pte_sz \<equiv> 20"

definition rdpte_lookup :: "int \<Rightarrow> 'w rdpte_stub \<Rightarrow> addr option" where
  "rdpte_lookup i st = vect_lookup i st"

text \<open>The id is stored after the descriptor is in the vector, which makes no difference to the result.\<close>

definition rdpte_alloc :: "int \<Rightarrow> 'w rdpte_stub \<Rightarrow> (addr \<times> 'w rdpte_stub) option" where
  "rdpte_alloc i st = vect_desc_alloc rec_data_pte_sz (\<lambda>d. d\<lparr>rp_tid := i\<rparr>) i st"

definition rdpte_dealloc :: "addr \<Rightarrow> 'w rdpte_stub \<Rightarrow> 'w rdpte_stub option" where
  "rdpte_dealloc rdt st = vect_desc_dealloc rec_data_pte_sz rp_tid rdt st"

text \<open>The assertion on the thread id assigns it (\<^verbatim>\<open>assert(rd->tid = cos_get_thd_id())\<close>).\<close>

definition pte_rd_cons :: "'w env \<Rightarrow> addr \<Rightarrow> int \<Rightarrow> pte_state \<Rightarrow> int \<Rightarrow> 'w rdpte_stub \<Rightarrow> 'w rdpte_stub option" where
  "pte_rd_cons E rdt period c creation_ticks st = do {
     assert_that (rdt \<noteq> NULL);
     assert_that (cos_get_thd_id E (world st) \<noteq> 0);
     Some (put_desc rdt (\<lambda>d. d\<lparr>rp_tid := cos_get_thd_id E (world st), rp_period := period, rp_creation_ticks := creation_ticks,
       rp_state := c, rp_fcnt := global_fault_cnt st\<rparr>) st) }"

definition pte_rd_update :: "'w env \<Rightarrow> int \<Rightarrow> pte_state \<Rightarrow> 'w rdpte_stub \<Rightarrow> (addr \<times> 'w rdpte_stub) option" where
  "pte_rd_update E i c st = do {
     rdt \<leftarrow> rdpte_lookup i st;
     if rdt = NULL \<or> rp_fcnt (descs st rdt) = global_fault_cnt st then Some (rdt, st)
     else let st = put_desc rdt (\<lambda>d. d\<lparr>rp_fcnt := global_fault_cnt st\<rparr>) st in
       (case c of PTE_CREATED \<Rightarrow> None
        | PTE_WAIT \<Rightarrow> do {
            assert_that (rp_state (descs st rdt) = PTE_CREATED);
            Some (rdt, snd (call_extern E ''periodic_wake_create_exist'' [cos_spd_id E, rp_period (descs st rdt), 0] st)) }) }"

definition hw_pte_create_turn :: "'w env \<Rightarrow> spdid \<Rightarrow> int \<Rightarrow> 'w rdpte_stub \<Rightarrow> (int turn \<times> 'w rdpte_stub) option" where
  "hw_pte_create_turn E spdid period st =
     (let (ret, fault, st) = CSTUB_INVOKE E ''periodic_wake_create'' [spdid, period] st in
      if fault then do { st \<leftarrow> CSTUB_FAULT_UPDATE E st; Some (Redo, st) }
      else do {
        rdt \<leftarrow> rdpte_lookup (cos_get_thd_id E (world st)) st;
        if rdt = NULL then do {
          (rdt, st) \<leftarrow> rdpte_alloc (cos_get_thd_id E (world st)) st;
          assert_that (rdt \<noteq> NULL);
          st \<leftarrow> pte_rd_cons E rdt period PTE_CREATED ret st;
          Some (Return ret, st) }
        else Some (Return ret, st) })"

definition hw_periodic_wake_create :: "nat \<Rightarrow> 'w env \<Rightarrow> spdid \<Rightarrow> int \<Rightarrow> 'w rdpte_stub \<Rightarrow> (int \<times> 'w rdpte_stub) option" where
  "hw_periodic_wake_create n E spdid period st = redo n (hw_pte_create_turn E spdid period) st"

definition hw_pte_wait_turn :: "'w env \<Rightarrow> spdid \<Rightarrow> 'w rdpte_stub \<Rightarrow> (int turn \<times> 'w rdpte_stub) option" where
  "hw_pte_wait_turn E spdid st = do {
     (rdt, st) \<leftarrow> pte_rd_update E (cos_get_thd_id E (world st)) PTE_WAIT st;
     assert_that (rdt \<noteq> NULL);
     let (ret, fault, st) = CSTUB_INVOKE E ''periodic_wake_wait'' [spdid] st in
     if fault then do { st \<leftarrow> CSTUB_FAULT_UPDATE E st; Some (Redo, st) }
     else Some (Return ret, st) }"

definition hw_periodic_wake_wait :: "nat \<Rightarrow> 'w env \<Rightarrow> spdid \<Rightarrow> 'w rdpte_stub \<Rightarrow> (int \<times> 'w rdpte_stub) option" where
  "hw_periodic_wake_wait n E spdid st = redo n (hw_pte_wait_turn E spdid) st"

section \<open>The descriptor tables\<close>

abbreviation pte_table :: "'w pte_stub \<Rightarrow> bool" where
  "pte_table \<equiv> vect_table pte_desc_sz pw_thdid"

abbreviation rdpte_table :: "'w rdpte_stub \<Rightarrow> bool" where
  "rdpte_table \<equiv> vect_table rec_data_pte_sz rp_tid"

lemma pte_desc_eqs:
  "pte_call_desc_lookup = vect_lookup" "pte_call_desc_dealloc = vect_desc_dealloc pte_desc_sz pw_thdid"
  "pte_call_desc_alloc = (\<lambda>i st. vect_desc_alloc pte_desc_sz ((\<lambda>i d. d\<lparr>pw_thdid := i\<rparr>) i) i st)"
  by (intro ext; simp add: pte_call_desc_lookup_def pte_call_desc_dealloc_def pte_call_desc_alloc_def)+

interpretation pw: desc_vect pte_table vect_id pte_call_desc_lookup pw_thdid pte_call_desc_dealloc pte_call_desc_alloc
  unfolding pte_desc_eqs by (rule desc_vectI) simp

lemma rdpte_desc_eqs:
  "rdpte_lookup = vect_lookup" "rdpte_dealloc = vect_desc_dealloc rec_data_pte_sz rp_tid"
  "rdpte_alloc = (\<lambda>i st. vect_desc_alloc rec_data_pte_sz ((\<lambda>i d. d\<lparr>rp_tid := i\<rparr>) i) i st)"
  by (intro ext; simp add: rdpte_lookup_def rdpte_dealloc_def rdpte_alloc_def)+

interpretation rp: desc_vect rdpte_table vect_id rdpte_lookup rp_tid rdpte_dealloc rdpte_alloc
  unfolding rdpte_desc_eqs by (rule desc_vectI) simp

abbreviation pte_view :: "'w pte_stub \<Rightarrow> int \<Rightarrow> pte_desc option" where
  "pte_view \<equiv> view pte_call_desc_lookup"

lemma pte_lookup_simps [simp]:
  "pte_call_desc_lookup i (st\<lparr>world := w\<rparr>) = pte_call_desc_lookup i st"
  "pte_call_desc_lookup i (st\<lparr>global_fault_cnt := c\<rparr>) = pte_call_desc_lookup i st"
  "rdpte_lookup i (s\<lparr>world := w\<rparr>) = rdpte_lookup i s" "rdpte_lookup i (s\<lparr>global_fault_cnt := c\<rparr>) = rdpte_lookup i s"
  by (simp_all add: pte_desc_eqs rdpte_desc_eqs)

section \<open>Waiting restores the period\<close>

text \<open>What the server has to be told about the thread again, and whether it has to.\<close>

definition pte_restore :: "'w env \<Rightarrow> spdid \<Rightarrow> int \<Rightarrow> 'w \<Rightarrow> 'w" where
  "pte_restore E spd period w = snd (extern E ''periodic_wake_create_exist'' [spd, period, 0] w)"

definition pte_sync :: "addr \<Rightarrow> 'w pte_stub \<Rightarrow> 'w \<times> bool" where
  "pte_sync a st = (world st, fault_cnt (descs st a) \<noteq> fault_now st)"

definition rdpte_sync :: "addr \<Rightarrow> 'w rdpte_stub \<Rightarrow> 'w \<times> bool" where
  "rdpte_sync a st = (world st, rp_fcnt (descs st a) \<noteq> global_fault_cnt st)"

text \<open>The waiting thread has the descriptor \<open>a\<close>, which keeps its component and period.\<close>

definition pte_waits :: "thdid \<Rightarrow> addr \<Rightarrow> 'w pte_stub \<Rightarrow> 'w pte_stub \<Rightarrow> bool" where
  "pte_waits thd a st s \<longleftrightarrow> pte_call_desc_lookup thd s = Some a \<and> a \<noteq> NULL \<and> maps s = maps st \<and> objs s = objs st \<and>
     (\<forall>b. pw_thdid (descs s b) = pw_thdid (descs st b)) \<and> (\<forall>b. b \<noteq> a \<longrightarrow> descs s b = descs st b) \<and>
     pw_spdid (descs s a) = pw_spdid (descs st a) \<and> pw_period (descs s a) = pw_period (descs st a)"

lemma pte_waits_simps [simp]:
  "pte_waits thd a st (s\<lparr>world := w\<rparr>) = pte_waits thd a st s"
  "pte_waits thd a st (s\<lparr>global_fault_cnt := c\<rparr>) = pte_waits thd a st s"
  by (simp_all add: pte_waits_def)

lemma pte_update_ok:
  assumes I: "pte_waits thd a st s" and thd: "thd \<noteq> 0"
  shows "\<exists>s'. pte_call_desc_update E thd c s = Some (a, s') \<and> pte_waits thd a st s' \<and> fault_cnt (descs s' a) = fault_now s' \<and>
    world s' = (if snd (pte_sync a s) then pte_restore E (pw_spdid (descs st a)) (pw_period (descs st a)) (world s) else world s)"
proof -
  have a: "pte_call_desc_lookup thd s = Some a" "a \<noteq> NULL" using I by (auto simp: pte_waits_def)
  obtain r w where w: "extern E ''periodic_wake_create_exist'' [pw_spdid (descs st a), pw_period (descs st a), 0] (world s) = (r, w)"
    by (cases "extern E ''periodic_wake_create_exist'' [pw_spdid (descs st a), pw_period (descs st a), 0] (world s)")
  have p: "pw_spdid (descs s a) = pw_spdid (descs st a)" "pw_period (descs s a) = pw_period (descs st a)" using I by (auto simp: pte_waits_def)
  show ?thesis
  proof (cases "fault_cnt (descs s a) = fault_now s")
    case True
    then show ?thesis using I a thd by (auto simp: pte_call_desc_update_def Let_def pte_sync_def pte_waits_def)
  next
    case False
    then show ?thesis using I a thd w p
      by (auto simp: pte_call_desc_update_def pte_recover_def pte_basic_id_def pte_recover_data_def call_extern_def Let_def pte_sync_def
          pte_waits_def pte_restore_def)
  qed
qed

lemma pte_wait_loop:
  fixes spdid
  assumes I: "pte_waits thd a st s" and thd: "\<And>w. cos_get_thd_id E w = thd" "thd \<noteq> 0"
  defines "body \<equiv> cstub_turn E (pte_desc_update_wait E spdid) (pte_invoke_wait E spdid) pte_post_fault_wait (\<lambda>ret. pte_track_wait E ret spdid)"
    and "restore \<equiv> pte_restore E (pw_spdid (descs st a)) (pw_period (descs st a))"
  shows "map_option (map_prod id (pte_sync a)) (redo n body s) = restore_loop restore {- ELOOP} n E ''periodic_wake_wait'' [spdid] (pte_sync a s)"
    and "redo n body s = Some (r, s') \<Longrightarrow> pte_waits thd a st s'"
proof -
  have turn: "map_option (map_prod id (pte_sync a)) (body s) = restore_turn restore {- ELOOP} E ''periodic_wake_wait'' [spdid] (pte_sync a s) \<and>
      (\<forall>t s'. body s = Some (t, s') \<longrightarrow> pte_waits thd a st s')" if I: "pte_waits thd a st s" for s
  proof -
    obtain s1 where s1: "pte_call_desc_update E thd state_periodic_wake_wait s = Some (a, s1)" "pte_waits thd a st s1"
      "fault_cnt (descs s1 a) = fault_now s1" "world s1 = (if snd (pte_sync a s) then restore (world s) else world s)"
      using pte_update_ok [OF I thd(2)] unfolding restore_def by blast
    have lk: "pte_call_desc_lookup thd s1 = Some a" using s1(2) by (simp add: pte_waits_def)
    obtain ret fault w where w: "server E ''periodic_wake_wait'' [spdid] (world s1) = (ret, fault, w)" by (metis prod_cases3)
    obtain u w' where u: "cos_fault_cntl E w = (u, w')" by (cases "cos_fault_cntl E w")
    have ps: "pte_sync a s = (world s, snd (pte_sync a s))" by (simp add: pte_sync_def)
    have body: "body s = (let (ret, fault, s2) = CSTUB_INVOKE E ''periodic_wake_wait'' [spdid] s1 in
        if fault then map_option (\<lambda>s3. (Redo, s3)) (CSTUB_FAULT_UPDATE E s2)
        else Some (if ret = - ELOOP then Redo else Return ret, s2))"
      using s1(1) lk thd(1) w
      by (auto simp: body_def cstub_turn_def pte_desc_update_wait_def pte_invoke_wait_def pte_post_fault_wait_def pte_track_wait_def
          CSTUB_INVOKE_def CSTUB_FAULT_UPDATE_def Let_def split: prod.split)
    show ?thesis
      unfolding body using s1(2-4) w u fault_now_Suc [of "s1\<lparr>world := w'\<rparr>"]
      by (subst ps) (auto simp: restore_turn_def CSTUB_INVOKE_def CSTUB_FAULT_UPDATE_def Let_def pte_sync_def split: if_splits)
  qed
  show "map_option (map_prod id (pte_sync a)) (redo n body s) = restore_loop restore {- ELOOP} n E ''periodic_wake_wait'' [spdid] (pte_sync a s)"
    unfolding restore_loop_def by (rule redo_abs [where I = "pte_waits thd a st"]) (use I turn in blast)+
  show "pte_waits thd a st s'" if "redo n body s = Some (r, s')"
    by (rule redo_partial [where I = "pte_waits thd a st" and Q = "\<lambda>r. pte_waits thd a st", OF that]) (use I turn in blast)+
qed

text \<open>The hand-written stub.\<close>

definition rdpte_waits :: "thdid \<Rightarrow> addr \<Rightarrow> int \<Rightarrow> 'w rdpte_stub \<Rightarrow> bool" where
  "rdpte_waits thd a period s \<longleftrightarrow> rdpte_lookup thd s = Some a \<and> a \<noteq> NULL \<and> rp_period (descs s a) = period \<and> rp_state (descs s a) = PTE_CREATED"

lemma rdpte_waits_simps [simp]:
  "rdpte_waits thd a p (s\<lparr>world := w\<rparr>) = rdpte_waits thd a p s" "rdpte_waits thd a p (s\<lparr>global_fault_cnt := c\<rparr>) = rdpte_waits thd a p s"
  by (simp_all add: rdpte_waits_def)

lemma rdpte_update_ok:
  assumes I: "rdpte_waits thd a period s"
  shows "\<exists>s'. pte_rd_update E thd PTE_WAIT s = Some (a, s') \<and> rdpte_waits thd a period s' \<and> rp_fcnt (descs s' a) = global_fault_cnt s' \<and>
    world s' = (if snd (rdpte_sync a s) then pte_restore E (cos_spd_id E) period (world s) else world s)"
proof -
  have a: "rdpte_lookup thd s = Some a" "a \<noteq> NULL" "rp_period (descs s a) = period" "rp_state (descs s a) = PTE_CREATED"
    using I by (auto simp: rdpte_waits_def)
  obtain r w where w: "extern E ''periodic_wake_create_exist'' [cos_spd_id E, period, 0] (world s) = (r, w)"
    by (cases "extern E ''periodic_wake_create_exist'' [cos_spd_id E, period, 0] (world s)")
  show ?thesis
  proof (cases "rp_fcnt (descs s a) = global_fault_cnt s")
    case True
    then show ?thesis using I a by (simp add: pte_rd_update_def rdpte_sync_def)
  next
    case False
    then show ?thesis using a w
      by (simp add: pte_rd_update_def call_extern_def Let_def rdpte_sync_def pte_restore_def rdpte_waits_def)
  qed
qed

lemma rdpte_wait_loop:
  fixes spdid
  assumes I: "rdpte_waits thd a period s" and thd: "\<And>w. cos_get_thd_id E w = thd"
  shows "map_option (map_prod id (rdpte_sync a)) (hw_periodic_wake_wait n E spdid s) =
    restore_loop (pte_restore E (cos_spd_id E) period) {} n E ''periodic_wake_wait'' [spdid] (rdpte_sync a s)"
proof -
  let ?restore = "pte_restore E (cos_spd_id E) period"
  have turn: "map_option (map_prod id (rdpte_sync a)) (hw_pte_wait_turn E spdid s) =
        restore_turn ?restore {} E ''periodic_wake_wait'' [spdid] (rdpte_sync a s) \<and>
      (\<forall>t s'. hw_pte_wait_turn E spdid s = Some (t, s') \<longrightarrow> rdpte_waits thd a period s')" if I: "rdpte_waits thd a period s" for s
  proof -
    obtain s1 where s1: "pte_rd_update E thd PTE_WAIT s = Some (a, s1)" "rdpte_waits thd a period s1"
      "rp_fcnt (descs s1 a) = global_fault_cnt s1" "world s1 = (if snd (rdpte_sync a s) then ?restore (world s) else world s)"
      using rdpte_update_ok [OF I] by blast
    have a: "a \<noteq> NULL" using I by (simp add: rdpte_waits_def)
    obtain ret fault w where w: "server E ''periodic_wake_wait'' [spdid] (world s1) = (ret, fault, w)" by (metis prod_cases3)
    obtain u w' where u: "cos_fault_cntl E w = (u, w')" by (cases "cos_fault_cntl E w")
    have ps: "rdpte_sync a s = (world s, snd (rdpte_sync a s))" by (simp add: rdpte_sync_def)
    have body: "hw_pte_wait_turn E spdid s = (let (ret, fault, s2) = CSTUB_INVOKE E ''periodic_wake_wait'' [spdid] s1 in
        if fault then map_option (\<lambda>s3. (Redo, s3)) (CSTUB_FAULT_UPDATE E s2) else Some (Return ret, s2))"
      using s1(1) a thd w by (auto simp: hw_pte_wait_turn_def CSTUB_INVOKE_def CSTUB_FAULT_UPDATE_def Let_def split: prod.split)
    show ?thesis
      unfolding body using s1(2-4) w u
      by (subst ps) (auto simp: restore_turn_def CSTUB_INVOKE_def CSTUB_FAULT_UPDATE_def Let_def rdpte_sync_def split: if_splits)
  qed
  show ?thesis
    unfolding restore_loop_def hw_periodic_wake_wait_def
    by (rule redo_abs [where I = "rdpte_waits thd a period"]) (use I turn in blast)+
qed

text \<open>A client that has a periodic thread.\<close>

lemma pte_waits_refl:
  "pte_call_desc_lookup thd st = Some a \<Longrightarrow> a \<noteq> NULL \<Longrightarrow> pte_waits thd a st st"
  by (simp add: pte_waits_def)

lemma pte_waits_view:
  assumes t: "pte_table st" and thd: "vect_id thd" "vect_id j" "j \<noteq> thd" and w: "pte_waits thd a st s"
  shows "pte_view s j = pte_view st j"
proof -
  have lk: "pte_call_desc_lookup i s = pte_call_desc_lookup i st" for i
    by (rule pw.look_cong) (use w in \<open>simp add: pte_waits_def\<close>)
  obtain b where b: "pte_call_desc_lookup j st = Some b" using pw.look_total [OF t thd(2)] by blast
  have a: "pte_call_desc_lookup thd st = Some a" "a \<noteq> NULL" using w lk by (auto simp: pte_waits_def)
  then have "b \<noteq> a" using pw.look_inj [OF t thd(1,2) a(1) _ a(2)] b thd(3) by blast
  then have "descs s b = descs st b" using w by (simp add: pte_waits_def)
  then show ?thesis using b lk by (simp add: view_def)
qed

definition pte_boot :: "'w \<Rightarrow> 'w pte_stub" where
  "pte_boot w = boot_vect_stub \<lparr>state = pte_state_null, next_state = pte_state_null, fault_cnt = 0, pw_spdid = 3, pw_period = 10, pw_thdid = 0\<rparr> w"

definition rdpte_boot :: "'w \<Rightarrow> 'w rdpte_stub" where
  "rdpte_boot w = boot_vect_stub \<lparr>rp_tid = 0, rp_period = 10, rp_creation_ticks = 0, rp_state = PTE_CREATED, rp_fcnt = 0\<rparr> w"

lemma pte_boot_thread:
  "\<exists>a st. pte_call_desc_alloc 7 (pte_boot w) = Some (a, st) \<and> pte_table st \<and> first_map_init st \<and> world st = w \<and> a \<noteq> NULL \<and>
     pte_call_desc_lookup 7 st = Some a"
proof -
  have t: "pte_table (pte_boot w)" unfolding pte_boot_def by (rule boot_vect_stub_ok(1)) simp_all
  have "\<exists>a st. pte_call_desc_alloc 7 (pte_boot w) = Some (a, st)"
    unfolding pte_call_desc_alloc_def pte_boot_def using boot_vect_stub_ok(3) [of pte_desc_sz 7] by fastforce
  then obtain a st where al: "pte_call_desc_alloc 7 (pte_boot w) = Some (a, st)" by blast
  have "same_rest (pte_boot w) st" by (rule pw.alloc_frame [OF t al])
  then have "first_map_init st" "world st = w" by (simp_all add: same_rest_def pte_boot_def boot_vect_stub_def)
  then show ?thesis using al pw.alloc_ok [OF t al] pw.alloc_look [OF t al, of 7] by auto
qed

lemma rdpte_boot_thread:
  "\<exists>a st. rdpte_alloc 7 (rdpte_boot w) = Some (a, st) \<and> world st = w \<and> a \<noteq> NULL \<and> rdpte_lookup 7 st = Some a"
proof -
  have t: "rdpte_table (rdpte_boot w)" unfolding rdpte_boot_def by (rule boot_vect_stub_ok(1)) simp_all
  have "\<exists>a st. rdpte_alloc 7 (rdpte_boot w) = Some (a, st)"
    unfolding rdpte_alloc_def rdpte_boot_def using boot_vect_stub_ok(3) [of rec_data_pte_sz 7] by fastforce
  then obtain a st where al: "rdpte_alloc 7 (rdpte_boot w) = Some (a, st)" by blast
  have "same_rest (rdpte_boot w) st" by (rule rp.alloc_frame [OF t al])
  then have "world st = w" by (simp add: same_rest_def rdpte_boot_def boot_vect_stub_def)
  then show ?thesis using al rp.alloc_ok [OF t al] rp.alloc_look [OF t al, of 7] by auto
qed

section \<open>Properties\<close>

text \<open>
  C17: a periodic thread is restored before it waits. On the state of the server, the wait of a
  thread with a descriptor is the loop that registers the thread again, with the component and the
  period of its descriptor, exactly once after each fault and before the next invocation, until the
  server answers. Waiting changes neither the thread's component and period nor the descriptor of
  any other thread.
\<close>

theorem periodic_wake_wait_restores:
  assumes "pte_table st" "first_map_init st" "vect_id thd" "thd \<noteq> 0" "\<forall>w. cos_get_thd_id E w = thd"
    and "pte_call_desc_lookup thd st = Some a" "a \<noteq> NULL"
  shows "map_option (map_prod id (pte_sync a)) (periodic_wake_wait n E spdid st) =
      restore_loop (pte_restore E (pw_spdid (descs st a)) (pw_period (descs st a))) {- ELOOP} n E ''periodic_wake_wait'' [spdid] (pte_sync a st) \<and>
    (\<forall>r st'. periodic_wake_wait n E spdid st = Some (r, st') \<longrightarrow>
      pw_spdid (descs st' a) = pw_spdid (descs st a) \<and> pw_period (descs st' a) = pw_period (descs st a) \<and>
      (\<forall>j. vect_id j \<longrightarrow> j \<noteq> thd \<longrightarrow> pte_view st' j = pte_view st j))"
proof -
  have thd: "\<And>w. cos_get_thd_id E w = thd" using assms(5) by simp
  have run: "periodic_wake_wait n E spdid st = redo n (cstub_turn E (pte_desc_update_wait E spdid) (pte_invoke_wait E spdid) pte_post_fault_wait
      (\<lambda>ret. pte_track_wait E ret spdid)) st"
    using assms(2) by (simp add: periodic_wake_wait_def cstub_redo_def pte_call_map_init_def vect_init_once_def)
  note loop = pte_wait_loop [OF pte_waits_refl [OF assms(6,7)] thd assms(4), of n spdid]
  show ?thesis
    unfolding run using loop pte_waits_view [OF assms(1,3)] by (auto simp: pte_waits_def)
qed

theorem periodic_wake_wait_restores_witness:
  "\<exists>(st :: nat pte_stub) a. world st = 4 \<and> pte_call_desc_lookup 7 st = Some a \<and> a \<noteq> NULL \<and>
     map_option (map_prod id (pte_sync a)) (periodic_wake_wait 5 faulty 3 st) =
       restore_loop (pte_restore faulty (pw_spdid (descs st a)) (pw_period (descs st a))) {- ELOOP} 5 faulty ''periodic_wake_wait'' [3] (pte_sync a st)"
proof -
  obtain a and st :: "nat pte_stub" where b: "pte_table st" "first_map_init st" "world st = 4" "a \<noteq> NULL" "pte_call_desc_lookup 7 st = Some a"
    using pte_boot_thread [of "4 :: nat"] by auto
  have "vect_id 7" "(7 :: int) \<noteq> 0" "\<forall>w. cos_get_thd_id faulty w = 7" by (auto simp: faulty_simps)
  note run = conjunct1 [OF periodic_wake_wait_restores [OF b(1,2) this b(5,4), of 5 3]]
  show ?thesis by (intro exI [of _ st] exI [of _ a] conjI) (rule b(3) b(5) b(4) run)+
qed

text \<open>
  C21: the generated and the hand-written stub wait alike. For a thread that has the same period in
  both, has registered with its own component, and is out of step with the server in both or in
  neither, the wait makes the same sequence of calls and returns the same, against every server
  that never answers \<^verbatim>\<open>-ELOOP\<close>.
\<close>

theorem periodic_wake_wait_stubs_agree:
  assumes "first_map_init st" "thd \<noteq> 0" "\<forall>w. cos_get_thd_id E w = thd"
    and "pte_call_desc_lookup thd st = Some a" "a \<noteq> NULL" "rdpte_lookup thd s = Some b" "b \<noteq> NULL"
    and "pw_spdid (descs st a) = cos_spd_id E" "rp_period (descs s b) = pw_period (descs st a)" "rp_state (descs s b) = PTE_CREATED"
    and "pte_sync a st = rdpte_sync b s"
    and "\<And>w ret w'. server E ''periodic_wake_wait'' [spdid] w = (ret, False, w') \<Longrightarrow> ret \<noteq> - ELOOP"
  shows "map_option (map_prod id (pte_sync a)) (periodic_wake_wait n E spdid st) =
    map_option (map_prod id (rdpte_sync b)) (hw_periodic_wake_wait n E spdid s)"
proof -
  have thd: "\<And>w. cos_get_thd_id E w = thd" using assms(3) by simp
  have run: "periodic_wake_wait n E spdid st = redo n (cstub_turn E (pte_desc_update_wait E spdid) (pte_invoke_wait E spdid) pte_post_fault_wait
      (\<lambda>ret. pte_track_wait E ret spdid)) st"
    using assms(1) by (simp add: periodic_wake_wait_def cstub_redo_def pte_call_map_init_def vect_init_once_def)
  have "restore_loop (pte_restore E (cos_spd_id E) (pw_period (descs st a))) {- ELOOP} n E ''periodic_wake_wait'' [spdid] =
      restore_loop (pte_restore E (cos_spd_id E) (pw_period (descs st a))) {} n E ''periodic_wake_wait'' [spdid]"
    by (rule restore_again_cong) (use assms(12) in simp)
  moreover have "rdpte_waits thd b (pw_period (descs st a)) s" using assms(6,7,9,10) by (simp add: rdpte_waits_def)
  ultimately show ?thesis
    unfolding run pte_wait_loop(1) [OF pte_waits_refl [OF assms(4,5)] thd assms(2)]
    using rdpte_wait_loop [OF _ thd, of b "pw_period (descs st a)" s n spdid] assms(8,11) by simp
qed

theorem periodic_wake_wait_stubs_agree_witness:
  "\<exists>(st :: nat pte_stub) (s :: nat rdpte_stub) a b. world st = 4 \<and> world s = 4 \<and>
     map_option (map_prod id (pte_sync a)) (periodic_wake_wait 5 faulty 3 st) = map_option (map_prod id (rdpte_sync b)) (hw_periodic_wake_wait 5 faulty 3 s)"
proof -
  obtain a and st :: "nat pte_stub" where b: "pte_table st" "first_map_init st" "world st = 4" "a \<noteq> NULL" "pte_call_desc_lookup 7 st = Some a"
    using pte_boot_thread [of "4 :: nat"] by auto
  obtain c and s :: "nat rdpte_stub" where c: "world s = 4" "c \<noteq> NULL" "rdpte_lookup 7 s = Some c"
    using rdpte_boot_thread [of "4 :: nat"] by auto
  let ?st = "put_desc a (\<lambda>d. d\<lparr>pw_spdid := 3, pw_period := 10, fault_cnt := fault_now st\<rparr>) st"
  let ?s = "put_desc c (\<lambda>d. d\<lparr>rp_period := 10, rp_state := PTE_CREATED, rp_fcnt := global_fault_cnt s\<rparr>) s"
  have "map_option (map_prod id (pte_sync a)) (periodic_wake_wait 5 faulty 3 ?st) = map_option (map_prod id (rdpte_sync c)) (hw_periodic_wake_wait 5 faulty 3 ?s)"
    by (rule periodic_wake_wait_stubs_agree [where thd = 7])
      (use b c in \<open>auto simp: faulty_simps faulty_def flaky_def pte_sync_def rdpte_sync_def split: if_splits\<close>)
  then show ?thesis using b(3) c(1) by (intro exI [of _ ?st] exI [of _ ?s] exI [of _ a] exI [of _ c]) simp
qed

text \<open>
  A thread that changes its period. When a thread that already has a descriptor calls
  \<^verbatim>\<open>periodic_wake_create\<close> again and the server accepts, the generated stub stops at an assertion,
  because it allocates a second descriptor for the thread; the hand-written stub returns the answer.
\<close>

theorem periodic_wake_create_twice:
  assumes "pte_table st" "first_map_init st" "vect_id thd" "\<forall>w. cos_get_thd_id E w = thd" "0 < n"
    and "pte_call_desc_lookup thd st = Some a" "a \<noteq> NULL" "rdpte_lookup thd s = Some b" "b \<noteq> NULL" "world s = world st"
    and "server E ''periodic_wake_create'' [spdid, period] (world st) = (ret, False, w)" "ret \<noteq> - EINVAL"
  shows "periodic_wake_create n E spdid period st = None \<and>
    hw_periodic_wake_create n E spdid period s = Some (ret, s\<lparr>world := w\<rparr>)"
proof -
  obtain m where n: "n = Suc m" using assms(5) by (cases n) auto
  have "pte_call_desc_alloc thd (st\<lparr>world := w\<rparr>) = None"
    by (rule pw.alloc_twice) (use assms(1,6,7) in simp_all)
  then have "periodic_wake_create n E spdid period st = None"
    using assms(2,4,11,12)
    by (simp add: periodic_wake_create_def cstub_redo_def n pte_call_map_init_def vect_init_once_def cstub_turn_def pte_desc_update_create_def
        pte_invoke_create_def CSTUB_INVOKE_def pte_track_create_def)
  moreover have "hw_periodic_wake_create n E spdid period s = Some (ret, s\<lparr>world := w\<rparr>)"
    using assms(4,8-11) by (simp add: hw_periodic_wake_create_def n hw_pte_create_turn_def CSTUB_INVOKE_def)
  ultimately show ?thesis by simp
qed

theorem periodic_wake_create_twice_witness:
  "\<exists>(st :: nat pte_stub) (s :: nat rdpte_stub). world st = 0 \<and> periodic_wake_create 1 faulty 3 20 st = None \<and>
     map_option fst (hw_periodic_wake_create 1 faulty 3 20 s) = Some 5"
proof -
  obtain a and st :: "nat pte_stub" where b: "pte_table st" "first_map_init st" "world st = 0" "a \<noteq> NULL" "pte_call_desc_lookup 7 st = Some a"
    using pte_boot_thread [of "0 :: nat"] by auto
  obtain c and s :: "nat rdpte_stub" where c: "world s = 0" "c \<noteq> NULL" "rdpte_lookup 7 s = Some c"
    using rdpte_boot_thread [of "0 :: nat"] by auto
  have "periodic_wake_create 1 faulty 3 20 st = None \<and> hw_periodic_wake_create 1 faulty 3 20 s = Some (5, s\<lparr>world := 0\<rparr>)"
    by (rule periodic_wake_create_twice [where thd = 7 and a = a and b = c]) (use b c in \<open>simp_all add: faulty_simps\<close>)
  then show ?thesis using b(3) by (intro exI [of _ st] exI [of _ s]) simp
qed

end
