(* ===== verification/EvtStub.thy ===== *)
theory EvtStub
  imports Cstub
begin

text \<open>
  The generated client stub of the event interface,
  \<^verbatim>\<open>components/interface/evt/__stubs_rec/__IDL_c_stub.c\<close>. Events form trees: the server can only
  recreate an event under a parent it knows, so that the recovery of an event may have to recover
  its ancestors first. The theory proves that every call keeps the descriptor table and what the
  descriptors say about the events, that calls return as long as the server accepts what it is asked
  to recreate, and that the recovery of an event under a lost parent does not recreate the event.
\<close>

section \<open>State\<close>

datatype evt_state_codes = state_evt_split | state_evt_free | state_evt_wait | state_evt_trigger | evt_state_null

record evt_desc = "evt_state_codes desc_track" +
  ev_spdid :: spdid
  ev_parent_evtid :: int
  ev_grp :: int
  ev_evtid :: int

type_synonym 'w evt_stub = "(ptree, evt_desc, 'w) stub"

abbreviation evt_desc_sz :: int where "evt_desc_sz \<equiv> 32"

section \<open>Descriptors\<close>

definition evt_call_desc_lookup :: "int \<Rightarrow> 'w evt_stub \<Rightarrow> addr option" where
  "evt_call_desc_lookup i st = vect_lookup i st"

definition evt_call_desc_alloc :: "int \<Rightarrow> 'w evt_stub \<Rightarrow> (addr \<times> 'w evt_stub) option" where
  "evt_call_desc_alloc i st = vect_desc_alloc evt_desc_sz (\<lambda>d. d\<lparr>ev_evtid := i\<rparr>) i st"

definition evt_call_desc_dealloc :: "addr \<Rightarrow> 'w evt_stub \<Rightarrow> 'w evt_stub option" where
  "evt_call_desc_dealloc desc st = vect_desc_dealloc evt_desc_sz ev_evtid desc st"

definition evt_call_map_init :: "'w evt_stub \<Rightarrow> 'w evt_stub" where
  "evt_call_map_init st = vect_init_once st"

definition evt_call_desc_cons :: "addr \<Rightarrow> int \<Rightarrow> spdid \<Rightarrow> int \<Rightarrow> int \<Rightarrow> 'w evt_stub \<Rightarrow> 'w evt_stub option" where
  "evt_call_desc_cons desc i spdid parent_evtid grp st = do {
     assert_that (desc \<noteq> NULL);
     Some (put_desc desc (\<lambda>d. d\<lparr>ev_spdid := spdid, ev_parent_evtid := parent_evtid, ev_grp := grp, fault_cnt := fault_now st\<rparr>) st) }"

section \<open>Recovery\<close>

definition evt_recover_data :: "addr \<Rightarrow> 'w evt_stub \<Rightarrow> 'w evt_stub" where
  "evt_recover_data desc st = st"

definition evt_upcall_creator :: "'w env \<Rightarrow> int \<Rightarrow> 'w evt_stub \<Rightarrow> 'w evt_stub" where
  "evt_upcall_creator E i st = snd (call_extern E ''evt_upcall_creator'' [cos_spd_id E, i] st)"

text \<open>
  \<^verbatim>\<open>block_cli_if_basic_id\<close> and \<^verbatim>\<open>call_desc_update\<close> call each other along the parents, and the latter
  calls \<^verbatim>\<open>evt_wait\<close>, which is the argument \<open>wait\<close>. Nothing in the code bounds the recursion (a cycle
  of parents would never end), so each call and each turn of the loop at \<^verbatim>\<open>again\<close> takes one unit of
  fuel. \<open>evt_again\<close> is that loop, with the local variables \<^verbatim>\<open>desc\<close> and \<^verbatim>\<open>id\<close>.
\<close>

function evt_again :: "nat \<Rightarrow> (spdid \<Rightarrow> int \<Rightarrow> 'w evt_stub \<Rightarrow> (int \<times> 'w evt_stub) option) \<Rightarrow> 'w env \<Rightarrow> addr \<Rightarrow> int \<Rightarrow>
      'w evt_stub \<Rightarrow> 'w evt_stub option"
  and evt_basic_id :: "nat \<Rightarrow> (spdid \<Rightarrow> int \<Rightarrow> 'w evt_stub \<Rightarrow> (int \<times> 'w evt_stub) option) \<Rightarrow> 'w env \<Rightarrow> int \<Rightarrow>
      'w evt_stub \<Rightarrow> 'w evt_stub option"
  and evt_call_desc_update :: "nat \<Rightarrow> (spdid \<Rightarrow> int \<Rightarrow> 'w evt_stub \<Rightarrow> (int \<times> 'w evt_stub) option) \<Rightarrow> 'w env \<Rightarrow> int \<Rightarrow>
      evt_state_codes \<Rightarrow> 'w evt_stub \<Rightarrow> (addr \<times> 'w evt_stub) option" where
  "evt_again 0 wait E desc i st = None"
| "evt_again (Suc n) wait E desc i st =
     (let d = descs st desc;
          (retval, st) = call_extern E ''evt_split_exist'' [ev_spdid d, ev_parent_evtid d, ev_grp d, i] st in
      if retval = - EINVAL then do {
        (pdesc, st') \<leftarrow> evt_call_desc_update n wait E (ev_parent_evtid (descs st desc)) state_evt_split st;
        evt_again n wait E desc (ev_parent_evtid (descs st desc)) st' }
      else do {
        assert_that (retval \<noteq> 0);
        Some (evt_recover_data desc (put_desc desc (\<lambda>d. d\<lparr>state := state_evt_split, fault_cnt := fault_now st\<rparr>) st)) })"
| "evt_basic_id 0 wait E i st = None"
| "evt_basic_id (Suc n) wait E i st = do {
     assert_that (i \<noteq> 0);
     desc \<leftarrow> evt_call_desc_lookup i st;
     assert_that (desc \<noteq> NULL);
     evt_again n wait E desc i st }"
| "evt_call_desc_update 0 wait E i to_state st = None"
| "evt_call_desc_update (Suc n) wait E i to_state st =
     (if i = 0 then Some (NULL, st)
      else do {
        desc \<leftarrow> evt_call_desc_lookup i st;
        if desc = NULL then Some (desc, evt_upcall_creator E i st)
        else let st = put_desc desc (\<lambda>d. d\<lparr>next_state := to_state\<rparr>) st in
          if fault_cnt (descs st desc) = fault_now st then Some (desc, st)
          else do {
            st \<leftarrow> evt_basic_id n wait E i (put_desc desc (\<lambda>d. d\<lparr>fault_cnt := fault_now st\<rparr>) st);
            if state (descs st desc) = state_evt_split \<and> to_state = state_evt_trigger then do {
              (r, st) \<leftarrow> wait (ev_spdid (descs st desc)) (ev_evtid (descs st desc)) st;
              Some (desc, st) }
            else Some (desc, st) } })"
  by pat_completeness auto

termination
  by (relation "measure (case_sum fst (case_sum fst fst))") auto

definition evt_recover :: "nat \<Rightarrow> (spdid \<Rightarrow> int \<Rightarrow> 'w evt_stub \<Rightarrow> (int \<times> 'w evt_stub) option) \<Rightarrow> 'w env \<Rightarrow> int \<Rightarrow>
    'w evt_stub \<Rightarrow> 'w evt_stub option" where
  "evt_recover n wait E i st = evt_basic_id n wait E i st"

definition evt_recover_upcall :: "nat \<Rightarrow> (spdid \<Rightarrow> int \<Rightarrow> 'w evt_stub \<Rightarrow> (int \<times> 'w evt_stub) option) \<Rightarrow> 'w env \<Rightarrow> int \<Rightarrow>
    'w evt_stub \<Rightarrow> 'w evt_stub option" where
  "evt_recover_upcall n wait E i st = do { assert_that (i \<noteq> 0); evt_recover n wait E i st }"

section \<open>The stub functions\<close>

text \<open>
  The invocation of wait, trigger and free: an answer of -1 says that the server does not know the
  event, and the invocation is made again after the recovery.
\<close>

definition evt_invoke_with :: "nat \<Rightarrow> (spdid \<Rightarrow> int \<Rightarrow> 'w evt_stub \<Rightarrow> (int \<times> 'w evt_stub) option) \<Rightarrow> 'w env \<Rightarrow> string \<Rightarrow> spdid \<Rightarrow> int \<Rightarrow>
    'w evt_stub \<Rightarrow> (int \<times> bool \<times> 'w evt_stub) option" where
  "evt_invoke_with n wait E f spdid evtid st = do {
     desc \<leftarrow> evt_call_desc_lookup evtid st;
     let (ret, fault, st) = CSTUB_INVOKE E f [spdid, evtid] st in
     if ret = -1 then do {
       st \<leftarrow> evt_recover n wait E evtid st;
       desc \<leftarrow> evt_call_desc_lookup evtid st;
       assert_that (desc \<noteq> NULL);
       Some (CSTUB_INVOKE E f [spdid, evtid] st) }
     else Some (ret, fault, st) }"

definition evt_track_with :: "nat \<Rightarrow> (spdid \<Rightarrow> int \<Rightarrow> 'w evt_stub \<Rightarrow> (int \<times> 'w evt_stub) option) \<Rightarrow> 'w env \<Rightarrow> evt_state_codes \<Rightarrow>
    int \<Rightarrow> int \<Rightarrow> 'w evt_stub \<Rightarrow> (int \<times> 'w evt_stub) option" where
  "evt_track_with n wait E c ret evtid st = do {
     desc \<leftarrow> evt_call_desc_lookup evtid st;
     if ret = - EINVAL then do {
       (desc, st) \<leftarrow> evt_call_desc_update n wait E evtid c st;
       Some (- ELOOP, st) }
     else Some (ret, st) }"

definition evt_track_wait :: "nat \<Rightarrow> (spdid \<Rightarrow> int \<Rightarrow> 'w evt_stub \<Rightarrow> (int \<times> 'w evt_stub) option) \<Rightarrow> 'w env \<Rightarrow>
    int \<Rightarrow> spdid \<Rightarrow> int \<Rightarrow> 'w evt_stub \<Rightarrow> (int \<times> 'w evt_stub) option" where
  "evt_track_wait n wait E ret spdid evtid st = evt_track_with n wait E state_evt_wait ret evtid st"

definition evt_desc_update_wait :: "spdid \<Rightarrow> int \<Rightarrow> 'w evt_stub \<Rightarrow> 'w evt_stub option" where
  "evt_desc_update_wait spdid evtid st = Some st"

definition evt_post_fault_wait :: int where
  "evt_post_fault_wait = 1"

definition evt_invoke_wait :: "nat \<Rightarrow> (spdid \<Rightarrow> int \<Rightarrow> 'w evt_stub \<Rightarrow> (int \<times> 'w evt_stub) option) \<Rightarrow> 'w env \<Rightarrow> spdid \<Rightarrow> int \<Rightarrow>
    'w evt_stub \<Rightarrow> (int \<times> bool \<times> 'w evt_stub) option" where
  "evt_invoke_wait n wait E spdid evtid st = evt_invoke_with n wait E ''evt_wait'' spdid evtid st"

text \<open>\<^verbatim>\<open>evt_wait\<close> as it is called from within itself at most \<open>k\<close> deep.\<close>

primrec evt_wait_at :: "nat \<Rightarrow> nat \<Rightarrow> 'w env \<Rightarrow> spdid \<Rightarrow> int \<Rightarrow> 'w evt_stub \<Rightarrow> (int \<times> 'w evt_stub) option" where
  "evt_wait_at 0 n E spdid evtid st = None"
| "evt_wait_at (Suc k) n E spdid evtid st =
     cstub_redo n E (evt_desc_update_wait spdid evtid) (evt_invoke_wait n (evt_wait_at k n E) E spdid evtid) evt_post_fault_wait
       (\<lambda>ret. evt_track_wait n (evt_wait_at k n E) E ret spdid evtid) (evt_call_map_init st)"

definition evt_wait :: "nat \<Rightarrow> 'w env \<Rightarrow> spdid \<Rightarrow> int \<Rightarrow> 'w evt_stub \<Rightarrow> (int \<times> 'w evt_stub) option" where
  "evt_wait n E spdid evtid st = evt_wait_at n n E spdid evtid st"

definition evt_recover_upcall_entry :: "nat \<Rightarrow> 'w env \<Rightarrow> int \<Rightarrow> 'w evt_stub \<Rightarrow> 'w evt_stub option" where
  "evt_recover_upcall_entry n E i st = evt_recover_upcall n (evt_wait n E) E i st"

definition evt_track_split :: "int \<Rightarrow> spdid \<Rightarrow> int \<Rightarrow> int \<Rightarrow> 'w evt_stub \<Rightarrow> (int \<times> 'w evt_stub) option" where
  "evt_track_split ret spdid parent_evtid grp st =
     (if ret = - EINVAL then Some (ret, st)
      else do {
        (desc, st) \<leftarrow> evt_call_desc_alloc ret st;
        assert_that (desc \<noteq> NULL);
        st \<leftarrow> evt_call_desc_cons desc ret spdid parent_evtid grp st;
        let st = put_desc desc (\<lambda>d. d\<lparr>state := state_evt_split\<rparr>) st in
        Some (ev_evtid (descs st desc), st) })"

definition evt_desc_update_split :: "nat \<Rightarrow> 'w env \<Rightarrow> spdid \<Rightarrow> int \<Rightarrow> int \<Rightarrow> 'w evt_stub \<Rightarrow> 'w evt_stub option" where
  "evt_desc_update_split n E spdid parent_evtid grp st =
     map_option snd (evt_call_desc_update n (evt_wait n E) E parent_evtid state_evt_split st)"

definition evt_post_fault_split :: int where
  "evt_post_fault_split = 1"

definition evt_invoke_split :: "'w env \<Rightarrow> spdid \<Rightarrow> int \<Rightarrow> int \<Rightarrow> 'w evt_stub \<Rightarrow> (int \<times> bool \<times> 'w evt_stub) option" where
  "evt_invoke_split E spdid parent_evtid grp st = do {
     parent_desc \<leftarrow> (if parent_evtid > 1 then evt_call_desc_lookup parent_evtid st else Some NULL);
     let parent_evtid = (if parent_desc \<noteq> NULL then ev_evtid (descs st parent_desc) else parent_evtid) in
     Some (CSTUB_INVOKE E ''evt_split'' [spdid, parent_evtid, grp] st) }"

definition evt_desc_update_free :: "spdid \<Rightarrow> int \<Rightarrow> 'w evt_stub \<Rightarrow> 'w evt_stub option" where
  "evt_desc_update_free spdid evtid st = Some st"

definition evt_post_fault_free :: int where
  "evt_post_fault_free = 1"

definition evt_invoke_free :: "nat \<Rightarrow> 'w env \<Rightarrow> spdid \<Rightarrow> int \<Rightarrow> 'w evt_stub \<Rightarrow> (int \<times> bool \<times> 'w evt_stub) option" where
  "evt_invoke_free n E spdid evtid st = evt_invoke_with n (evt_wait n E) E ''evt_free'' spdid evtid st"

definition evt_track_free :: "int \<Rightarrow> spdid \<Rightarrow> int \<Rightarrow> 'w evt_stub \<Rightarrow> (int \<times> 'w evt_stub) option" where
  "evt_track_free ret spdid evtid st = do {
     desc \<leftarrow> evt_call_desc_lookup evtid st;
     st \<leftarrow> (if desc \<noteq> NULL then evt_call_desc_dealloc desc st else Some st);
     Some (ret, st) }"

definition evt_track_trigger :: "nat \<Rightarrow> 'w env \<Rightarrow> int \<Rightarrow> spdid \<Rightarrow> int \<Rightarrow> 'w evt_stub \<Rightarrow> (int \<times> 'w evt_stub) option" where
  "evt_track_trigger n E ret spdid evtid st = evt_track_with n (evt_wait n E) E state_evt_trigger ret evtid st"

definition evt_desc_update_trigger :: "spdid \<Rightarrow> int \<Rightarrow> 'w evt_stub \<Rightarrow> 'w evt_stub option" where
  "evt_desc_update_trigger spdid evtid st = Some st"

definition evt_post_fault_trigger :: int where
  "evt_post_fault_trigger = 1"

definition evt_invoke_trigger :: "nat \<Rightarrow> 'w env \<Rightarrow> spdid \<Rightarrow> int \<Rightarrow> 'w evt_stub \<Rightarrow> (int \<times> bool \<times> 'w evt_stub) option" where
  "evt_invoke_trigger n E spdid evtid st = evt_invoke_with n (evt_wait n E) E ''evt_trigger'' spdid evtid st"

definition evt_split :: "nat \<Rightarrow> 'w env \<Rightarrow> spdid \<Rightarrow> int \<Rightarrow> int \<Rightarrow> 'w evt_stub \<Rightarrow> (int \<times> 'w evt_stub) option" where
  "evt_split n E spdid parent_evtid grp st =
     cstub_redo n E (evt_desc_update_split n E spdid parent_evtid grp) (evt_invoke_split E spdid parent_evtid grp) evt_post_fault_split
       (\<lambda>ret. evt_track_split ret spdid parent_evtid grp) (evt_call_map_init st)"

definition evt_free :: "nat \<Rightarrow> 'w env \<Rightarrow> spdid \<Rightarrow> int \<Rightarrow> 'w evt_stub \<Rightarrow> (int \<times> 'w evt_stub) option" where
  "evt_free n E spdid evtid st =
     cstub_redo n E (evt_desc_update_free spdid evtid) (evt_invoke_free n E spdid evtid) evt_post_fault_free
       (\<lambda>ret. evt_track_free ret spdid evtid) (evt_call_map_init st)"

definition evt_trigger :: "nat \<Rightarrow> 'w env \<Rightarrow> spdid \<Rightarrow> int \<Rightarrow> 'w evt_stub \<Rightarrow> (int \<times> 'w evt_stub) option" where
  "evt_trigger n E spdid evtid st =
     cstub_redo n E (evt_desc_update_trigger spdid evtid) (evt_invoke_trigger n E spdid evtid) evt_post_fault_trigger
       (\<lambda>ret. evt_track_trigger n E ret spdid evtid) (evt_call_map_init st)"

section \<open>The descriptor table\<close>

abbreviation evt_table :: "'w evt_stub \<Rightarrow> bool" where
  "evt_table \<equiv> vect_table evt_desc_sz ev_evtid"

lemma evt_desc_eqs:
  "evt_call_desc_lookup = vect_lookup" "evt_call_desc_dealloc = vect_desc_dealloc evt_desc_sz ev_evtid"
  "evt_call_desc_alloc = (\<lambda>i st. vect_desc_alloc evt_desc_sz ((\<lambda>i d. d\<lparr>ev_evtid := i\<rparr>) i) i st)"
  by (intro ext; simp add: evt_call_desc_lookup_def evt_call_desc_dealloc_def evt_call_desc_alloc_def)+

interpretation ev: desc_vect evt_table vect_id evt_call_desc_lookup ev_evtid evt_call_desc_dealloc evt_call_desc_alloc
  unfolding evt_desc_eqs by (rule desc_vectI) simp

abbreviation evt_view :: "'w evt_stub \<Rightarrow> int \<Rightarrow> evt_desc option" where
  "evt_view \<equiv> view evt_call_desc_lookup"

lemma evt_lookup_simps [simp]:
  "evt_call_desc_lookup i (st\<lparr>world := w\<rparr>) = evt_call_desc_lookup i st"
  "evt_call_desc_lookup i (st\<lparr>global_fault_cnt := c\<rparr>) = evt_call_desc_lookup i st"
  by (simp_all add: evt_desc_eqs)

section \<open>Recovery only touches the tracking fields\<close>

definition evt_same :: "'w evt_stub \<Rightarrow> 'w evt_stub \<Rightarrow> bool" where
  "evt_same st s \<longleftrightarrow> maps s = maps st \<and> objs s = objs st \<and> first_map_init s = first_map_init st \<and>
     (\<forall>b. ev_evtid (descs s b) = ev_evtid (descs st b) \<and> ev_spdid (descs s b) = ev_spdid (descs st b) \<and>
       ev_parent_evtid (descs s b) = ev_parent_evtid (descs st b) \<and> ev_grp (descs s b) = ev_grp (descs st b))"

lemma evt_same_refl [simp]: "evt_same st st"
  by (simp add: evt_same_def)

lemma evt_same_trans: "evt_same s t \<Longrightarrow> evt_same t u \<Longrightarrow> evt_same s u"
  by (simp add: evt_same_def)

lemma evt_same_simps [simp]:
  "evt_same st (s\<lparr>world := w\<rparr>) = evt_same st s" "evt_same st (s\<lparr>global_fault_cnt := c\<rparr>) = evt_same st s"
  "evt_same st (put_desc a (\<lambda>d. d\<lparr>next_state := x\<rparr>) s) = evt_same st s"
  "evt_same st (put_desc a (\<lambda>d. d\<lparr>next_state := x, fault_cnt := y\<rparr>) s) = evt_same st s"
  "evt_same st (put_desc a (\<lambda>d. d\<lparr>state := z, fault_cnt := y\<rparr>) s) = evt_same st s"
  by (auto simp: evt_same_def put_desc_def)

lemma evt_same_frame:
  "CSTUB_INVOKE E f args st = (ret, fault, s) \<Longrightarrow> evt_same st s"
  "CSTUB_FAULT_UPDATE E st = Some s \<Longrightarrow> evt_same st s"
  "call_extern E f args st = (r, s) \<Longrightarrow> evt_same st s"
  by (auto dest: invoke_frame fault_update_frame simp: call_extern_def split: prod.splits)

lemma evt_same_look: "evt_same st s \<Longrightarrow> evt_call_desc_lookup i s = evt_call_desc_lookup i st"
  by (rule ev.look_cong) (simp add: evt_same_def)

lemma evt_same_ok: "evt_same st s \<Longrightarrow> evt_table st \<Longrightarrow> evt_table s"
  by (rule ev.ok_cong) (simp_all add: evt_same_def)

lemma evt_same_first: "evt_same st s \<Longrightarrow> first_map_init s = first_map_init st"
  by (simp add: evt_same_def)

definition evt_wait_same :: "(spdid \<Rightarrow> int \<Rightarrow> 'w evt_stub \<Rightarrow> (int \<times> 'w evt_stub) option) \<Rightarrow> bool" where
  "evt_wait_same wait \<longleftrightarrow> (\<forall>spd i s r s'. first_map_init s \<longrightarrow> wait spd i s = Some (r, s') \<longrightarrow> evt_same s s')"

definition evt_again_same where
  "evt_again_same n wait E \<longleftrightarrow> (\<forall>desc i st s'. first_map_init st \<longrightarrow> evt_again n wait E desc i st = Some s' \<longrightarrow> evt_same st s')"

definition evt_basic_id_same where
  "evt_basic_id_same n wait E \<longleftrightarrow> (\<forall>i st s'. first_map_init st \<longrightarrow> evt_basic_id n wait E i st = Some s' \<longrightarrow> evt_same st s')"

definition evt_update_same where
  "evt_update_same n wait E \<longleftrightarrow> (\<forall>i c st a s'. first_map_init st \<longrightarrow> evt_call_desc_update n wait E i c st = Some (a, s') \<longrightarrow> evt_same st s')"

lemma evt_again_same_Suc:
  assumes IH: "evt_again_same n wait E" "evt_update_same n wait E"
  shows "evt_again_same (Suc n) wait E"
  unfolding evt_again_same_def
proof (intro allI impI)
  fix desc i st s' assume st: "first_map_init st" and run: "evt_again (Suc n) wait E desc i st = Some s'"
  obtain r s1 where x: "call_extern E ''evt_split_exist'' [ev_spdid (descs st desc), ev_parent_evtid (descs st desc), ev_grp (descs st desc), i] st = (r, s1)"
    by (rule prod.exhaust)
  have s1: "evt_same st s1" "first_map_init s1" using evt_same_frame(3) [OF x] st by (auto simp: evt_same_def)
  show "evt_same st s'"
  proof (cases "r = - EINVAL")
    case True
    then obtain p s2 where s2: "evt_call_desc_update n wait E (ev_parent_evtid (descs s1 desc)) state_evt_split s1 = Some (p, s2)"
      "evt_again n wait E desc (ev_parent_evtid (descs s1 desc)) s2 = Some s'"
      using run x by (auto simp: bind_eq_Some_conv)
    have t: "evt_same s1 s2" using IH(2) s1(2) s2(1) unfolding evt_update_same_def by blast
    then have "first_map_init s2" using s1(2) by (simp add: evt_same_def)
    then have "evt_same s2 s'" using IH(1) s2(2) unfolding evt_again_same_def by blast
    then show ?thesis using evt_same_trans [OF evt_same_trans [OF s1(1) t]] by blast
  next
    case False
    then show ?thesis using run x s1 by (auto simp: evt_recover_data_def bind_eq_Some_conv)
  qed
qed

lemma evt_update_same_Suc:
  assumes IH: "evt_basic_id_same n wait E" and wait: "evt_wait_same wait"
  shows "evt_update_same (Suc n) wait E"
  unfolding evt_update_same_def
proof (intro allI impI)
  fix i c st a s' assume st: "first_map_init st" and run: "evt_call_desc_update (Suc n) wait E i c st = Some (a, s')"
  show "evt_same st s'"
  proof (cases "i = 0 \<or> evt_call_desc_lookup i st = Some NULL")
    case True
    then show ?thesis using run by (cases "extern E ''evt_upcall_creator'' [cos_spd_id E, i] (world st)")
      (auto simp: evt_upcall_creator_def call_extern_def split: if_splits)
  next
    case False
    then obtain d where d: "evt_call_desc_lookup i st = Some d" "d \<noteq> NULL" "i \<noteq> 0" using run by (auto simp: bind_eq_Some_conv)
    show ?thesis
    proof (cases "fault_cnt (descs st d) = fault_now st")
      case True
      then show ?thesis using run d by (auto simp: Let_def)
    next
      case False
      let ?st = "put_desc d (\<lambda>d. d\<lparr>next_state := c, fault_cnt := fault_now st\<rparr>) st"
      obtain s2 where s2: "evt_basic_id n wait E i ?st = Some s2"
        "(if state (descs s2 d) = state_evt_split \<and> c = state_evt_trigger
          then \<exists>r. wait (ev_spdid (descs s2 d)) (ev_evtid (descs s2 d)) s2 = Some (r, s') else s' = s2)"
        using run d False by (auto simp: Let_def bind_eq_Some_conv split: if_splits)
      have "evt_same ?st s2" using IH s2(1) st unfolding evt_basic_id_same_def by (metis put_desc_simps)
      then have t: "evt_same st s2" using evt_same_trans [of st ?st s2] by simp
      then have "first_map_init s2" using st by (simp add: evt_same_def)
      then have "evt_same s2 s'" using s2(2) wait unfolding evt_wait_same_def by (auto split: if_splits)
      then show ?thesis using t evt_same_trans by blast
    qed
  qed
qed

lemma evt_recovery_same_all:
  assumes "evt_wait_same wait"
  shows "evt_again_same n wait E \<and> evt_basic_id_same n wait E \<and> evt_update_same n wait E"
proof (induction n)
  case 0
  then show ?case by (simp add: evt_again_same_def evt_basic_id_same_def evt_update_same_def)
next
  case (Suc n)
  then have "evt_basic_id_same (Suc n) wait E"
    unfolding evt_basic_id_same_def evt_again_same_def by (auto simp: bind_eq_Some_conv)
  then show ?case using Suc evt_again_same_Suc evt_update_same_Suc assms by blast
qed

lemma evt_recovery_same:
  assumes "evt_wait_same wait" "first_map_init st"
  shows "evt_basic_id n wait E i st = Some s' \<Longrightarrow> evt_same st s'"
    and "evt_call_desc_update n wait E i c st = Some (a, s') \<Longrightarrow> evt_same st s'"
  using evt_recovery_same_all [OF assms(1), of n E] assms(2) unfolding evt_basic_id_same_def evt_update_same_def by blast+

lemma evt_invoke_with_same:
  assumes w: "evt_wait_same wait" and st: "first_map_init st" and run: "evt_invoke_with n wait E f spd i st = Some (ret, fault, s')"
  shows "evt_same st s'"
proof -
  obtain r1 f1 s1 where x: "CSTUB_INVOKE E f [spd, i] st = (r1, f1, s1)" by (metis prod_cases3)
  have s1: "evt_same st s1" "first_map_init s1" using evt_same_frame(1) [OF x] st by (auto simp: evt_same_def)
  show ?thesis
  proof (cases "r1 = -1")
    case True
    then obtain s2 where s2: "evt_basic_id n wait E i s1 = Some s2" "CSTUB_INVOKE E f [spd, i] s2 = (ret, fault, s')"
      using run x by (auto simp: evt_invoke_with_def evt_recover_def bind_eq_Some_conv)
    show ?thesis
      using evt_same_trans [OF s1(1) evt_same_trans [OF evt_recovery_same(1) [OF w s1(2) s2(1)] evt_same_frame(1) [OF s2(2)]]] .
  next
    case False
    then show ?thesis using run x s1 by (auto simp: evt_invoke_with_def bind_eq_Some_conv)
  qed
qed

lemma evt_track_with_same:
  assumes w: "evt_wait_same wait" and st: "first_map_init st" and run: "evt_track_with n wait E c ret i st = Some (ret', s')"
  shows "evt_same st s'"
  using run evt_recovery_same(2) [OF w st] by (auto simp: evt_track_with_def bind_eq_Some_conv split: if_splits)

text \<open>A loop whose parts only touch the tracking fields.\<close>

lemma evt_loop_same:
  assumes run: "cstub_redo n E upd ivk 1 track st = Some (r, st')" and st: "first_map_init st"
    and upd: "\<And>s s'. first_map_init s \<Longrightarrow> upd s = Some s' \<Longrightarrow> evt_same s s'"
    and ivk: "\<And>s ret fault s'. first_map_init s \<Longrightarrow> ivk s = Some (ret, fault, s') \<Longrightarrow> evt_same s s'"
    and track: "\<And>s ret ret' s'. evt_same st s \<Longrightarrow> first_map_init s \<Longrightarrow> track ret s = Some (ret', s') \<Longrightarrow> if ret' = - ELOOP then evt_same s s' else Q s ret' s'"
  shows "\<exists>s. evt_same st s \<and> (\<exists>ret. track ret s = Some (r, st')) \<and> Q s r st'"
proof -
  have fi: "evt_same st s \<Longrightarrow> first_map_init s" for s using st by (simp add: evt_same_def)
  show ?thesis
  proof (rule cstub_redo_partial [OF run, where I = "evt_same st" and J = "evt_same st" and K = "\<lambda>ret fault. evt_same st"
        and Q = "\<lambda>r st'. \<exists>s. evt_same st s \<and> (\<exists>ret. track ret s = Some (r, st')) \<and> Q s r st'"])
    show "evt_same st s \<Longrightarrow> upd s = Some s' \<Longrightarrow> evt_same st s'" for s s'
      using upd [OF fi] evt_same_trans by blast
    show "evt_same st s \<Longrightarrow> ivk s = Some (ret, fault, s') \<Longrightarrow> evt_same st s'" for s ret fault s'
      using ivk [OF fi] evt_same_trans by blast
    show "evt_same st s \<Longrightarrow> CSTUB_FAULT_UPDATE E s = Some s' \<Longrightarrow> evt_same st s'" for s s'
      using evt_same_frame(2) evt_same_trans by blast
    show "if ret' = - ELOOP then evt_same st s' else \<exists>s. evt_same st s \<and> (\<exists>ret. track ret s = Some (ret', s')) \<and> Q s ret' s'"
      if "evt_same st s" "track ret s = Some (ret', s')" for ret s ret' s'
      using that track [OF that(1) fi [OF that(1)] that(2)] evt_same_trans by auto
  qed simp_all
qed

lemma evt_wait_at_same: "evt_wait_same (evt_wait_at k n E)"
proof (induction k)
  case (Suc k)
  show ?case
    unfolding evt_wait_same_def
  proof (intro allI impI)
    fix spd i s r s' assume s: "first_map_init s" and run: "evt_wait_at (Suc k) n E spd i s = Some (r, s')"
    let ?ivk = "evt_invoke_wait n (evt_wait_at k n E) E spd i" and ?track = "\<lambda>ret. evt_track_wait n (evt_wait_at k n E) E ret spd i"
    have run': "cstub_redo n E (\<lambda>s. Some s) ?ivk 1 ?track s = Some (r, s')"
      using run s by (simp add: evt_call_map_init_def vect_init_once_def evt_post_fault_wait_def evt_desc_update_wait_def [abs_def])
    have "\<exists>t. evt_same s t \<and> (\<exists>ret. ?track ret t = Some (r, s')) \<and> evt_same t s'"
      by (rule evt_loop_same [OF run' s])
        (auto simp: evt_invoke_wait_def evt_track_wait_def intro: evt_invoke_with_same [OF Suc] evt_track_with_same [OF Suc])
    then show "evt_same s s'" using evt_same_trans by blast
  qed
qed (simp add: evt_wait_same_def)

lemma evt_wait_wait_same: "evt_wait_same (evt_wait n E)"
  using evt_wait_at_same [of n n E] by (simp add: evt_wait_same_def evt_wait_def)

section \<open>What the stub promises\<close>

text \<open>
  To its client the stub is a map from the ids of the events to their component, parent and group.
\<close>

type_synonym evt_map = "int \<Rightarrow> (spdid \<times> int \<times> int) option"

definition evt_abs :: "'w evt_stub \<Rightarrow> evt_map" where
  "evt_abs st i = (if vect_id i then map_option (\<lambda>d. (ev_spdid d, ev_parent_evtid d, ev_grp d)) (evt_view st i) else None)"

datatype evt_call = Split spdid int int | Free spdid int | Wait spdid int | Trigger spdid int

fun evt_exec :: "nat \<Rightarrow> 'w env \<Rightarrow> evt_call \<Rightarrow> 'w evt_stub \<Rightarrow> (int \<times> 'w evt_stub) option" where
  "evt_exec n E (Split spd parent grp) st = evt_split n E spd parent grp st"
| "evt_exec n E (Free spd i) st = evt_free n E spd i st"
| "evt_exec n E (Wait spd i) st = evt_wait n E spd i st"
| "evt_exec n E (Trigger spd i) st = evt_trigger n E spd i st"

fun evt_valid :: "evt_call \<Rightarrow> bool" where
  "evt_valid (Free spd i) = vect_id i"
| "evt_valid _ = True"

fun evt_spec :: "evt_call \<Rightarrow> int \<Rightarrow> evt_map \<Rightarrow> evt_map \<Rightarrow> bool" where
  "evt_spec (Split spd parent grp) r m m' =
     (if r = - EINVAL then m' = m else vect_id r \<and> m r = None \<and> m' = m(r \<mapsto> (spd, parent, grp)))"
| "evt_spec (Free spd i) r m m' = (m' = m(i := None))"
| "evt_spec (Wait spd i) r m m' = (m' = m)"
| "evt_spec (Trigger spd i) r m m' = (m' = m)"

lemma evt_same_abs:
  assumes "evt_same st s"
  shows "evt_abs s = evt_abs st"
proof -
  have "map_option (\<lambda>d. (ev_spdid d, ev_parent_evtid d, ev_grp d)) (evt_view s i) =
      map_option (\<lambda>d. (ev_spdid d, ev_parent_evtid d, ev_grp d)) (evt_view st i)" for i
    using assms evt_same_look [OF assms, of i] by (auto simp: evt_same_def view_def split: option.split)
  then show ?thesis by (simp add: evt_abs_def fun_eq_iff)
qed

lemma evt_exec_init: "evt_exec n E opr st = evt_exec n E opr (evt_call_map_init st)"
proof -
  have "evt_call_map_init (evt_call_map_init st) = evt_call_map_init st" by (simp add: evt_call_map_init_def vect_init_once_def)
  then show ?thesis by (cases opr; cases n) (simp_all add: evt_split_def evt_free_def evt_trigger_def evt_wait_def)
qed

lemma evt_init_id: "first_map_init st \<Longrightarrow> evt_call_map_init st = st"
  by (simp add: evt_call_map_init_def vect_init_once_def)

text \<open>The tracking functions that change the table.\<close>

lemma evt_track_free_ok:
  assumes t: "evt_table s" and i: "vect_id i" and run: "evt_track_free ret spd i s = Some (ret', s')"
  shows "evt_table s'" "first_map_init s' = first_map_init s" "evt_abs s' = (evt_abs s)(i := None)"
proof -
  obtain a where a: "evt_call_desc_lookup i s = Some a" using ev.look_total [OF t i] by blast
  consider "a = NULL" "s' = s" | "a \<noteq> NULL" "evt_call_desc_dealloc a s = Some s'"
    using run a by (auto simp: evt_track_free_def bind_eq_Some_conv split: if_splits)
  then show "evt_table s'" "first_map_init s' = first_map_init s" "evt_abs s' = (evt_abs s)(i := None)"
  proof (atomize (full), cases)
    case 1
    then show "evt_table s' \<and> first_map_init s' = first_map_init s \<and> evt_abs s' = (evt_abs s)(i := None)"
      using t a by (auto simp: evt_abs_def view_def fun_eq_iff)
  next
    case 2
    have "same_rest s s'" using ev.dealloc_frame [OF 2(2)] by simp
    then show "evt_table s' \<and> first_map_init s' = first_map_init s \<and> evt_abs s' = (evt_abs s)(i := None)"
      using ev.dealloc_ok [OF t i a 2] ev.view_dealloc [OF t i a 2] by (auto simp: same_rest_def evt_abs_def fun_eq_iff)
  qed
qed

lemma evt_track_split_ok:
  assumes t: "evt_table s" and run: "evt_track_split ret spd parent grp s = Some (ret', s')"
  shows "evt_table s' \<and> first_map_init s' = first_map_init s \<and> ret' = ret \<and> evt_spec (Split spd parent grp) ret' (evt_abs s) (evt_abs s')"
proof (cases "ret = - EINVAL")
  case True
  then show ?thesis using t run by (auto simp: evt_track_split_def)
next
  case False
  then obtain a s1 where al: "evt_call_desc_alloc ret s = Some (a, s1)" and a: "a \<noteq> NULL"
    using run by (auto simp: evt_track_split_def bind_eq_Some_conv)
  let ?f = "\<lambda>d. d\<lparr>ev_spdid := spd, ev_parent_evtid := parent, ev_grp := grp, fault_cnt := fault_now s1, state := state_evt_split\<rparr>"
  have s1: "evt_table s1" "vect_id ret" "evt_call_desc_lookup ret s = Some NULL"
    using ev.alloc_ok [OF t al] ev.alloc_free [OF t al] by auto
  have "evt_call_desc_lookup ret s1 = Some a" using ev.alloc_look [OF t al s1(2)] by simp
  then have key: "ev_evtid (descs s1 a) = ret" by (rule ev.look_key [OF s1(1,2) _ a])
  have s': "s' = put_desc a ?f s1" "ret' = ret"
    using run False al a key by (auto simp: evt_track_split_def evt_call_desc_cons_def Let_def)
  have "evt_table s'" unfolding s'(1) by (rule ev.put_ok [OF s1(1)]) simp
  moreover have "first_map_init s' = first_map_init s" using ev.alloc_frame [OF t al] by (simp add: s'(1) same_rest_def)
  moreover have "evt_abs s' = (evt_abs s)(ret \<mapsto> (spd, parent, grp))"
    using ev.view_alloc_put [OF t al, of _ ?f] s1(2) by (auto simp: evt_abs_def s'(1) fun_eq_iff)
  moreover have "evt_abs s ret = None" using s1(3) by (simp add: evt_abs_def view_def)
  ultimately show ?thesis using False s1(2) s'(2) by simp
qed

lemma evt_exec_ok:
  assumes t: "evt_table st" and st: "first_map_init st" and v: "evt_valid opr" and run: "evt_exec n E opr st = Some (r, st')"
  shows "evt_table st' \<and> first_map_init st' \<and> evt_spec opr r (evt_abs st) (evt_abs st')"
proof (cases opr)
  case (Split spd parent grp)
  let ?track = "\<lambda>ret. evt_track_split ret spd parent grp"
  let ?upd = "evt_desc_update_split n E spd parent grp" and ?ivk = "evt_invoke_split E spd parent grp"
  let ?Q = "\<lambda>s r s'. evt_table s \<longrightarrow> evt_table s' \<and> first_map_init s' = first_map_init s \<and> evt_spec opr r (evt_abs s) (evt_abs s')"
  have run: "cstub_redo n E ?upd ?ivk 1 ?track st = Some (r, st')"
    using run st Split by (simp add: evt_split_def evt_init_id evt_post_fault_split_def)
  have "\<exists>s. evt_same st s \<and> (\<exists>ret. ?track ret s = Some (r, st')) \<and> ?Q s r st'"
  proof (rule evt_loop_same [OF run st])
    show "first_map_init s \<Longrightarrow> ?upd s = Some s' \<Longrightarrow> evt_same s s'" for s s'
      using evt_recovery_same(2) [OF evt_wait_wait_same] by (auto simp: evt_desc_update_split_def)
    show "first_map_init s \<Longrightarrow> ?ivk s = Some (ret, fault, s') \<Longrightarrow> evt_same s s'" for s ret fault s'
      using evt_same_frame(1) by (auto simp: evt_invoke_split_def bind_eq_Some_conv Let_def)
    show "if ret' = - ELOOP then evt_same s s' else ?Q s ret' s'" if s: "evt_same st s" and run: "?track ret s = Some (ret', s')" for s ret ret' s'
      using evt_track_split_ok [OF evt_same_ok [OF s t] run] Split by (auto split: if_splits)
  qed
  then show ?thesis using evt_same_ok evt_same_abs evt_same_first t st by metis
next
  case (Free spd i)
  let ?track = "\<lambda>ret. evt_track_free ret spd i" and ?ivk = "evt_invoke_free n E spd i"
  let ?I = "\<lambda>s. evt_table s \<and> first_map_init s \<and> (evt_abs s)(i := None) = (evt_abs st)(i := None)"
  let ?Q = "\<lambda>(r :: int) s. evt_table s \<and> first_map_init s \<and> evt_abs s = (evt_abs st)(i := None)"
  have i: "vect_id i" using v Free by simp
  have run: "cstub_redo n E (evt_desc_update_free spd i) ?ivk evt_post_fault_free ?track st = Some (r, st')"
    using run st Free by (simp add: evt_free_def evt_init_id)
  have same: "?I s \<Longrightarrow> evt_same s s' \<Longrightarrow> ?I s'" for s s'
    using evt_same_ok [of s s'] evt_same_abs [of s s'] evt_same_first [of s s'] by simp
  have "?Q r st'"
  proof (rule cstub_redo_partial [OF run, where I = ?I and J = ?I and K = "\<lambda>ret fault. ?I" and Q = ?Q])
    show "?I s'" if "?I s" "evt_desc_update_free spd i s = Some s'" for s s' using that by (simp add: evt_desc_update_free_def)
    show "?I s'" if "?I s" "?ivk s = Some (ret, fault, s')" for s ret fault s'
      using that same evt_invoke_with_same [OF evt_wait_wait_same] unfolding evt_invoke_free_def by blast
    show "?I s'" if "?I s" "CSTUB_FAULT_UPDATE E s = Some s'" for s s' using that same evt_same_frame(2) by blast
    show "if ret' = - ELOOP then ?I s' else ?Q ret' s'" if "?I s" "?track ret s = Some (ret', s')" for ret s ret' s'
      using that evt_track_free_ok [OF _ i that(2)] by auto
  qed (use t st in \<open>simp_all add: evt_post_fault_free_def\<close>)
  then show ?thesis using Free by simp
next
  case (Wait spd i)
  then have "evt_same st st'" using run st evt_wait_wait_same [of n E] by (simp add: evt_wait_same_def)
  then show ?thesis using Wait evt_same_ok [of st st'] t st evt_same_abs [of st st'] evt_same_first [of st st'] by simp
next
  case (Trigger spd i)
  let ?track = "\<lambda>ret. evt_track_trigger n E ret spd i"
  have run: "cstub_redo n E (\<lambda>s. Some s) (evt_invoke_trigger n E spd i) 1 ?track st = Some (r, st')"
    using run st Trigger by (simp add: evt_trigger_def evt_init_id evt_post_fault_trigger_def evt_desc_update_trigger_def [abs_def])
  have "\<exists>s. evt_same st s \<and> (\<exists>ret. ?track ret s = Some (r, st')) \<and> evt_same s st'"
    by (rule evt_loop_same [OF run st])
      (auto simp: evt_invoke_trigger_def evt_track_trigger_def intro: evt_invoke_with_same [OF evt_wait_wait_same]
        evt_track_with_same [OF evt_wait_wait_same])
  then have "evt_same st st'" using evt_same_trans by blast
  then show ?thesis using Trigger evt_same_ok [of st st'] t st evt_same_abs [of st st'] evt_same_first [of st st'] by simp
qed

section \<open>Calls that return\<close>

text \<open>The server recreates every event it is asked for.\<close>

definition evt_recreates :: "'w env \<Rightarrow> bool" where
  "evt_recreates E \<longleftrightarrow> (\<forall>args w. fst (extern E ''evt_split_exist'' args w) \<noteq> - EINVAL \<and> fst (extern E ''evt_split_exist'' args w) \<noteq> 0)"

text \<open>The event \<open>i\<close> has a descriptor.\<close>

definition evt_has :: "int \<Rightarrow> 'w evt_stub \<Rightarrow> bool" where
  "evt_has i st \<longleftrightarrow> evt_table st \<and> first_map_init st \<and> vect_id i \<and> i \<noteq> 0 \<and> evt_view st i \<noteq> None"

lemma evt_has_look: "evt_has i st \<Longrightarrow> \<exists>a. evt_call_desc_lookup i st = Some a \<and> a \<noteq> NULL"
  by (auto simp: evt_has_def view_def split: option.splits if_splits)

lemma evt_has_same: "evt_has i st \<Longrightarrow> evt_same st s \<Longrightarrow> evt_has i s"
  using evt_same_ok [of st s] evt_same_first [of st s] evt_same_look [of st s i] by (auto simp: evt_has_def view_def split: option.splits)

lemma evt_basic_id_returns:
  assumes r: "evt_recreates E" and fw: "fails_within E b" and h: "evt_has i st" and w: "evt_wait_same wait"
  shows "\<exists>s'. evt_basic_id (Suc (Suc n)) wait E i st = Some s' \<and> evt_has i s' \<and> b (world s') \<le> b (world st)"
proof -
  obtain a where a: "evt_call_desc_lookup i st = Some a" "a \<noteq> NULL" using evt_has_look [OF h] by blast
  have i: "i \<noteq> 0" "first_map_init st" using h by (auto simp: evt_has_def)
  let ?args = "[ev_spdid (descs st a), ev_parent_evtid (descs st a), ev_grp (descs st a), i]"
  obtain ret w' where x: "extern E ''evt_split_exist'' ?args (world st) = (ret, w')" by (rule prod.exhaust)
  have ret: "ret \<noteq> - EINVAL" "ret \<noteq> 0" using r x unfolding evt_recreates_def by (metis fst_conv)+
  let ?s = "put_desc a (\<lambda>d. d\<lparr>state := state_evt_split, fault_cnt := fault_now st\<rparr>) (st\<lparr>world := w'\<rparr>)"
  have run: "evt_basic_id (Suc (Suc n)) wait E i st = Some ?s"
    using i(1) a x ret by (simp add: call_extern_def evt_recover_data_def)
  have "evt_has i ?s" by (rule evt_has_same [OF h evt_recovery_same(1) [OF w i(2) run]])
  then show ?thesis using run fails_within_extern [OF fw x] by simp
qed

lemma evt_update_returns:
  assumes r: "evt_recreates E" and fw: "fails_within E b" and h: "evt_has i st" and w: "evt_wait_same wait"
    and wait: "\<And>s spd. c = state_evt_trigger \<Longrightarrow> evt_has i s \<Longrightarrow> b (world s) \<le> b (world st) \<Longrightarrow>
       \<exists>r s'. wait spd i s = Some (r, s') \<and> b (world s') \<le> b (world s)"
  shows "\<exists>a s'. evt_call_desc_update (Suc (Suc (Suc n))) wait E i c st = Some (a, s') \<and> evt_has i s' \<and> b (world s') \<le> b (world st)"
proof -
  obtain a where a: "evt_call_desc_lookup i st = Some a" "a \<noteq> NULL" using evt_has_look [OF h] by blast
  have i: "i \<noteq> 0" "first_map_init st" "evt_table st" "vect_id i" using h by (auto simp: evt_has_def)
  let ?f = "\<lambda>d. d\<lparr>next_state := c, fault_cnt := fault_now st\<rparr>"
  have same: "evt_same st (put_desc a ?f st)" by simp
  show ?thesis
  proof (cases "fault_cnt (descs st a) = fault_now st")
    case True
    then have run: "evt_call_desc_update (Suc (Suc (Suc n))) wait E i c st = Some (a, put_desc a (\<lambda>d. d\<lparr>next_state := c\<rparr>) st)"
      using i(1) a by (simp add: Let_def)
    then show ?thesis using evt_has_same [OF h evt_recovery_same(2) [OF w i(2) run]] by simp
  next
    case False
    obtain s1 where s1: "evt_basic_id (Suc (Suc n)) wait E i (put_desc a ?f st) = Some s1" "evt_has i s1" "b (world s1) \<le> b (world st)"
      using evt_basic_id_returns [OF r fw evt_has_same [OF h same] w, of n] by auto
    have "evt_call_desc_lookup i s1 = Some a"
      using evt_same_look [OF evt_recovery_same(1) [OF w _ s1(1)], of i] a(1) i(2) by simp
    then have key: "ev_evtid (descs s1 a) = i" using ev.look_key [of s1 i a] s1(2) a(2) by (simp add: evt_has_def)
    show ?thesis
    proof (cases "state (descs s1 a) = state_evt_split \<and> c = state_evt_trigger")
      case True
      then obtain r s2 where s2: "wait (ev_spdid (descs s1 a)) i s1 = Some (r, s2)" "b (world s2) \<le> b (world s1)"
        using wait [OF _ s1(2,3)] by blast
      have run: "evt_call_desc_update (Suc (Suc (Suc n))) wait E i c st = Some (a, s2)"
        using i(1) a False s1(1) s2(1) True key by (simp add: Let_def del: evt_basic_id.simps)
      then show ?thesis using evt_has_same [OF h evt_recovery_same(2) [OF w i(2) run]] s1(3) s2(2) by auto
    next
      case no: False
      then have "evt_call_desc_update (Suc (Suc (Suc n))) wait E i c st = Some (a, s1)"
        using i(1) a False s1(1) no by (auto simp: Let_def simp del: evt_basic_id.simps)
      then show ?thesis using s1(2,3) by blast
    qed
  qed
qed

lemma evt_invoke_returns:
  assumes r: "evt_recreates E" and fw: "fails_within E b" and h: "evt_has i st" and w: "evt_wait_same wait"
  shows "\<exists>ret fault s'. evt_invoke_with (Suc (Suc n)) wait E f spd i st = Some (ret, fault, s') \<and> evt_has i s' \<and>
    b (world s') \<le> b (world st) \<and> (fault \<or> ret = - EINVAL \<or> ret = - ELOOP \<longrightarrow> b (world s') < b (world st))"
proof -
  obtain a where a: "evt_call_desc_lookup i st = Some a" using evt_has_look [OF h] by blast
  obtain r1 f1 s1 where x: "CSTUB_INVOKE E f [spd, i] st = (r1, f1, s1)" by (metis prod_cases3)
  have h1: "evt_has i s1" using evt_has_same [OF h evt_same_frame(1) [OF x]] .
  note b1 = invoke_budget [OF fw x]
  show ?thesis
  proof (cases "r1 = -1")
    case True
    obtain s2 where s2: "evt_basic_id (Suc (Suc n)) wait E i s1 = Some s2" "evt_has i s2" "b (world s2) \<le> b (world s1)"
      using evt_basic_id_returns [OF r fw h1 w] by blast
    obtain a2 where a2: "evt_call_desc_lookup i s2 = Some a2" "a2 \<noteq> NULL" using evt_has_look [OF s2(2)] by blast
    obtain r3 f3 s3 where y: "CSTUB_INVOKE E f [spd, i] s2 = (r3, f3, s3)" by (metis prod_cases3)
    have "evt_invoke_with (Suc (Suc n)) wait E f spd i st = Some (r3, f3, s3)"
      using a x True s2(1) a2 y by (simp add: evt_invoke_with_def evt_recover_def del: evt_basic_id.simps)
    then show ?thesis using invoke_budget [OF fw y] b1 s2(3) evt_has_same [OF s2(2) evt_same_frame(1) [OF y]] by auto
  next
    case False
    then have "evt_invoke_with (Suc (Suc n)) wait E f spd i st = Some (r1, f1, s1)" using a x by (simp add: evt_invoke_with_def)
    then show ?thesis using b1 h1 by auto
  qed
qed

lemma evt_track_returns:
  assumes r: "evt_recreates E" and fw: "fails_within E b" and h: "evt_has i st" and w: "evt_wait_same wait"
    and wait: "\<And>s spd. c = state_evt_trigger \<Longrightarrow> evt_has i s \<Longrightarrow> b (world s) \<le> b (world st) \<Longrightarrow>
       \<exists>r s'. wait spd i s = Some (r, s') \<and> b (world s') \<le> b (world s)"
  shows "\<exists>ret' s'. evt_track_with (Suc (Suc (Suc n))) wait E c ret i st = Some (ret', s') \<and> b (world s') \<le> b (world st) \<and> evt_has i s' \<and>
    (ret' = - ELOOP \<longrightarrow> ret = - EINVAL \<or> ret = - ELOOP)"
proof -
  obtain a where a: "evt_call_desc_lookup i st = Some a" using evt_has_look [OF h] by blast
  show ?thesis
  proof (cases "ret = - EINVAL")
    case True
    obtain a' s' where "evt_call_desc_update (Suc (Suc (Suc n))) wait E i c st = Some (a', s')" "evt_has i s'" "b (world s') \<le> b (world st)"
      using evt_update_returns [OF r fw h w wait] by blast
    then show ?thesis using True a by (simp add: evt_track_with_def del: evt_call_desc_update.simps)
  qed (use a h in \<open>simp add: evt_track_with_def\<close>)
qed

text \<open>A call whose loop ends: for \<^verbatim>\<open>evt_wait\<close> and \<^verbatim>\<open>evt_trigger\<close>.\<close>

lemma evt_loop_returns:
  assumes r: "evt_recreates E" and fw: "fails_within E b" and h: "evt_has i st" and w: "evt_wait_same wait"
    and n: "3 \<le> m" "b (world st) < n"
    and wait: "\<And>s spd. c = state_evt_trigger \<Longrightarrow> evt_has i s \<Longrightarrow> b (world s) \<le> b (world st) \<Longrightarrow>
       \<exists>r s'. wait spd i s = Some (r, s') \<and> b (world s') \<le> b (world s)"
  shows "\<exists>r st'. cstub_redo n E (\<lambda>s. Some s) (evt_invoke_with m wait E f spd i) 1 (\<lambda>ret. evt_track_with m wait E c ret i) st = Some (r, st') \<and>
    evt_has i st' \<and> b (world st') \<le> b (world st)"
proof -
  obtain k where m: "m = Suc (Suc (Suc k))" using n(1) by (auto simp: numeral_3_eq_3 le_eq_less_or_eq dest: less_imp_Suc_add)
  let ?I = "\<lambda>s. evt_has i s \<and> b (world s) \<le> b (world st)"
  show ?thesis
    unfolding m
  proof (rule cstub_redo_total [OF fw, where I = ?I and J = ?I and K = "\<lambda>ret fault. ?I" and Q = "\<lambda>r. ?I"])
    fix s assume s: "?I s"
    obtain ret fault s' where x: "evt_invoke_with (Suc (Suc (Suc k))) wait E f spd i s = Some (ret, fault, s')" "evt_has i s'"
      "b (world s') \<le> b (world s)" "fault \<or> ret = - EINVAL \<or> ret = - ELOOP \<longrightarrow> b (world s') < b (world s)"
      using evt_invoke_returns [OF r fw conjunct1 [OF s] w, of "Suc k" f spd] by blast
    show "\<exists>ret fault s'. evt_invoke_with (Suc (Suc (Suc k))) wait E f spd i s = Some (ret, fault, s') \<and> ?I s' \<and> b (world s') \<le> b (world s) \<and>
        (fault \<or> ret = - EINVAL \<or> ret = - ELOOP \<longrightarrow> b (world s') < b (world s))"
      by (intro exI [of _ ret] exI [of _ fault] exI [of _ s']) (use x s in simp)
  next
    fix s s' assume s: "?I s" and x: "CSTUB_FAULT_UPDATE E s = Some s'"
    have "b (world s') \<le> b (world s)" using fault_update_budget [OF fw, of s] x by auto
    then show "?I s'" using s evt_has_same [OF conjunct1 [OF s] evt_same_frame(2) [OF x]] by simp
  next
    fix ret s assume s: "?I s"
    have wt: "\<exists>r s''. wait spd i s' = Some (r, s'') \<and> b (world s'') \<le> b (world s')"
      if "c = state_evt_trigger" "evt_has i s'" "b (world s') \<le> b (world s)" for s' spd
      by (rule wait [OF that(1,2)]) (use that(3) s in simp)
    obtain ret' s' where x: "evt_track_with (Suc (Suc (Suc k))) wait E c ret i s = Some (ret', s')" "b (world s') \<le> b (world s)" "evt_has i s'"
      "ret' = - ELOOP \<longrightarrow> ret = - EINVAL \<or> ret = - ELOOP" using evt_track_returns [where c = c and ret = ret and n = k, OF r fw conjunct1 [OF s] w wt] by auto
    show "\<exists>ret' s'. evt_track_with (Suc (Suc (Suc k))) wait E c ret i s = Some (ret', s') \<and> b (world s') \<le> b (world s) \<and>
        (if ret' = - ELOOP then ?I s' \<and> (ret = - EINVAL \<or> ret = - ELOOP) else ?I s')"
      by (intro exI [of _ ret'] exI [of _ s']) (use x s in simp)
  qed (use h n(2) in auto)
qed

lemma evt_wait_returns:
  assumes "evt_recreates E" "fails_within E b" "evt_has i st" "3 \<le> n" "b (world st) < n"
  shows "\<exists>r st'. evt_wait n E spd i st = Some (r, st') \<and> evt_has i st' \<and> b (world st') \<le> b (world st)"
proof -
  obtain k where n: "n = Suc k" using assms(4) by (cases n) auto
  have st: "first_map_init st" using assms(3) by (simp add: evt_has_def)
  have "evt_wait n E spd i st = cstub_redo n E (\<lambda>s. Some s) (evt_invoke_with n (evt_wait_at k n E) E ''evt_wait'' spd i) 1
      (\<lambda>ret. evt_track_with n (evt_wait_at k n E) E state_evt_wait ret i) st"
    using st by (simp add: evt_wait_def n evt_init_id evt_post_fault_wait_def evt_desc_update_wait_def [abs_def] evt_invoke_wait_def [abs_def]
        evt_track_wait_def [abs_def])
  then show ?thesis using evt_loop_returns [OF assms(1-3) evt_wait_at_same assms(4,5), of state_evt_wait] by auto
qed

lemma evt_trigger_returns:
  assumes "evt_recreates E" "fails_within E b" "evt_has i st" "3 \<le> n" "b (world st) < n"
  shows "\<exists>r st'. evt_trigger n E spd i st = Some (r, st') \<and> evt_has i st' \<and> b (world st') \<le> b (world st)"
proof -
  have st: "first_map_init st" using assms(3) by (simp add: evt_has_def)
  have "evt_trigger n E spd i st = cstub_redo n E (\<lambda>s. Some s) (evt_invoke_with n (evt_wait n E) E ''evt_trigger'' spd i) 1
      (\<lambda>ret. evt_track_with n (evt_wait n E) E state_evt_trigger ret i) st"
    using st by (simp add: evt_trigger_def evt_init_id evt_post_fault_trigger_def evt_desc_update_trigger_def [abs_def]
        evt_invoke_trigger_def [abs_def] evt_track_trigger_def [abs_def])
  moreover have "\<exists>r s'. evt_wait n E spd i s = Some (r, s') \<and> b (world s') \<le> b (world s)"
    if "evt_has i s" "b (world s) \<le> b (world st)" for s spd
  proof -
    have "b (world s) < n" using that(2) assms(5) by simp
    from evt_wait_returns [OF assms(1,2) that(1) assms(4) this, of spd] show ?thesis by blast
  qed
  ultimately show ?thesis using evt_loop_returns [OF assms(1-3) evt_wait_wait_same assms(4,5), of state_evt_trigger] by simp
qed

section \<open>The recovery of an event under a lost parent\<close>

text \<open>
  A server that keeps the set of the events it knows: it refuses calls for other events and the
  recreation of an event under a parent it does not know with \<^verbatim>\<open>-EINVAL\<close>. The ids up to 1 stand
  for the root.
\<close>

definition evt_known :: "int set env" where
  "evt_known = \<lparr>server = (\<lambda>f args w. (if args ! 1 \<in> w then 0 else - EINVAL, False, w)),
     extern = (\<lambda>f args w. if f = ''evt_split_exist'' then
         (if args ! 1 \<le> 1 \<or> args ! 1 \<in> w then (args ! 3, insert (args ! 3) w) else (- EINVAL, w)) else (0, w)),
     cos_fault_cntl = (\<lambda>w. (1, w)), cos_get_thd_id = (\<lambda>w. 7), cos_spd_id = 3\<rparr>"

text \<open>After a fault: the event \<open>c\<close> is the child of \<open>p\<close>, which is a child of the root, and the server knows neither.\<close>

definition evt_lost :: "int \<Rightarrow> addr \<Rightarrow> int \<Rightarrow> addr \<Rightarrow> int set evt_stub \<Rightarrow> bool" where
  "evt_lost c a p b st \<longleftrightarrow> evt_call_desc_lookup c st = Some a \<and> a \<noteq> NULL \<and> c \<noteq> 0 \<and> c \<noteq> p \<and>
     evt_call_desc_lookup p st = Some b \<and> b \<noteq> NULL \<and> b \<noteq> a \<and> 1 < p \<and>
     ev_parent_evtid (descs st a) = p \<and> ev_parent_evtid (descs st b) \<le> 1 \<and>
     fault_cnt (descs st a) \<noteq> fault_now st \<and> fault_cnt (descs st b) \<noteq> fault_now st \<and> world st = {}"

lemma evt_lost_update_short:
  assumes "evt_lost c a p b st" "m < 6"
  shows "evt_call_desc_update m wait evt_known c state_evt_wait st = None"
proof -
  have "m = 0 \<or> m = Suc 0 \<or> m = Suc (Suc 0) \<or> m = Suc (Suc (Suc 0)) \<or> m = Suc (Suc (Suc (Suc 0))) \<or> m = Suc (Suc (Suc (Suc (Suc 0))))"
    using assms(2) by linarith
  then show ?thesis
    using assms(1) by (elim disjE) (simp_all add: evt_lost_def Let_def call_extern_def evt_known_def)
qed

lemma evt_lost_update:
  assumes l: "evt_lost c a p b st" and m: "6 \<le> m"
  shows "\<exists>s'. evt_call_desc_update m wait evt_known c state_evt_wait st = Some (a, s') \<and> world s' = {p} \<and> fault_cnt (descs s' a) = fault_now s'"
proof -
  obtain k where m: "m = Suc (Suc (Suc (Suc (Suc (Suc k)))))" using m by (auto simp: le_iff_add)
  have neq: "b \<noteq> a" using l by (simp add: evt_lost_def)
  show ?thesis
    using l neq [symmetric] by (simp add: m evt_lost_def Let_def call_extern_def evt_known_def evt_recover_data_def)
qed

lemma evt_lost_wait_loops:
  assumes st: "first_map_init st" and l: "evt_lost c a p b st"
  shows "evt_wait n evt_known spd c st = None"
proof (rule ccontr)
  assume "evt_wait n evt_known spd c st \<noteq> None"
  then obtain r st' k where run: "evt_wait_at (Suc k) n evt_known spd c st = Some (r, st')"
    by (cases n) (auto simp: evt_wait_def)
  let ?wait = "evt_wait_at k n evt_known"
  let ?upd = "evt_desc_update_wait spd c" and ?ivk = "evt_invoke_wait n ?wait evt_known spd c" and ?track = "\<lambda>ret. evt_track_wait n ?wait evt_known ret spd c"
  let ?I = "\<lambda>s. s = st \<or> (evt_same st s \<and> c \<notin> world s \<and> fault_cnt (descs s a) = fault_now s)"
  have lk: "evt_call_desc_lookup c s = Some a" if "?I s" for s using that l evt_same_look [of st s c] by (auto simp: evt_lost_def)
  have c: "c \<notin> world s" if "?I s" for s using that l by (auto simp: evt_lost_def)
  have ne: "a \<noteq> NULL" "c \<noteq> 0" "c \<noteq> p" using l by (auto simp: evt_lost_def)
  have fi: "first_map_init s" if "?I s" for s using that st by (auto simp: evt_same_def)
  have upd: "?I s'" if s: "?I s" and u: "evt_call_desc_update n ?wait evt_known c state_evt_wait s = Some (x, s')" for s s' x
  proof (cases "s = st")
    case True
    then have "6 \<le> n" using evt_lost_update_short [OF l, of n ?wait] u by (cases "n < 6") auto
    then have "world s' = {p}" "fault_cnt (descs s' a) = fault_now s'" using evt_lost_update [OF l, of n ?wait] u True by auto
    then show ?thesis using evt_recovery_same(2) [OF evt_wait_at_same st] u True ne(3) by auto
  next
    case False
    then have "fault_cnt (descs s a) = fault_now s" using s by simp
    then show ?thesis using False s u lk [OF s] ne(1,2) by (cases n) (auto simp: Let_def split: if_splits)
  qed
  have "False"
  proof (rule cstub_redo_partial [where I = ?I and J = ?I and K = "\<lambda>ret fault s. ?I s \<and> ret = - EINVAL \<and> \<not> fault" and Q = "\<lambda>r s. False"])
    show "cstub_redo n evt_known ?upd ?ivk evt_post_fault_wait ?track st = Some (r, st')"
      using run st by (simp add: evt_init_id)
    show "?I s \<Longrightarrow> ?upd s = Some s' \<Longrightarrow> ?I s'" for s s' by (simp add: evt_desc_update_wait_def)
    show "?I s' \<and> ret = - EINVAL \<and> \<not> fault" if "?I s" "?ivk s = Some (ret, fault, s')" for s ret fault s'
    proof -
      have "ret = - EINVAL \<and> \<not> fault \<and> s' = s\<lparr>world := world s\<rparr>"
        using that(2) lk [OF that(1)] c [OF that(1)]
        by (auto simp: evt_invoke_wait_def evt_invoke_with_def CSTUB_INVOKE_def evt_known_def)
      then show ?thesis using that(1) by simp
    qed
    show "if ret' = - ELOOP then ?I s' else False" if k: "?I s \<and> ret = - EINVAL \<and> \<not> False" and run: "?track ret s = Some (ret', s')" for ret s ret' s'
    proof -
      from k have s: "?I s" and ret: "ret = - EINVAL" by auto
      obtain x where "evt_call_desc_update n ?wait evt_known c state_evt_wait s = Some (x, s')" "ret' = - ELOOP"
        using run lk [OF s] ret by (auto simp: evt_track_wait_def evt_track_with_def bind_eq_Some_conv)
      then show ?thesis using upd [OF s] by simp
    qed
  qed (simp_all add: evt_post_fault_wait_def)
  then show False .
qed

section \<open>Reachable states\<close>

definition evt_stub_ok :: "'w evt_stub \<Rightarrow> bool" where
  "evt_stub_ok st = vect_stub_ok evt_desc_sz ev_evtid st"

lemma evt_init_ok:
  assumes "evt_stub_ok st"
  shows "evt_table (evt_call_map_init st)" "first_map_init (evt_call_map_init st)" "world (evt_call_map_init st) = world st"
  using vect_init_once_ok(1-3) [of evt_desc_sz ev_evtid st] assms by (simp_all add: evt_stub_ok_def evt_call_map_init_def)

text \<open>The states a client can bring the stub into, against any server.\<close>

inductive evt_reach :: "'w evt_stub \<Rightarrow> bool" where
  boot: "\<not> first_map_init st \<Longrightarrow> \<exists>L. slab_ok evt_desc_sz (objs st) L \<Longrightarrow> evt_reach st"
| call: "evt_reach st \<Longrightarrow> evt_valid opr \<Longrightarrow> evt_exec n E opr st = Some (r, st') \<Longrightarrow> evt_reach st'"

lemma evt_reach_ok: "evt_reach st \<Longrightarrow> evt_stub_ok st"
proof (induction rule: evt_reach.induct)
  case (boot st)
  then show ?case by (simp add: evt_stub_ok_def vect_stub_ok_def)
next
  case (call st opr n E r st')
  note i = evt_init_ok [OF call.IH]
  show ?case
    using evt_exec_ok [OF i(1,2) call.hyps(2), of n E r st'] call.hyps(3) evt_exec_init [of n E opr st]
    by (simp add: evt_stub_ok_def vect_stub_ok_def)
qed

section \<open>Example states\<close>

definition evt_boot :: "'w \<Rightarrow> 'w evt_stub" where
  "evt_boot w = boot_vect_stub \<lparr>state = evt_state_null, next_state = evt_state_null, fault_cnt = 0, ev_spdid = 3, ev_parent_evtid = 0,
     ev_grp = 0, ev_evtid = 0\<rparr> w"

lemma evt_boot_ok: "evt_table (evt_boot w)" "first_map_init (evt_boot w)" "evt_stub_ok (evt_boot w)"
proof -
  show t: "evt_table (evt_boot w)" unfolding evt_boot_def by (rule boot_vect_stub_ok(1)) simp_all
  show f: "first_map_init (evt_boot w)" by (simp add: evt_boot_def boot_vect_stub_def)
  show "evt_stub_ok (evt_boot w)" using t f by (simp add: evt_stub_ok_def vect_stub_ok_def)
qed

text \<open>A client with the events 10 and 11.\<close>

lemma evt_two_events:
  "\<exists>st a b. evt_table st \<and> first_map_init st \<and> world st = w \<and> a \<noteq> NULL \<and> b \<noteq> NULL \<and> b \<noteq> a \<and>
     evt_call_desc_lookup 10 st = Some b \<and> evt_call_desc_lookup 11 st = Some a"
proof -
  note t = evt_boot_ok(1) [of w]
  obtain b s1 B where al: "evt_call_desc_alloc 10 (evt_boot w) = Some (b, s1)" and B: "B \<subseteq> owned (spool (objs s1))" "card B = Suc (Suc 0)"
    using boot_vect_stub_ok(3) [of evt_desc_sz 10] unfolding evt_call_desc_alloc_def evt_boot_def by fastforce
  have s1: "evt_table s1" "b \<noteq> NULL" using ev.alloc_ok [OF t al] by auto
  have free: "vect_lookup 11 s1 = Some NULL"
    using ev.alloc_look [OF t al, of 11] boot_vect_stub_ok(2) [of evt_desc_sz 11] by (simp add: evt_desc_eqs evt_boot_def)
  obtain a s2 where al2: "evt_call_desc_alloc 11 s1 = Some (a, s2)"
    using vect_desc_alloc_pages [OF s1(1) _ free B, of "\<lambda>d. d\<lparr>ev_evtid := 11\<rparr>"] unfolding evt_call_desc_alloc_def by auto
  have s2: "evt_table s2" "a \<noteq> NULL" using ev.alloc_ok [OF s1(1) al2] by auto
  have l: "evt_call_desc_lookup 10 s2 = Some b" "evt_call_desc_lookup 11 s2 = Some a"
    using ev.alloc_look [OF s1(1) al2] ev.alloc_look [OF t al] by simp_all
  have "b \<noteq> a" using ev.look_inj [OF s2(1) _ _ l(1), of 11] l(2) s1(2) by auto
  moreover have "same_rest (evt_boot w) s2"
    using same_rest_trans [OF ev.alloc_frame [OF t al] ev.alloc_frame [OF s1(1) al2]] .
  ultimately show ?thesis using s1 s2 l by (intro exI [of _ s2] exI [of _ a] exI [of _ b])
      (simp add: same_rest_def evt_boot_def boot_vect_stub_def)
qed

section \<open>Properties\<close>

text \<open>
  C9: the event stub refines the map of event ids. Whatever the server does, a call that returns
  has the effect its client expects of it: a split that succeeds adds a new id with the component,
  parent and group it was called with, a free removes the id, and waiting and triggering change
  nothing, even if the call had to recover the event and its ancestors on the way.
\<close>

theorem evt_stub_refines_spec:
  assumes "evt_stub_ok st" "evt_valid opr" "evt_exec n E opr st = Some (r, st')"
  shows "evt_spec opr r (evt_abs (evt_call_map_init st)) (evt_abs st') \<and> evt_stub_ok st'"
proof -
  note i = evt_init_ok [OF assms(1)]
  have "evt_exec n E opr (evt_call_map_init st) = Some (r, st')" using assms(3) evt_exec_init [of n E opr st] by simp
  from evt_exec_ok [OF i(1,2) assms(2) this] show ?thesis by (simp add: evt_stub_ok_def vect_stub_ok_def)
qed

theorem evt_stub_refines_spec_witness:
  "\<exists>st. evt_exec 3 (flaky [''evt_split'']) (Split 3 0 1) (evt_boot 0) = Some (100, st) \<and> evt_abs st 100 = Some (3, 0, 1)"
proof -
  obtain a s1 where al: "evt_call_desc_alloc 100 (evt_boot (0 :: nat)) = Some (a, s1)"
    using boot_vect_stub_ok(3) [of evt_desc_sz 100] unfolding evt_call_desc_alloc_def evt_boot_def by fastforce
  note t = evt_boot_ok(1) [of "0 :: nat"]
  have s1: "evt_table s1" "a \<noteq> NULL" "evt_call_desc_lookup 100 s1 = Some a" using ev.alloc_ok [OF t al] ev.alloc_look [OF t al, of 100] by auto
  have key: "ev_evtid (descs s1 a) = 100" using ev.look_key [OF s1(1) _ s1(3,2)] by simp
  have w: "evt_boot 0\<lparr>world := 0\<rparr> = evt_boot (0 :: nat)" by (simp add: evt_boot_def boot_vect_stub_def)
  have "\<exists>st. evt_exec 3 (flaky [''evt_split'']) (Split 3 0 1) (evt_boot 0) = Some (100, st)"
    using al s1(2) key w evt_init_id [OF evt_boot_ok(2), of "0 :: nat"]
    by (simp add: evt_split_def cstub_redo_def numeral_3_eq_3 cstub_turn_def evt_desc_update_split_def evt_invoke_split_def CSTUB_INVOKE_def
        flaky_def evt_track_split_def evt_call_desc_cons_def Let_def evt_boot_def boot_vect_stub_def)
  then obtain st where run: "evt_exec 3 (flaky [''evt_split'']) (Split 3 0 1) (evt_boot 0) = Some (100, st)" by blast
  from evt_stub_refines_spec [OF evt_boot_ok(3) _ run] run show ?thesis by auto
qed

text \<open>
  C20: the state of the event stub is well typed. In every state a client can bring the stub into,
  the index, the slab and the page allocator are well formed, every id of the table has a slot, and
  the descriptor found under an id is the descriptor of that id.
\<close>

theorem evt_reachable_well_typed:
  assumes "evt_reach st" "first_map_init st" "vect_id i"
  shows "evt_table st \<and> (\<exists>a. evt_call_desc_lookup i st = Some a \<and> (a \<noteq> NULL \<longrightarrow> ev_evtid (descs st a) = i))"
proof -
  have t: "evt_table st" using evt_reach_ok [OF assms(1)] assms(2) by (simp add: evt_stub_ok_def vect_stub_ok_def)
  then show ?thesis using ev.look_total [OF t assms(3)] ev.look_key [OF t assms(3)] by blast
qed

theorem evt_reachable_well_typed_witness:
  "\<exists>st :: nat evt_stub. first_map_init st \<and> evt_table st \<and> (\<exists>a. evt_call_desc_lookup 100 st = Some a)"
proof -
  let ?b = "(evt_boot (0 :: nat))\<lparr>first_map_init := False\<rparr>"
  have b: "evt_reach ?b" by (rule evt_reach.boot) (use boot_objs_ok(1) [of evt_desc_sz] in \<open>auto simp: evt_boot_def boot_vect_stub_def\<close>)
  let ?st = "(evt_call_map_init ?b)\<lparr>world := 0\<rparr>"
  have l: "evt_call_desc_lookup 10 (evt_call_map_init ?b) = Some NULL"
    by (simp add: evt_call_map_init_def vect_init_once_def evt_desc_eqs vect_lookup_def cvect_lookup_init)
  have "evt_exec 1 (flaky []) (Wait 3 10) ?b = Some (0, ?st)"
    using l by (simp add: evt_wait_def cstub_redo_def cstub_turn_def evt_desc_update_wait_def evt_invoke_wait_def evt_invoke_with_def CSTUB_INVOKE_def
        flaky_def evt_track_wait_def evt_track_with_def evt_call_map_init_def vect_init_once_def evt_boot_def boot_vect_stub_def)
  from evt_reach.call [OF b _ this] have r: "evt_reach ?st" by simp
  have f: "first_map_init ?st" by (simp add: evt_call_map_init_def vect_init_once_def)
  from evt_reachable_well_typed [OF r f, of 100] f show ?thesis by (intro exI [of _ ?st]) auto
qed





end
