(* ===== verification/MmStub.thy ===== *)
theory MmStub
  imports Cstub DList
begin

text \<open>
  The generated client stub of the memory manager
  (\<^verbatim>\<open>components/interface/mem_mgr/__stubs_rec/__IDL_c_stub.c\<close>). It remembers every page that was
  aliased: the copy has a descriptor in the list of the page it was made from. Revoking a page
  brings all its copies back in the server first and forgets them afterwards. The theory proves
  that, and what happens to copies of copies and to copies that have been revoked.
\<close>

section \<open>State\<close>

datatype mm_state_codes = state_mman_get_page | state_mman_revoke_page | state_mman_alias_page | mm_state_null

record mm_desc = "mm_state_codes desc_track" +
  mm_spd :: spdid
  mm_s_addr :: int
  mm_d_spd_flags :: int
  mm_addr :: int
  mm_is_parent :: bool
  mm_next :: addr
  mm_prev :: addr

type_synonym 'w mm_stub = "(ptree, mm_desc, 'w) stub"

abbreviation mm_desc_sz :: int where "mm_desc_sz \<equiv> 44"

text \<open>Addresses and flags are unsigned; the index is \<^verbatim>\<open>(id >> PAGE_SHIFT) & 0xFFF\<close>.\<close>

definition mm_slot :: "int \<Rightarrow> int" where
  "mm_slot i = i div 4096 mod 4096"

text \<open>The component a page was aliased to, \<^verbatim>\<open>d_spd_flags >> 16\<close>.\<close>

definition mm_dest :: "mm_desc \<Rightarrow> spdid" where
  "mm_dest d = mm_d_spd_flags d div 65536"

abbreviation (input) COS_UPCALL_RECOVERY :: int where "COS_UPCALL_RECOVERY \<equiv> 3"
abbreviation (input) COS_UPCALL_RECOVERY_SUBTREE :: int where "COS_UPCALL_RECOVERY_SUBTREE \<equiv> 4"
abbreviation (input) COS_UPCALL_REMOVE_SUBTREE :: int where "COS_UPCALL_REMOVE_SUBTREE \<equiv> 5"

text \<open>The list macros work on the links in the descriptors.\<close>

definition mm_links :: "'w mm_stub \<Rightarrow> links" where
  "mm_links st = \<lparr>nxt = (\<lambda>a. mm_next (descs st a)), prv = (\<lambda>a. mm_prev (descs st a))\<rparr>"

definition mm_relink :: "(links \<Rightarrow> links) \<Rightarrow> 'w mm_stub \<Rightarrow> 'w mm_stub" where
  "mm_relink f st = (let l = f (mm_links st) in
     st\<lparr>descs := (\<lambda>a. (descs st a)\<lparr>mm_next := nxt l a, mm_prev := prv l a\<rparr>)\<rparr>)"

section \<open>Descriptors\<close>

definition mm_call_desc_lookup :: "int \<Rightarrow> 'w mm_stub \<Rightarrow> addr option" where
  "mm_call_desc_lookup i st = vect_lookup (mm_slot i) st"

definition mm_call_desc_alloc :: "int \<Rightarrow> 'w mm_stub \<Rightarrow> (addr \<times> 'w mm_stub) option" where
  "mm_call_desc_alloc i st = vect_desc_alloc mm_desc_sz (\<lambda>d. d\<lparr>mm_addr := i\<rparr>) (mm_slot i) st"

definition mm_call_desc_dealloc :: "addr \<Rightarrow> 'w mm_stub \<Rightarrow> 'w mm_stub option" where
  "mm_call_desc_dealloc desc st = vect_desc_dealloc mm_desc_sz (\<lambda>d. mm_slot (mm_addr d)) desc st"

definition mm_call_map_init :: "'w mm_stub \<Rightarrow> 'w mm_stub" where
  "mm_call_map_init st = vect_init_once st"

text \<open>A page that is aliased and has no descriptor yet gets one, filled in with the arguments of the alias.\<close>

definition mm_call_desc_cons :: "addr \<Rightarrow> int \<Rightarrow> spdid \<Rightarrow> int \<Rightarrow> int \<Rightarrow> int \<Rightarrow> 'w mm_stub \<Rightarrow> 'w mm_stub option" where
  "mm_call_desc_cons desc i spd s_addr d_spd_flags addr st = do {
     assert_that (desc \<noteq> NULL);
     let st = put_desc desc (\<lambda>d. d\<lparr>mm_spd := spd, mm_s_addr := s_addr, mm_d_spd_flags := d_spd_flags, mm_addr := addr,
       fault_cnt := fault_now st, mm_is_parent := False\<rparr>) st;
     let st = mm_relink (\<lambda>l. INIT_LIST l desc) st;
     parent_desc \<leftarrow> mm_call_desc_lookup s_addr st;
     (parent_desc, st) \<leftarrow> (if parent_desc = NULL then do {
         (parent_desc, st) \<leftarrow> mm_call_desc_alloc s_addr st;
         assert_that (parent_desc \<noteq> NULL);
         let st = mm_relink (\<lambda>l. INIT_LIST l parent_desc) st;
         Some (parent_desc, put_desc parent_desc (\<lambda>d. d\<lparr>mm_spd := spd, mm_s_addr := s_addr, mm_d_spd_flags := d_spd_flags,
           mm_addr := addr, fault_cnt := fault_now st\<rparr>) st) }
       else Some (parent_desc, st));
     let st = put_desc parent_desc (\<lambda>d. d\<lparr>mm_is_parent := True\<rparr>) st;
     Some (mm_relink (\<lambda>l. ADD_LIST l parent_desc desc) st) }"

definition mm_recover_call_nameserver :: "'w env \<Rightarrow> spdid \<Rightarrow> int \<Rightarrow> int \<Rightarrow> 'w mm_stub \<Rightarrow> 'w mm_stub" where
  "mm_recover_call_nameserver E dest_spd i type st = snd (call_extern E ''valloc_upcall'' [dest_spd, i, type] st)"

section \<open>Aliasing a page\<close>

definition mm_track_new :: "int \<Rightarrow> spdid \<Rightarrow> int \<Rightarrow> int \<Rightarrow> int \<Rightarrow> 'w mm_stub \<Rightarrow> (int \<times> 'w mm_stub) option" where
  "mm_track_new ret spd s_addr d_spd_flags addr st =
     (if ret = 0 then Some (ret, st)
      else do {
        desc \<leftarrow> mm_call_desc_lookup addr st;
        if desc = NULL then do {
          (desc, st) \<leftarrow> mm_call_desc_alloc addr st;
          assert_that (desc \<noteq> NULL);
          st \<leftarrow> mm_call_desc_cons desc addr spd s_addr d_spd_flags addr st;
          Some (ret, st) }
        else Some (ret, st) })"

definition mm_track_alias_page :: "'w env \<Rightarrow> int \<Rightarrow> spdid \<Rightarrow> int \<Rightarrow> int \<Rightarrow> int \<Rightarrow> 'w mm_stub \<Rightarrow> (int \<times> 'w mm_stub) option" where
  "mm_track_alias_page E ret spd s_addr d_spd_flags addr st =
     (if ret = - EINVAL then
        mm_track_new (- ELOOP) spd s_addr d_spd_flags addr (mm_recover_call_nameserver E spd s_addr COS_UPCALL_RECOVERY st)
      else if ret = - ECHILD then do {
        desc \<leftarrow> mm_call_desc_lookup s_addr st;
        if desc = NULL then Some (ret, st)
        else do {
          let (tmp, st) = call_extern E ''mman_get_page_exist'' [spd, s_addr, 0, s_addr] st;
          assert_that (ul tmp = s_addr);
          mm_track_new (- ELOOP) spd s_addr d_spd_flags addr (put_desc desc (\<lambda>d. d\<lparr>fault_cnt := fault_now st\<rparr>) st) } }
      else mm_track_new ret spd s_addr d_spd_flags addr st)"

definition mm_desc_update_alias_page :: "'w mm_stub \<Rightarrow> 'w mm_stub" where
  "mm_desc_update_alias_page st = st"

definition mm_invoke_alias_page :: "'w env \<Rightarrow> spdid \<Rightarrow> int \<Rightarrow> int \<Rightarrow> int \<Rightarrow> 'w mm_stub \<Rightarrow> int \<times> bool \<times> 'w mm_stub" where
  "mm_invoke_alias_page E spd s_addr d_spd_flags addr st = CSTUB_INVOKE E ''__mman_alias_page'' [spd, s_addr, d_spd_flags, addr] st"

definition mm_post_fault :: int where
  "mm_post_fault = 1"

text \<open>Component 5 does not track anything.\<close>

definition mm_alias_turn :: "'w env \<Rightarrow> spdid \<Rightarrow> int \<Rightarrow> int \<Rightarrow> int \<Rightarrow> 'w mm_stub \<Rightarrow> (int turn \<times> 'w mm_stub) option" where
  "mm_alias_turn E spd s_addr d_spd_flags addr st =
     (case mm_invoke_alias_page E spd s_addr d_spd_flags addr (mm_desc_update_alias_page st) of (ret, fault, st) \<Rightarrow> do {
        st \<leftarrow> (if fault then CSTUB_FAULT_UPDATE E st else Some st);
        if fault \<and> mm_post_fault \<noteq> 0 then Some (Redo, st)
        else if cos_spd_id E = 5 then Some (Return ret, st)
        else do {
          (ret, st) \<leftarrow> mm_track_alias_page E ret spd s_addr d_spd_flags addr st;
          if ret = - ELOOP then Some (Redo, st) else Some (Return ret, st) } })"

definition mman_alias_page :: "nat \<Rightarrow> 'w env \<Rightarrow> spdid \<Rightarrow> int \<Rightarrow> int \<Rightarrow> int \<Rightarrow> 'w mm_stub \<Rightarrow> (int \<times> 'w mm_stub) option" where
  "mman_alias_page n E spd s_addr d_spd_flags addr st = redo n (mm_alias_turn E spd s_addr d_spd_flags addr) (mm_call_map_init st)"

section \<open>Recovery\<close>

definition mm_recover_data :: "addr \<Rightarrow> 'w mm_stub \<Rightarrow> 'w mm_stub" where
  "mm_recover_data desc st = st"

definition mm_basic_id :: "nat \<Rightarrow> 'w env \<Rightarrow> int \<Rightarrow> 'w mm_stub \<Rightarrow> 'w mm_stub option" where
  "mm_basic_id n E i st = do {
     assert_that (i \<noteq> 0);
     desc \<leftarrow> mm_call_desc_lookup i st;
     assert_that (desc \<noteq> NULL);
     let d = descs st desc;
     (retval, st) \<leftarrow> mman_alias_page n E (mm_spd d) (mm_s_addr d) (mm_d_spd_flags d) (mm_addr d) st;
     let st = put_desc desc (\<lambda>d. d\<lparr>state := state_mman_get_page, fault_cnt := fault_now st\<rparr>) st;
     Some (mm_recover_data desc st) }"

definition mm_recover :: "nat \<Rightarrow> 'w env \<Rightarrow> int \<Rightarrow> 'w mm_stub \<Rightarrow> 'w mm_stub option" where
  "mm_recover n E i st = mm_basic_id n E i st"

definition mm_recover_upcall_entry :: "nat \<Rightarrow> 'w env \<Rightarrow> int \<Rightarrow> 'w mm_stub \<Rightarrow> 'w mm_stub option" where
  "mm_recover_upcall_entry n E i st = do { assert_that (i \<noteq> 0); mm_recover n E i st }"

definition mm_call_desc_update :: "nat \<Rightarrow> 'w env \<Rightarrow> int \<Rightarrow> mm_state_codes \<Rightarrow> 'w mm_stub \<Rightarrow> (addr \<times> 'w mm_stub) option" where
  "mm_call_desc_update n E i to_state st =
     (if i = 0 then Some (NULL, st)
      else do {
        desc \<leftarrow> mm_call_desc_lookup i st;
        if desc = NULL then Some (desc, st)
        else let st = put_desc desc (\<lambda>d. d\<lparr>next_state := to_state\<rparr>) st in
          if fault_cnt (descs st desc) = fault_now st then Some (desc, st)
          else do {
            st \<leftarrow> mm_recover n E i (put_desc desc (\<lambda>d. d\<lparr>fault_cnt := fault_now st\<rparr>) st);
            Some (desc, st) } })"

text \<open>
  The walk over the copies of a page, and into the copies of those that are in this component.
  \<open>k\<close> bounds the number of turns of all walks.
\<close>

definition mm_subtree_with :: "(addr \<Rightarrow> addr \<Rightarrow> 'w mm_stub \<Rightarrow> 'w mm_stub option) \<Rightarrow> int \<Rightarrow> 'w mm_stub \<Rightarrow> 'w mm_stub option" where
  "mm_subtree_with loop i st = do {
     assert_that (i \<noteq> 0);
     desc \<leftarrow> mm_call_desc_lookup i st;
     if desc = NULL \<or> \<not> mm_is_parent (descs st desc) then Some st
     else loop desc (FIRST_LIST (mm_links st) desc) st }"

fun mm_subtree_loop :: "nat \<Rightarrow> nat \<Rightarrow> 'w env \<Rightarrow> addr \<Rightarrow> addr \<Rightarrow> 'w mm_stub \<Rightarrow> 'w mm_stub option" where
  "mm_subtree_loop 0 n E desc desc_child st = None"
| "mm_subtree_loop (Suc k) n E desc desc_child st =
     (if desc_child = desc then Some st
      else do {
        st \<leftarrow> mm_basic_id n E (mm_addr (descs st desc_child)) st;
        st \<leftarrow> (if mm_dest (descs st desc_child) \<noteq> cos_spd_id E
          then Some (mm_recover_call_nameserver E (mm_dest (descs st desc_child)) (mm_addr (descs st desc_child)) COS_UPCALL_RECOVERY_SUBTREE st)
          else mm_subtree_with (mm_subtree_loop k n E) (mm_addr (descs st desc_child)) st);
        mm_subtree_loop k n E desc (FIRST_LIST (mm_links st) desc_child) st })"

definition mm_recover_upcall_subtree :: "nat \<Rightarrow> nat \<Rightarrow> 'w env \<Rightarrow> int \<Rightarrow> 'w mm_stub \<Rightarrow> 'w mm_stub option" where
  "mm_recover_upcall_subtree k n E i st = mm_subtree_with (mm_subtree_loop k n E) i st"

definition mm_remove_with :: "(addr \<Rightarrow> 'w mm_stub \<Rightarrow> 'w mm_stub option) \<Rightarrow> int \<Rightarrow> 'w mm_stub \<Rightarrow> 'w mm_stub option" where
  "mm_remove_with loop addr st = do {
     parent_desc \<leftarrow> mm_call_desc_lookup addr st;
     if parent_desc = NULL \<or> \<not> mm_is_parent (descs st parent_desc) then Some st
     else loop parent_desc st }"

fun mm_remove_loop :: "nat \<Rightarrow> 'w env \<Rightarrow> addr \<Rightarrow> 'w mm_stub \<Rightarrow> 'w mm_stub option" where
  "mm_remove_loop 0 E parent_desc st = None"
| "mm_remove_loop (Suc k) E parent_desc st =
     (if EMPTY_LIST (mm_links st) parent_desc then Some st
      else do {
        let desc = FIRST_LIST (mm_links st) parent_desc;
        assert_that (desc \<noteq> NULL);
        st \<leftarrow> (if mm_dest (descs st desc) \<noteq> cos_spd_id E
          then Some (mm_recover_call_nameserver E (mm_dest (descs st desc)) (mm_addr (descs st desc)) COS_UPCALL_REMOVE_SUBTREE st)
          else mm_remove_with (mm_remove_loop k E) (mm_addr (descs st desc)) st);
        let st = mm_relink (\<lambda>l. REM_LIST l desc) st;
        st \<leftarrow> mm_call_desc_dealloc desc st;
        mm_remove_loop k E parent_desc st })"

definition mm_remove_desc :: "nat \<Rightarrow> 'w env \<Rightarrow> int \<Rightarrow> 'w mm_stub \<Rightarrow> 'w mm_stub option" where
  "mm_remove_desc k E addr st = mm_remove_with (mm_remove_loop k E) addr st"

section \<open>Getting and revoking a page\<close>

definition mm_desc_update_revoke_page :: "nat \<Rightarrow> nat \<Rightarrow> 'w env \<Rightarrow> int \<Rightarrow> 'w mm_stub \<Rightarrow> 'w mm_stub option" where
  "mm_desc_update_revoke_page k n E addr st = do {
     (desc, st) \<leftarrow> mm_call_desc_update n E addr state_mman_revoke_page st;
     mm_recover_upcall_subtree k n E addr st }"

definition mm_invoke_revoke_page :: "'w env \<Rightarrow> spdid \<Rightarrow> int \<Rightarrow> int \<Rightarrow> 'w mm_stub \<Rightarrow> (int \<times> bool \<times> 'w mm_stub) option" where
  "mm_invoke_revoke_page E spd addr flgs st = Some (CSTUB_INVOKE E ''mman_revoke_page'' [spd, addr, flgs] st)"

definition mm_track_revoke_page :: "nat \<Rightarrow> 'w env \<Rightarrow> int \<Rightarrow> int \<Rightarrow> 'w mm_stub \<Rightarrow> (int \<times> 'w mm_stub) option" where
  "mm_track_revoke_page k E addr ret st = do { st \<leftarrow> mm_remove_desc k E addr st; Some (ret, st) }"

definition mman_revoke_page :: "nat \<Rightarrow> nat \<Rightarrow> 'w env \<Rightarrow> spdid \<Rightarrow> int \<Rightarrow> int \<Rightarrow> 'w mm_stub \<Rightarrow> (int \<times> 'w mm_stub) option" where
  "mman_revoke_page k n E spd addr flgs st =
     cstub_redo n E (mm_desc_update_revoke_page k n E addr) (mm_invoke_revoke_page E spd addr flgs) mm_post_fault
       (mm_track_revoke_page k E addr) (mm_call_map_init st)"

definition mm_desc_update_get_page :: "nat \<Rightarrow> 'w env \<Rightarrow> int \<Rightarrow> 'w mm_stub \<Rightarrow> 'w mm_stub option" where
  "mm_desc_update_get_page n E s_addr st = map_option snd (mm_call_desc_update n E s_addr state_mman_get_page st)"

definition mm_invoke_get_page :: "'w env \<Rightarrow> spdid \<Rightarrow> int \<Rightarrow> int \<Rightarrow> 'w mm_stub \<Rightarrow> (int \<times> bool \<times> 'w mm_stub) option" where
  "mm_invoke_get_page E spd s_addr flgs st = Some (CSTUB_INVOKE E ''mman_get_page'' [spd, s_addr, flgs] st)"

definition mman_get_page :: "nat \<Rightarrow> 'w env \<Rightarrow> spdid \<Rightarrow> int \<Rightarrow> int \<Rightarrow> 'w mm_stub \<Rightarrow> (int \<times> 'w mm_stub) option" where
  "mman_get_page n E spd s_addr flgs st =
     cstub_redo n E (mm_desc_update_get_page n E s_addr) (mm_invoke_get_page E spd s_addr flgs) mm_post_fault
       (\<lambda>ret st. Some (ret, st)) (mm_call_map_init st)"

section \<open>The table\<close>

text \<open>
  A descriptor does not always know its own index, since a page that has been aliased is filled in
  with the address of the copy. So the index is checked on its own, with the slot a descriptor
  is in in place of the descriptor.
\<close>

definition shadow :: "(addr \<Rightarrow> int) \<Rightarrow> 'w mm_stub \<Rightarrow> (ptree, int, 'w) stub" where
  "shadow S st = \<lparr>descs = S, maps = maps st, objs = objs st, global_fault_cnt = global_fault_cnt st,
     first_map_init = first_map_init st, world = world st\<rparr>"

definition mm_ok :: "'w mm_stub \<Rightarrow> bool" where
  "mm_ok st \<longleftrightarrow> first_map_init st \<and> (\<exists>S. vect_table mm_desc_sz (\<lambda>x. x) (shadow S st))"

lemma mm_slot_bound [simp]: "0 \<le> mm_slot i" "mm_slot i < 1048576"
  by (simp_all add: mm_slot_def order.strict_trans2 [of _ 4096])

lemma mm_slot_valid: "vect_id (mm_slot i)"
  by simp

interpretation mi: desc_vect "vect_table mm_desc_sz (\<lambda>x. x)" vect_id vect_lookup "\<lambda>x. x" "vect_desc_dealloc mm_desc_sz (\<lambda>x. x)"
    "\<lambda>i st. vect_desc_alloc mm_desc_sz ((\<lambda>i _. i) i) i st"
  by (rule desc_vectI) simp

lemma vect_lookup_shadow [simp]: "vect_lookup i (shadow S st) = vect_lookup i st"
  by (simp add: vect_lookup_def shadow_def)

lemma vect_alloc_shadow:
  "vect_desc_alloc sz asg i st = Some (a, st') \<Longrightarrow> vect_desc_alloc sz (\<lambda>_. i) i (shadow S st) = Some (a, shadow (S(a := i)) st')"
  by (auto simp: vect_desc_alloc_def shadow_def bind_eq_Some_conv put_desc_def Let_def)

lemma vect_dealloc_shadow:
  assumes "vect_desc_dealloc sz (\<lambda>x. x) a (shadow S st) = Some t" "key (descs st a) = S a"
  shows "vect_desc_dealloc sz key a st = Some (st\<lparr>maps := maps t, objs := objs t\<rparr>)" "t = shadow S (st\<lparr>maps := maps t, objs := objs t\<rparr>)"
  using assms by (auto simp: vect_desc_dealloc_def shadow_def bind_eq_Some_conv split: prod.splits)

lemma mm_ok_cong: "mm_ok st \<Longrightarrow> maps st' = maps st \<Longrightarrow> objs st' = objs st \<Longrightarrow> first_map_init st' = first_map_init st \<Longrightarrow> mm_ok st'"
  by (auto simp: mm_ok_def vect_table_def shadow_def)

lemma mm_lookup_cong: "maps st' = maps st \<Longrightarrow> mm_call_desc_lookup i st' = mm_call_desc_lookup i st"
  by (simp add: mm_call_desc_lookup_def vect_lookup_def)

lemma mm_lookup_total: "mm_ok st \<Longrightarrow> \<exists>a. mm_call_desc_lookup i st = Some a"
  using mi.look_total [of "shadow _ st" "mm_slot i"] by (auto simp: mm_ok_def mm_call_desc_lookup_def)

lemma mm_lookup_inj:
  assumes "mm_ok st" "mm_call_desc_lookup i st = Some a" "mm_call_desc_lookup j st = Some a" "a \<noteq> NULL"
  shows "mm_slot i = mm_slot j"
  using assms mi.look_inj [of "shadow _ st" "mm_slot i" "mm_slot j" a] by (auto simp: mm_ok_def mm_call_desc_lookup_def)

lemma mm_lookup_slot: "mm_slot i = mm_slot j \<Longrightarrow> mm_call_desc_lookup i st = mm_call_desc_lookup j st"
  by (simp add: mm_call_desc_lookup_def)

lemma mm_alloc_ok:
  assumes ok: "mm_ok st" and al: "mm_call_desc_alloc i st = Some (a, st')"
  shows "mm_ok st'" "a \<noteq> NULL" "mm_call_desc_lookup i st = Some NULL"
    "mm_call_desc_lookup j st' = (if mm_slot j = mm_slot i then Some a else mm_call_desc_lookup j st)"
    "same_rest st st'" "mm_call_desc_lookup j st = Some b \<Longrightarrow> b \<noteq> NULL \<Longrightarrow> b \<noteq> a"
    "descs st' = (descs st)(a := (descs st a)\<lparr>mm_addr := i\<rparr>)"
proof -
  obtain S where S: "vect_table mm_desc_sz (\<lambda>x. x) (shadow S st)" and init: "first_map_init st" using ok by (auto simp: mm_ok_def)
  note al' = al [unfolded mm_call_desc_alloc_def]
  note sh = vect_alloc_shadow [OF al', of S]
  show r: "same_rest st st'" using mi.alloc_frame [OF S sh] by (simp add: same_rest_def shadow_def)
  show "mm_ok st'" using mi.alloc_ok [OF S sh] init r by (auto simp: mm_ok_def same_rest_def)
  show "a \<noteq> NULL" using mi.alloc_ok [OF S sh] by simp
  show "mm_call_desc_lookup i st = Some NULL" using mi.alloc_free [OF S sh] by (simp add: mm_call_desc_lookup_def)
  show "mm_call_desc_lookup j st' = (if mm_slot j = mm_slot i then Some a else mm_call_desc_lookup j st)"
    using mi.alloc_look [OF S sh mm_slot_valid, of j] by (simp add: mm_call_desc_lookup_def)
  show "b \<noteq> a" if "mm_call_desc_lookup j st = Some b" "b \<noteq> NULL"
    using mi.alloc_descs [OF S sh mm_slot_valid, of j b] that by (simp add: mm_call_desc_lookup_def)
  show "descs st' = (descs st)(a := (descs st a)\<lparr>mm_addr := i\<rparr>)"
    using al' by (auto simp: vect_desc_alloc_def bind_eq_Some_conv Let_def)
qed

lemma mm_dealloc_ok:
  assumes ok: "mm_ok st" and lk: "mm_call_desc_lookup (mm_addr (descs st a)) st = Some a" "a \<noteq> NULL"
  obtains st' where "mm_call_desc_dealloc a st = Some st'" "mm_ok st'" "descs st' = descs st" "same_rest st st'"
    "\<And>j. mm_call_desc_lookup j st' = (if mm_slot j = mm_slot (mm_addr (descs st a)) then Some NULL else mm_call_desc_lookup j st)"
proof -
  obtain S where S: "vect_table mm_desc_sz (\<lambda>x. x) (shadow S st)" and init: "first_map_init st" using ok by (auto simp: mm_ok_def)
  let ?i = "mm_slot (mm_addr (descs st a))"
  have lk': "vect_lookup ?i (shadow S st) = Some a" using lk by (simp add: mm_call_desc_lookup_def)
  have key: "?i = S a" using mi.look_key [OF S mm_slot_valid lk' lk(2)] by (simp add: shadow_def)
  obtain t where t: "vect_desc_dealloc mm_desc_sz (\<lambda>x. x) a (shadow S st) = Some t"
    using mi.dealloc_total [OF S mm_slot_valid lk' lk(2)] by blast
  note sh = vect_dealloc_shadow [OF t, of "\<lambda>d. mm_slot (mm_addr d)", OF key]
  let ?t = "st\<lparr>maps := maps t, objs := objs t\<rparr>"
  have "mm_ok ?t" using mi.dealloc_ok [OF S mm_slot_valid lk' lk(2) t] sh(2) init by (auto simp: mm_ok_def intro!: exI [of _ S])
  moreover have "mm_call_desc_lookup j ?t = (if mm_slot j = ?i then Some NULL else mm_call_desc_lookup j st)" for j
    using mi.dealloc_look [OF S mm_slot_valid lk' lk(2) t mm_slot_valid, of j] by (simp add: mm_call_desc_lookup_def vect_lookup_def shadow_def)
  ultimately show thesis using that [of ?t] sh(1) by (simp add: mm_call_desc_dealloc_def same_rest_def)
qed

text \<open>What recovery leaves alone: everything but the fault counters, the state codes and the world.\<close>

definition mm_core :: "mm_desc \<Rightarrow> spdid \<times> int \<times> int \<times> int \<times> bool \<times> addr \<times> addr" where
  "mm_core d = (mm_spd d, mm_s_addr d, mm_d_spd_flags d, mm_addr d, mm_is_parent d, mm_next d, mm_prev d)"

definition mm_same :: "'w mm_stub \<Rightarrow> 'w mm_stub \<Rightarrow> bool" where
  "mm_same st st' \<longleftrightarrow> maps st' = maps st \<and> objs st' = objs st \<and> first_map_init st' = first_map_init st \<and>
     (\<forall>a. mm_core (descs st' a) = mm_core (descs st a))"

lemma mm_same_refl [simp]: "mm_same st st"
  by (simp add: mm_same_def)

lemma mm_same_trans: "mm_same s t \<Longrightarrow> mm_same t u \<Longrightarrow> mm_same s u"
  by (simp add: mm_same_def)

lemma mm_same_simps [simp]:
  "mm_same st (s\<lparr>world := w\<rparr>) = mm_same st s" "mm_same st (s\<lparr>global_fault_cnt := c\<rparr>) = mm_same st s"
  "mm_same st (mm_recover_call_nameserver E d i t s) = mm_same st s"
  by (simp_all add: mm_same_def mm_recover_call_nameserver_def call_extern_def split: prod.split)

lemma mm_same_put: "mm_same st s \<Longrightarrow> (\<And>d. mm_core (f d) = mm_core d) \<Longrightarrow> mm_same st (put_desc a f s)"
  by (simp add: mm_same_def)

lemma mm_same_bookkeeping [simp]:
  "mm_core (d\<lparr>fault_cnt := c\<rparr>) = mm_core d" "mm_core (d\<lparr>state := s\<rparr>) = mm_core d" "mm_core (d\<lparr>next_state := s\<rparr>) = mm_core d"
  "mm_core (d\<lparr>state := s, fault_cnt := c\<rparr>) = mm_core d"
  by (simp_all add: mm_core_def)

lemma mm_sameD:
  assumes "mm_same st s"
  shows "mm_call_desc_lookup i s = mm_call_desc_lookup i st" "mm_links s = mm_links st" "mm_ok s = mm_ok st"
    "mm_spd (descs s a) = mm_spd (descs st a)" "mm_s_addr (descs s a) = mm_s_addr (descs st a)"
    "mm_d_spd_flags (descs s a) = mm_d_spd_flags (descs st a)" "mm_addr (descs s a) = mm_addr (descs st a)"
    "mm_is_parent (descs s a) = mm_is_parent (descs st a)" "mm_dest (descs s a) = mm_dest (descs st a)" "first_map_init s = first_map_init st"
proof -
  have m: "maps s = maps st" "objs s = objs st" "first_map_init s = first_map_init st" and c: "mm_core (descs s a) = mm_core (descs st a)" for a
    using assms by (simp_all add: mm_same_def)
  show "mm_ok s = mm_ok st" using mm_ok_cong [of st s] mm_ok_cong [of s st] m by auto
  show "mm_links s = mm_links st" using c by (simp add: mm_links_def mm_core_def)
qed (use assms in \<open>auto simp: mm_same_def mm_core_def mm_dest_def intro: mm_lookup_cong\<close>)

section \<open>Recovery comes back\<close>

text \<open>
  As for the other stubs, the server fails finitely often; \<^verbatim>\<open>-ECHILD\<close>, that the page to be aliased is
  not there, is a failure too, and \<^verbatim>\<open>mman_get_page_exist\<close> puts a page where it is asked to.
\<close>

definition mm_fails_within :: "'w env \<Rightarrow> ('w \<Rightarrow> nat) \<Rightarrow> bool" where
  "mm_fails_within E b \<longleftrightarrow> fails_within E b \<and>
     (\<forall>args w w'. server E ''__mman_alias_page'' args w = (- ECHILD, False, w') \<longrightarrow> b w' < b w) \<and>
     (\<forall>spd s w. ul (fst (extern E ''mman_get_page_exist'' [spd, s, 0, s] w)) = s)"

text \<open>A server that does not fail, and a world that is the list of the calls made so far.\<close>

type_synonym calls = "(string \<times> int list) list"

definition mm_quiet :: "'w env \<Rightarrow> ('w \<Rightarrow> calls) \<Rightarrow> bool" where
  "mm_quiet E lg \<longleftrightarrow>
     (\<forall>f args w. case server E f args w of (ret, fault, w') \<Rightarrow> \<not> fault \<and> ret \<notin> {- EINVAL, - ECHILD, - ELOOP} \<and> lg w' = lg w @ [(f, args)]) \<and>
     (\<forall>f args w. case extern E f args w of (ret, w') \<Rightarrow> lg w' = lg w @ [(f, args)])"

lemma mm_quiet_server:
  assumes "mm_quiet E lg" "server E f args w = (ret, fault, w')"
  shows "\<not> fault \<and> ret \<notin> {- EINVAL, - ECHILD, - ELOOP} \<and> lg w' = lg w @ [(f, args)]"
proof -
  have "case server E f args w of (ret, fault, w') \<Rightarrow> \<not> fault \<and> ret \<notin> {- EINVAL, - ECHILD, - ELOOP} \<and> lg w' = lg w @ [(f, args)]"
    using assms(1) unfolding mm_quiet_def by (elim conjE) simp
  then show ?thesis using assms(2) by simp
qed

lemma mm_quiet_nameserver:
  assumes "mm_quiet E lg"
  shows "lg (world (mm_recover_call_nameserver E d i t s)) = lg (world s) @ [(''valloc_upcall'', [d, i, t])]"
proof -
  have "case extern E ''valloc_upcall'' [d, i, t] (world s) of (ret, w') \<Rightarrow> lg w' = lg (world s) @ [(''valloc_upcall'', [d, i, t])]"
    using assms unfolding mm_quiet_def by (elim conjE) simp
  then show ?thesis by (auto simp: mm_recover_call_nameserver_def call_extern_def split: prod.splits)
qed

definition mm_alias_call :: "mm_desc \<Rightarrow> string \<times> int list" where
  "mm_alias_call d = (''__mman_alias_page'', [mm_spd d, mm_s_addr d, mm_d_spd_flags d, mm_addr d])"

lemma mm_nameserver_budget: "fails_within E b \<Longrightarrow> b (world (mm_recover_call_nameserver E d i t s)) \<le> b (world s)"
  using fails_within_extern [of E b] by (auto simp: mm_recover_call_nameserver_def call_extern_def split: prod.split)

lemma mm_map_init [simp]: "mm_ok st \<Longrightarrow> mm_call_map_init st = st"
  by (simp add: mm_ok_def mm_call_map_init_def vect_init_once_def)

lemma mm_track_new_tracked:
  "mm_call_desc_lookup addr s = Some a \<Longrightarrow> a \<noteq> NULL \<Longrightarrow> mm_track_new ret spd s_addr fl addr s = Some (ret, s)"
  by (simp add: mm_track_new_def)

lemma mm_track_alias_tracked:
  assumes fw: "mm_fails_within E b" and ok: "mm_ok s" and a: "mm_call_desc_lookup addr s = Some a" "a \<noteq> NULL"
  shows "\<exists>ret' s'. mm_track_alias_page E ret spd s_addr fl addr s = Some (ret', s') \<and> mm_same s s' \<and> b (world s') \<le> b (world s) \<and>
    (ret' = - ELOOP \<longrightarrow> ret \<in> {- EINVAL, - ECHILD, - ELOOP}) \<and> (ret \<notin> {- EINVAL, - ECHILD, - ELOOP} \<longrightarrow> world s' = world s)"
proof -
  have f: "fails_within E b" using fw by (simp add: mm_fails_within_def)
  obtain p where p: "mm_call_desc_lookup s_addr s = Some p" using mm_lookup_total [OF ok] by blast
  obtain tmp w where t: "extern E ''mman_get_page_exist'' [spd, s_addr, 0, s_addr] (world s) = (tmp, w)" by (metis surj_pair)
  have tmp: "ul tmp = s_addr" "b w \<le> b (world s)" using fw fails_within_extern [OF f t] t unfolding mm_fails_within_def by (metis fst_conv)+
  let ?n = "mm_recover_call_nameserver E spd s_addr COS_UPCALL_RECOVERY s" and ?c = "put_desc p (\<lambda>d. d\<lparr>fault_cnt := fault_now s\<rparr>) (s\<lparr>world := w\<rparr>)"
  have same: "mm_same s ?c" "mm_same s ?n" by (rule mm_same_put) simp_all
  have "mm_track_new r spd s_addr fl addr t = Some (r, t)" if "mm_same s t" for r t
    using mm_track_new_tracked [OF _ a(2)] mm_sameD(1) [OF that, of addr] a(1) by simp
  from this [OF mm_same_refl] this [OF same(1)] this [OF same(2)] same show ?thesis
    using p t tmp mm_nameserver_budget [OF f, of spd s_addr COS_UPCALL_RECOVERY s] by (simp add: mm_track_alias_page_def call_extern_def)
qed

lemma mman_alias_tracked:
  assumes fw: "mm_fails_within E b" and ok: "mm_ok st" and fuel: "b (world st) < n" and a: "mm_call_desc_lookup addr st = Some a" "a \<noteq> NULL"
  shows "\<exists>r st'. mman_alias_page n E spd s_addr fl addr st = Some (r, st') \<and> mm_same st st' \<and> b (world st') \<le> b (world st) \<and>
    (mm_quiet E lg \<longrightarrow> lg (world st') = lg (world st) @ [(''__mman_alias_page'', [spd, s_addr, fl, addr])])"
proof -
  have f: "fails_within E b" using fw by (simp add: mm_fails_within_def)
  have "\<exists>r st'. redo n (mm_alias_turn E spd s_addr fl addr) st = Some (r, st') \<and> mm_same st st' \<and> b (world st') \<le> b (world st) \<and>
    (mm_quiet E lg \<longrightarrow> lg (world st') = lg (world st) @ [(''__mman_alias_page'', [spd, s_addr, fl, addr])])"
  proof (rule redo_total [where I = "\<lambda>s. mm_same st s \<and> b (world s) \<le> b (world st) \<and> (mm_quiet E lg \<longrightarrow> lg (world s) = lg (world st))" and mu = "\<lambda>s. b (world s)"])
    fix s assume s: "mm_same st s \<and> b (world s) \<le> b (world st) \<and> (mm_quiet E lg \<longrightarrow> lg (world s) = lg (world st))"
    obtain ret fault w where sv: "server E ''__mman_alias_page'' [spd, s_addr, fl, addr] (world s) = (ret, fault, w)" by (metis prod_cases3)
    note b = fails_within_server [OF f sv]
    have ec: "ret = - ECHILD \<Longrightarrow> \<not> fault \<Longrightarrow> b w < b (world s)" using fw sv by (auto simp: mm_fails_within_def)
    have q: "mm_quiet E lg \<longrightarrow> \<not> fault \<and> ret \<notin> {- EINVAL, - ECHILD, - ELOOP} \<and> lg w = lg (world s) @ [(''__mman_alias_page'', [spd, s_addr, fl, addr])]"
      using mm_quiet_server [OF _ sv] by blast
    let ?w = "s\<lparr>world := w\<rparr>"
    show "(\<exists>s'. mm_alias_turn E spd s_addr fl addr s = Some (Redo, s') \<and>
        (mm_same st s' \<and> b (world s') \<le> b (world st) \<and> (mm_quiet E lg \<longrightarrow> lg (world s') = lg (world st))) \<and> b (world s') < b (world s)) \<or>
      (\<exists>r s'. mm_alias_turn E spd s_addr fl addr s = Some (Return r, s') \<and> mm_same st s' \<and> b (world s') \<le> b (world st) \<and>
        (mm_quiet E lg \<longrightarrow> lg (world s') = lg (world st) @ [(''__mman_alias_page'', [spd, s_addr, fl, addr])]))"
    proof (cases fault)
      case True
      obtain s' where s': "CSTUB_FAULT_UPDATE E ?w = Some s'" "b (world s') \<le> b w" using fault_update_budget [OF f, of ?w] by auto
      have "mm_same st s'" using s fault_update_frame [OF s'(1)] by auto
      then show ?thesis using True sv s' b s q
        by (intro disjI1 exI [of _ s']) (simp add: mm_alias_turn_def mm_invoke_alias_page_def CSTUB_INVOKE_def mm_desc_update_alias_page_def mm_post_fault_def)
    next
      case False
      have lk: "mm_call_desc_lookup addr ?w = Some a" "mm_ok ?w" using mm_sameD(1,3) [of st ?w] s a(1) ok by simp_all
      obtain ret' s' where t: "mm_track_alias_page E ret spd s_addr fl addr ?w = Some (ret', s')" "mm_same ?w s'" "b (world s') \<le> b w"
        "ret' = - ELOOP \<longrightarrow> ret \<in> {- EINVAL, - ECHILD, - ELOOP}" "ret \<notin> {- EINVAL, - ECHILD, - ELOOP} \<longrightarrow> world s' = w" using mm_track_alias_tracked [OF fw lk(2,1) a(2)] by fastforce
      have same: "mm_same st s'" "mm_same st ?w" using s t(2) mm_same_trans [of st ?w s'] by simp_all
      show ?thesis
        using False sv t(1,3-5) b ec s same q
        by (auto simp: mm_alias_turn_def mm_invoke_alias_page_def CSTUB_INVOKE_def mm_desc_update_alias_page_def)
    qed
  qed (use fuel in auto)
  then show ?thesis using ok by (simp add: mman_alias_page_def)
qed

lemma mm_basic_id_ok:
  assumes fw: "mm_fails_within E b" and ok: "mm_ok st" and fuel: "b (world st) < n" and i: "i \<noteq> 0"
    and a: "mm_call_desc_lookup i st = Some a" "a \<noteq> NULL" and c: "mm_call_desc_lookup (mm_addr (descs st a)) st = Some c" "c \<noteq> NULL"
  shows "\<exists>st'. mm_basic_id n E i st = Some st' \<and> mm_same st st' \<and> b (world st') \<le> b (world st) \<and> (mm_quiet E lg \<longrightarrow> lg (world st') = lg (world st) @ [mm_alias_call (descs st a)])"
proof -
  let ?d = "descs st a"
  obtain r s where s: "mman_alias_page n E (mm_spd ?d) (mm_s_addr ?d) (mm_d_spd_flags ?d) (mm_addr ?d) st = Some (r, s)" "mm_same st s" "b (world s) \<le> b (world st)"
    "mm_quiet E lg \<longrightarrow> lg (world s) = lg (world st) @ [mm_alias_call ?d]" using mman_alias_tracked [OF fw ok fuel c] unfolding mm_alias_call_def by blast
  have "mm_same st (put_desc a (\<lambda>d. d\<lparr>state := state_mman_get_page, fault_cnt := fault_now s\<rparr>) s)" by (rule mm_same_put [OF s(2)]) simp
  then show ?thesis using i a s by (simp add: mm_basic_id_def mm_recover_data_def)
qed

section \<open>The copies of a page\<close>

text \<open>
  \<open>cs\<close> are the descriptors of the copies of the page at \<open>addr\<close>, and \<open>p\<close> is its own. A copy can be
  found by its address and has no copies itself.
\<close>

definition mm_copy :: "'w mm_stub \<Rightarrow> addr \<Rightarrow> bool" where
  "mm_copy st c \<longleftrightarrow> c \<noteq> NULL \<and> mm_addr (descs st c) \<noteq> 0 \<and> mm_call_desc_lookup (mm_addr (descs st c)) st = Some c \<and>
     \<not> mm_is_parent (descs st c)"

definition mm_copies :: "'w mm_stub \<Rightarrow> int \<Rightarrow> addr \<Rightarrow> addr list \<Rightarrow> bool" where
  "mm_copies st addr p cs \<longleftrightarrow> mm_call_desc_lookup addr st = Some p \<and> p \<noteq> NULL \<and> mm_is_parent (descs st p) \<and>
     ring (mm_links st) (p # cs) \<and> (\<forall>c \<in> set cs. mm_copy st c)"

lemma mm_copy_same: "mm_same st s \<Longrightarrow> mm_copy s c = mm_copy st c"
  by (simp add: mm_copy_def mm_sameD)

lemma mm_copies_same: "mm_same st s \<Longrightarrow> mm_copies s addr p cs = mm_copies st addr p cs"
  by (simp add: mm_copies_def mm_sameD mm_copy_same)

lemma mm_subtree_leaf: "mm_copy st c \<Longrightarrow> mm_subtree_with loop (mm_addr (descs st c)) st = Some st"
  by (simp add: mm_subtree_with_def mm_copy_def)

lemma mm_remove_leaf: "mm_copy st c \<Longrightarrow> mm_remove_with loop (mm_addr (descs st c)) st = Some st"
  by (simp add: mm_remove_with_def mm_copy_def)

text \<open>The calls that bring a copy back, and the call that tells its component that it is gone.\<close>

definition mm_recover_calls :: "'w env \<Rightarrow> mm_desc \<Rightarrow> calls" where
  "mm_recover_calls E d = mm_alias_call d #
     (if mm_dest d \<noteq> cos_spd_id E then [(''valloc_upcall'', [mm_dest d, mm_addr d, COS_UPCALL_RECOVERY_SUBTREE])] else [])"

definition mm_forget_calls :: "'w env \<Rightarrow> mm_desc \<Rightarrow> calls" where
  "mm_forget_calls E d = (if mm_dest d \<noteq> cos_spd_id E then [(''valloc_upcall'', [mm_dest d, mm_addr d, COS_UPCALL_REMOVE_SUBTREE])] else [])"

lemma mm_calls_same:
  assumes "mm_same st s"
  shows "mm_alias_call (descs s a) = mm_alias_call (descs st a)" "mm_recover_calls E (descs s a) = mm_recover_calls E (descs st a)"
    "mm_forget_calls E (descs s a) = mm_forget_calls E (descs st a)"
  by (simp_all add: mm_recover_calls_def mm_forget_calls_def mm_alias_call_def mm_sameD [OF assms])

lemma mm_subtree_loop_ok:
  assumes fw: "mm_fails_within E b" and "mm_ok st" "b (world st) < n" "linked (mm_links st) x cs p" "p \<notin> set cs" "\<And>c. c \<in> set cs \<Longrightarrow> mm_copy st c" "length cs < k"
  shows "\<exists>st'. mm_subtree_loop k n E p (nxt (mm_links st) x) st = Some st' \<and> mm_same st st' \<and> b (world st') \<le> b (world st) \<and>
    (mm_quiet E lg \<longrightarrow> lg (world st') = lg (world st) @ concat (map (\<lambda>c. mm_recover_calls E (descs st c)) cs))"
  using assms(2-)
proof (induction cs arbitrary: x k st)
  case Nil
  then show ?case by (cases k) auto
next
  case (Cons c cs)
  have f: "fails_within E b" using fw by (simp add: mm_fails_within_def)
  obtain k' where k: "k = Suc k'" "length cs < k'" using Cons.prems(6) by (cases k) auto
  have c: "mm_copy st c" "nxt (mm_links st) x = c" "linked (mm_links st) c cs p" "c \<noteq> p" using Cons.prems(3-5) by auto
  obtain s where s: "mm_basic_id n E (mm_addr (descs st c)) st = Some s" "mm_same st s" "b (world s) \<le> b (world st)"
    "mm_quiet E lg \<longrightarrow> lg (world s) = lg (world st) @ [mm_alias_call (descs st c)]"
    using mm_basic_id_ok [OF fw Cons.prems(1,2), of "mm_addr (descs st c)" c c] c(1) unfolding mm_copy_def by blast
  let ?u = "if mm_dest (descs s c) \<noteq> cos_spd_id E
      then mm_recover_call_nameserver E (mm_dest (descs s c)) (mm_addr (descs s c)) COS_UPCALL_RECOVERY_SUBTREE s else s"
  have u: "mm_same st ?u" "b (world ?u) \<le> b (world st)"
    using s(2,3) mm_nameserver_budget [OF f, of "mm_dest (descs s c)" "mm_addr (descs s c)" COS_UPCALL_RECOVERY_SUBTREE s] by auto
  have lu: "mm_quiet E lg \<longrightarrow> lg (world ?u) = lg (world st) @ mm_recover_calls E (descs st c)"
    using s(4) mm_quiet_nameserver [of E lg "mm_dest (descs s c)" "mm_addr (descs s c)" COS_UPCALL_RECOVERY_SUBTREE s] mm_sameD(7,9) [OF s(2), of c]
    by (auto simp: mm_recover_calls_def)
  have "mm_subtree_with loop (mm_addr (descs s c)) s = Some s" for loop using mm_subtree_leaf c(1) mm_copy_same [OF s(2)] by blast
  then have step: "mm_subtree_loop k n E p (nxt (mm_links st) x) st = mm_subtree_loop k' n E p (nxt (mm_links ?u) c) ?u"
    using k(1) c(2,4) s(1) by (simp add: FIRST_LIST_def)
  have "\<exists>st'. mm_subtree_loop k' n E p (nxt (mm_links ?u) c) ?u = Some st' \<and> mm_same ?u st' \<and> b (world st') \<le> b (world ?u) \<and>
      (mm_quiet E lg \<longrightarrow> lg (world st') = lg (world ?u) @ concat (map (\<lambda>c. mm_recover_calls E (descs ?u c)) cs))"
  proof (rule Cons.IH [OF _ _ _ _ _ k(2)])
    show "mm_ok ?u" using Cons.prems(1) mm_sameD(3) [OF u(1)] by blast
    show "b (world ?u) < n" using u(2) Cons.prems(2) by linarith
    show "linked (mm_links ?u) c cs p" using c(3) mm_sameD(2) [OF u(1)] by metis
    show "p \<notin> set cs" using Cons.prems(4) by simp
    show "mm_copy ?u d" if "d \<in> set cs" for d using Cons.prems(5) [of d] that mm_copy_same [OF u(1)] by auto
  qed
  then obtain st' where st': "mm_subtree_loop k' n E p (nxt (mm_links ?u) c) ?u = Some st'" "mm_same ?u st'" "b (world st') \<le> b (world ?u)"
    "mm_quiet E lg \<longrightarrow> lg (world st') = lg (world ?u) @ concat (map (\<lambda>c. mm_recover_calls E (descs ?u c)) cs)" by blast
  have "mm_quiet E lg \<longrightarrow> lg (world st') = lg (world st) @ concat (map (\<lambda>c. mm_recover_calls E (descs st c)) (c # cs))"
    using st'(4) lu unfolding mm_calls_same(2) [OF u(1)] by simp
  then show ?case unfolding step using st'(1) mm_same_trans [OF u(1) st'(2)] le_trans [OF st'(3) u(2)] by blast
qed

lemma mm_subtree_ok:
  assumes fw: "mm_fails_within E b" "mm_ok st" "b (world st) < n" and c: "mm_copies st addr p cs" "length cs < k" "addr \<noteq> 0"
  shows "\<exists>st'. mm_recover_upcall_subtree k n E addr st = Some st' \<and> mm_same st st' \<and> b (world st') \<le> b (world st) \<and>
    (mm_quiet E lg \<longrightarrow> lg (world st') = lg (world st) @ concat (map (\<lambda>c. mm_recover_calls E (descs st c)) cs))"
proof -
  have "linked (mm_links st) p cs p" "p \<notin> set cs" using c(1) by (auto simp: mm_copies_def)
  then show ?thesis using mm_subtree_loop_ok [OF fw, of p cs p k] c
    by (auto simp: mm_recover_upcall_subtree_def mm_subtree_with_def mm_copies_def FIRST_LIST_def)
qed

lemma mm_call_desc_update_ok:
  assumes fw: "mm_fails_within E b" "mm_ok st" "b (world st) < n" and i: "mm_call_desc_lookup i st = Some a" "a \<noteq> NULL" "i \<noteq> 0"
    and c: "mm_call_desc_lookup (mm_addr (descs st a)) st = Some c" "c \<noteq> NULL"
  shows "\<exists>st'. mm_call_desc_update n E i to_state st = Some (a, st') \<and> mm_same st st' \<and> b (world st') \<le> b (world st) \<and>
    (mm_quiet E lg \<longrightarrow> lg (world st') = lg (world st) @ (if fault_cnt (descs st a) = fault_now st then [] else [mm_alias_call (descs st a)]))"
proof -
  let ?s = "put_desc a (\<lambda>d. d\<lparr>next_state := to_state\<rparr>) st" and ?t = "put_desc a (\<lambda>d. d\<lparr>next_state := to_state, fault_cnt := fault_now st\<rparr>) st"
  have same: "mm_same st ?s" "mm_same st ?t" by (rule mm_same_put; simp add: mm_core_def)+
  have "\<exists>st'. mm_basic_id n E i ?t = Some st' \<and> mm_same ?t st' \<and> b (world st') \<le> b (world ?t) \<and>
      (mm_quiet E lg \<longrightarrow> lg (world st') = lg (world ?t) @ [mm_alias_call (descs ?t a)])"
  proof (rule mm_basic_id_ok [OF fw(1) _ _ i(3) _ i(2) _ c(2)])
    show "mm_call_desc_lookup (mm_addr (descs ?t a)) ?t = Some c" using c(1) mm_sameD(1,7) [OF same(2)] by metis
    show "mm_call_desc_lookup i ?t = Some a" using i(1) mm_sameD(1) [OF same(2)] by metis
    show "mm_ok ?t" using fw(2) mm_sameD(3) [OF same(2)] by blast
  qed (use fw(3) in simp)
  then show ?thesis
    using i same mm_same_trans [OF same(2)] mm_calls_same(1) [OF same(2), of a] by (auto simp: mm_call_desc_update_def mm_recover_def Let_def)
qed

section \<open>Forgetting the copies\<close>

lemma mm_relink_simps [simp]:
  "maps (mm_relink f st) = maps st" "objs (mm_relink f st) = objs st" "first_map_init (mm_relink f st) = first_map_init st"
  "world (mm_relink f st) = world st" "global_fault_cnt (mm_relink f st) = global_fault_cnt st" "mm_links (mm_relink f st) = f (mm_links st)"
  "mm_spd (descs (mm_relink f st) a) = mm_spd (descs st a)" "mm_s_addr (descs (mm_relink f st) a) = mm_s_addr (descs st a)"
  "mm_d_spd_flags (descs (mm_relink f st) a) = mm_d_spd_flags (descs st a)" "mm_addr (descs (mm_relink f st) a) = mm_addr (descs st a)"
  "mm_is_parent (descs (mm_relink f st) a) = mm_is_parent (descs st a)" "mm_dest (descs (mm_relink f st) a) = mm_dest (descs st a)"
  "mm_call_desc_lookup i (mm_relink f st) = mm_call_desc_lookup i st"
  by (simp_all add: mm_relink_def mm_links_def Let_def mm_dest_def mm_call_desc_lookup_def vect_lookup_def)

lemma mm_relink_core:
  "mm_core (descs (mm_relink f st) a) = mm_core (descs st a) \<longleftrightarrow> nxt (f (mm_links st)) a = nxt (mm_links st) a \<and> prv (f (mm_links st)) a = prv (mm_links st) a"
  by (auto simp: mm_core_def mm_relink_def mm_links_def Let_def)

lemma mm_relink_ok [simp]: "mm_ok (mm_relink f st) = mm_ok st"
  using mm_ok_cong [of st "mm_relink f st"] mm_ok_cong [of "mm_relink f st" st] by auto

lemma REM_LIST_outside: "ring l xs \<Longrightarrow> x \<in> set xs \<Longrightarrow> a \<notin> set xs \<Longrightarrow> nxt (REM_LIST l x) a = nxt l a \<and> prv (REM_LIST l x) a = prv l a"
  using ring_neighbours [of l xs x] by (auto simp: REM_LIST_def Let_def)

text \<open>What the table looks like after the copies \<open>cs\<close> have been forgotten; \<open>F\<close> are the descriptors that were touched.\<close>

definition mm_forgotten :: "addr set \<Rightarrow> addr list \<Rightarrow> 'w mm_stub \<Rightarrow> 'w mm_stub \<Rightarrow> bool" where
  "mm_forgotten F cs st st' \<longleftrightarrow>
     (\<forall>j. mm_call_desc_lookup j st' = (if \<exists>c \<in> set cs. mm_slot j = mm_slot (mm_addr (descs st c)) then Some NULL else mm_call_desc_lookup j st)) \<and>
     (\<forall>a. a \<notin> F \<longrightarrow> mm_core (descs st' a) = mm_core (descs st a))"

lemma mm_remove_one:
  assumes f: "fails_within E b" and ok: "mm_ok st" and c: "mm_copies st addr p (c # cs)" and k: "k = Suc k'"
  shows "\<exists>s. mm_remove_loop k E p st = mm_remove_loop k' E p s \<and> mm_ok s \<and> mm_copies s addr p cs \<and> mm_forgotten (set (p # c # cs)) [c] st s \<and>
    (\<forall>d \<in> set cs. mm_addr (descs s d) = mm_addr (descs st d) \<and> mm_dest (descs s d) = mm_dest (descs st d)) \<and> b (world s) \<le> b (world st) \<and>
    (mm_quiet E lg \<longrightarrow> lg (world s) = lg (world st) @ mm_forget_calls E (descs st c))"
proof -
  have cp: "mm_copy st c" "mm_call_desc_lookup addr st = Some p" "p \<noteq> NULL" "mm_is_parent (descs st p)" "ring (mm_links st) (p # c # cs)"
    "\<And>d. d \<in> set cs \<Longrightarrow> mm_copy st d" using c by (auto simp: mm_copies_def)
  let ?u = "if mm_dest (descs st c) \<noteq> cos_spd_id E
      then mm_recover_call_nameserver E (mm_dest (descs st c)) (mm_addr (descs st c)) COS_UPCALL_REMOVE_SUBTREE st else st"
  have u: "mm_same st ?u" "b (world ?u) \<le> b (world st)"
    using mm_nameserver_budget [OF f, of "mm_dest (descs st c)" "mm_addr (descs st c)" COS_UPCALL_REMOVE_SUBTREE st] by auto
  define v where "v = mm_relink (\<lambda>l. REM_LIST l c) ?u"
  note sd = mm_sameD [OF u(1)]
  have v: "mm_ok v" "mm_call_desc_lookup j v = mm_call_desc_lookup j st" "mm_addr (descs v a) = mm_addr (descs st a)"
    "mm_is_parent (descs v a) = mm_is_parent (descs st a)" "mm_links v = REM_LIST (mm_links st) c" "world v = world ?u" for j a
    unfolding v_def using ok sd by simp_all
  have cn: "c \<noteq> NULL" "mm_call_desc_lookup (mm_addr (descs v c)) v = Some c" using cp(1) v(2,3) by (simp_all add: mm_copy_def)
  obtain s where s: "mm_call_desc_dealloc c v = Some s" "mm_ok s" "descs s = descs v" "same_rest v s"
    "\<And>j. mm_call_desc_lookup j s = (if mm_slot j = mm_slot (mm_addr (descs v c)) then Some NULL else mm_call_desc_lookup j v)"
    using mm_dealloc_ok [OF v(1) cn(2,1)] by blast
  have first: "nxt (mm_links st) p = c" "\<not> EMPTY_LIST (mm_links st) p" using cp(5) by (auto simp: EMPTY_LIST_def)
  have "mm_remove_loop k E p st = mm_remove_loop k' E p s"
    using k first cn(1) mm_remove_leaf [OF cp(1)] s(1) by (auto simp: FIRST_LIST_def v_def)
  moreover have ns: "mm_slot i \<noteq> mm_slot (mm_addr (descs st c))" if "mm_call_desc_lookup i st = Some d" "d \<noteq> c" for i d
    using that mm_lookup_slot [of i "mm_addr (descs st c)" st] cp(1) by (auto simp: mm_copy_def)
  have "mm_copies s addr p cs"
  proof -
    have "ring (REM_LIST (mm_links st) c) (p # cs)" using cos_list.rem_member [of "mm_links st" p "[]" c cs] cp(5) by simp
    moreover have "mm_links s = REM_LIST (mm_links st) c" using v(5) s(3) by (simp add: mm_links_def)
    moreover have "mm_copy s d" if "d \<in> set cs" for d
      using cp(6) [OF that] that cp(5) ns [of "mm_addr (descs st d)" d] s(3,5) v(2-4) by (auto simp: mm_copy_def)
    moreover have "mm_call_desc_lookup addr s = Some p" using cp(2,5) ns [of addr p] s(5) v(2,3) by auto
    ultimately show ?thesis using cp(3,4) v(4) s(3) by (simp add: mm_copies_def)
  qed
  moreover have "mm_forgotten (set (p # c # cs)) [c] st s"
  proof -
    have "mm_core (descs s a) = mm_core (descs st a)" if "a \<notin> set (p # c # cs)" for a
    proof -
      have "mm_core (descs v a) = mm_core (descs ?u a)"
        unfolding v_def mm_relink_core using REM_LIST_outside [OF cp(5) _ that, of c] sd(2) by simp
      then show ?thesis using u(1) s(3) by (simp add: mm_same_def)
    qed
    then show ?thesis using s(5) v(2,3) by (simp add: mm_forgotten_def)
  qed
  moreover have "\<forall>d \<in> set cs. mm_addr (descs s d) = mm_addr (descs st d) \<and> mm_dest (descs s d) = mm_dest (descs st d)"
    using v(3) s(3) sd(9) by (simp add: v_def)
  moreover have "mm_quiet E lg \<longrightarrow> lg (world s) = lg (world st) @ mm_forget_calls E (descs st c)"
    using s(4) v(6) mm_quiet_nameserver [of E lg "mm_dest (descs st c)" "mm_addr (descs st c)" COS_UPCALL_REMOVE_SUBTREE st]
    by (auto simp: mm_forget_calls_def same_rest_def)
  moreover have "b (world s) \<le> b (world st)" using s(4) v(6) u(2) by (simp add: same_rest_def)
  ultimately show ?thesis using s(2) by blast
qed

lemma mm_remove_loop_ok:
  assumes f: "fails_within E b" and "mm_ok st" "mm_copies st addr p cs" "length cs < k" "set (p # cs) \<subseteq> F"
  shows "\<exists>st'. mm_remove_loop k E p st = Some st' \<and> mm_ok st' \<and> mm_copies st' addr p [] \<and> mm_forgotten F cs st st' \<and> b (world st') \<le> b (world st) \<and>
    (mm_quiet E lg \<longrightarrow> lg (world st') = lg (world st) @ concat (map (\<lambda>c. mm_forget_calls E (descs st c)) cs))"
  using assms(2-)
proof (induction cs arbitrary: k st)
  case Nil
  then have "EMPTY_LIST (mm_links st) p" by (auto simp: mm_copies_def EMPTY_LIST_def)
  then show ?case using Nil by (cases k) (auto simp: mm_forgotten_def)
next
  case (Cons c cs)
  obtain k' where k: "k = Suc k'" "length cs < k'" using Cons.prems(3) by (cases k) auto
  obtain s where s: "mm_remove_loop k E p st = mm_remove_loop k' E p s" "mm_ok s" "mm_copies s addr p cs" "mm_forgotten (set (p # c # cs)) [c] st s"
    "\<forall>d \<in> set cs. mm_addr (descs s d) = mm_addr (descs st d) \<and> mm_dest (descs s d) = mm_dest (descs st d)" "b (world s) \<le> b (world st)"
    "mm_quiet E lg \<longrightarrow> lg (world s) = lg (world st) @ mm_forget_calls E (descs st c)"
    using mm_remove_one [OF f Cons.prems(1,2) k(1)] by blast
  obtain st' where st': "mm_remove_loop k' E p s = Some st'" "mm_ok st'" "mm_copies st' addr p []" "mm_forgotten F cs s st'" "b (world st') \<le> b (world s)"
    "mm_quiet E lg \<longrightarrow> lg (world st') = lg (world s) @ concat (map (\<lambda>c. mm_forget_calls E (descs s c)) cs)"
    using Cons.IH [OF s(2,3) k(2)] Cons.prems(4) by auto
  have "mm_forgotten F (c # cs) st st'" using s(4,5) st'(4) Cons.prems(4) unfolding mm_forgotten_def by (auto simp: subset_iff)
  moreover have "map (\<lambda>c. mm_forget_calls E (descs s c)) cs = map (\<lambda>c. mm_forget_calls E (descs st c)) cs"
    using s(5) by (simp add: mm_forget_calls_def)
  ultimately show ?case using s(1,6,7) st' by (auto cong: map_cong)
qed

section \<open>Aliasing is recorded\<close>

text \<open>Whatever the server does, an alias of a page that has a descriptor changes nothing that is recorded.\<close>

lemma mm_track_alias_partial:
  assumes "mm_track_alias_page E ret spd s_addr fl addr s = Some (ret', s')" "mm_call_desc_lookup addr s = Some a" "a \<noteq> NULL"
  shows "mm_same s s'"
proof -
  have tn: "mm_track_new r spd s_addr fl addr t = Some (r, t)" if "mm_same s t" for r t
    using mm_track_new_tracked [OF _ assms(3)] mm_sameD(1) [OF that, of addr] assms(2) by simp
  let ?n = "mm_recover_call_nameserver E spd s_addr COS_UPCALL_RECOVERY s"
  have c: "mm_same s (put_desc d (\<lambda>d. d\<lparr>fault_cnt := cnt\<rparr>) (s\<lparr>world := w\<rparr>))" for d cnt w by (rule mm_same_put) simp_all
  show ?thesis
    using assms(1) tn [of ?n] tn [OF c] tn [of s] c
    by (auto simp: mm_track_alias_page_def call_extern_def bind_eq_Some_conv assert_that_def split: if_splits prod.splits)
qed

lemma mman_alias_partial:
  assumes run: "mman_alias_page n E spd s_addr fl addr st = Some (r, st')" and ok: "mm_ok st" and a: "mm_call_desc_lookup addr st = Some a" "a \<noteq> NULL"
  shows "mm_same st st'"
proof -
  have turn: "mm_same st s'" if s: "mm_same st s" and t: "mm_alias_turn E spd s_addr fl addr s = Some (t, s')" for s t s'
  proof -
    obtain ret fault w where sv: "server E ''__mman_alias_page'' [spd, s_addr, fl, addr] (world s) = (ret, fault, w)" by (metis prod_cases3)
    show ?thesis
    proof (cases fault)
      case True
      then show ?thesis using t sv s fault_update_frame [of E "s\<lparr>world := w\<rparr>"]
        by (fastforce simp: mm_alias_turn_def mm_invoke_alias_page_def CSTUB_INVOKE_def mm_desc_update_alias_page_def mm_post_fault_def bind_eq_Some_conv)
    next
      case False
      have "mm_call_desc_lookup addr (s\<lparr>world := w\<rparr>) = Some a" using mm_sameD(1) [of st "s\<lparr>world := w\<rparr>"] s a(1) by simp
      then have "mm_same (s\<lparr>world := w\<rparr>) u" if "mm_track_alias_page E ret spd s_addr fl addr (s\<lparr>world := w\<rparr>) = Some (ret', u)" for ret' u
        using mm_track_alias_partial [OF that _ a(2)] by blast
      moreover have "mm_same st (s\<lparr>world := w\<rparr>)" using s by simp
      ultimately show ?thesis using t sv False mm_same_trans [of st "s\<lparr>world := w\<rparr>"]
        by (auto simp: mm_alias_turn_def mm_invoke_alias_page_def CSTUB_INVOKE_def mm_desc_update_alias_page_def bind_eq_Some_conv split: if_splits)
    qed
  qed
  show ?thesis
    by (rule redo_partial [OF run [unfolded mman_alias_page_def mm_map_init [OF ok]], where I = "mm_same st"]) (use turn in auto)
qed

lemma mm_basic_id_partial:
  assumes "mm_basic_id n E i st = Some st'" "mm_ok st" "mm_call_desc_lookup i st = Some a" "mm_call_desc_lookup (mm_addr (descs st a)) st = Some c" "c \<noteq> NULL"
  shows "mm_same st st'"
proof -
  let ?d = "descs st a"
  obtain r s where s: "mman_alias_page n E (mm_spd ?d) (mm_s_addr ?d) (mm_d_spd_flags ?d) (mm_addr ?d) st = Some (r, s)"
    and st': "st' = put_desc a (\<lambda>d. d\<lparr>state := state_mman_get_page, fault_cnt := fault_now s\<rparr>) s"
    using assms(1,3) by (auto simp: mm_basic_id_def mm_recover_data_def bind_eq_Some_conv Let_def)
  show ?thesis unfolding st' by (rule mm_same_put [OF mman_alias_partial [OF s assms(2,4,5)]]) simp
qed

text \<open>
  A new descriptor \<open>d\<close> is the first copy of a page without a descriptor, or goes in front of the
  copies of one that has one.
\<close>

definition mm_recorded :: "spdid \<Rightarrow> int \<Rightarrow> int \<Rightarrow> int \<Rightarrow> addr \<Rightarrow> 'w mm_stub \<Rightarrow> bool" where
  "mm_recorded spd s_addr fl addr d st \<longleftrightarrow> mm_call_desc_lookup addr st = Some d \<and> d \<noteq> NULL \<and> mm_spd (descs st d) = spd \<and>
     mm_s_addr (descs st d) = s_addr \<and> mm_d_spd_flags (descs st d) = fl \<and> mm_addr (descs st d) = addr \<and> \<not> mm_is_parent (descs st d)"

lemma ADD_LIST_outside: "ring l (h # xs) \<Longrightarrow> a \<notin> set (n # h # xs) \<Longrightarrow> nxt (ADD_LIST l h n) a = nxt l a \<and> prv (ADD_LIST l h n) a = prv l a"
  using ring_neighbours [of l "h # xs" h] by (auto simp: ADD_LIST_def Let_def)

lemma mm_links_put: "(\<And>x. mm_next (f x) = mm_next x \<and> mm_prev (f x) = mm_prev x) \<Longrightarrow> mm_links (put_desc a f st) = mm_links st"
  by (auto simp: mm_links_def)

lemma mm_core_eqI:
  assumes "mm_spd (descs s a) = mm_spd (descs st a)" "mm_s_addr (descs s a) = mm_s_addr (descs st a)" "mm_d_spd_flags (descs s a) = mm_d_spd_flags (descs st a)"
    "mm_addr (descs s a) = mm_addr (descs st a)" "mm_is_parent (descs s a) = mm_is_parent (descs st a)"
    "nxt (mm_links s) a = nxt (mm_links st) a" "prv (mm_links s) a = prv (mm_links st) a"
  shows "mm_core (descs s a) = mm_core (descs st a)"
  using assms by (simp add: mm_core_def mm_links_def)

lemma mm_alloc_links: "mm_ok st \<Longrightarrow> mm_call_desc_alloc i st = Some (a, s) \<Longrightarrow> mm_links s = mm_links st"
  using mm_alloc_ok(7) [of st i a s] by (auto simp: mm_links_def)

lemma mm_record_first:
  assumes ok: "mm_ok st" and al: "mm_call_desc_alloc addr st = Some (d, s0)" and sl: "mm_slot s_addr \<noteq> mm_slot addr"
    and none: "mm_call_desc_lookup s_addr st = Some NULL" and con: "mm_call_desc_cons d addr spd s_addr fl addr s0 = Some s"
  shows "mm_ok s \<and> mm_recorded spd s_addr fl addr d s \<and> (\<exists>p. mm_call_desc_lookup s_addr s = Some p \<and> p \<noteq> NULL \<and> ring (mm_links s) [p, d] \<and>
      mm_is_parent (descs s p) \<and> mm_addr (descs s p) = addr \<and> mm_s_addr (descs s p) = s_addr \<and> mm_d_spd_flags (descs s p) = fl \<and> mm_spd (descs s p) = spd \<and>
      (\<forall>a. a \<noteq> p \<longrightarrow> a \<noteq> d \<longrightarrow> mm_core (descs s a) = mm_core (descs st a)) \<and>
      (\<forall>j. mm_call_desc_lookup j s = (if mm_slot j = mm_slot addr then Some d else if mm_slot j = mm_slot s_addr then Some p else mm_call_desc_lookup j st)))"
proof -
  note a0 = mm_alloc_ok [OF ok al]
  let ?s1 = "mm_relink (\<lambda>l. INIT_LIST l d) (put_desc d (\<lambda>x. x\<lparr>mm_spd := spd, mm_s_addr := s_addr, mm_d_spd_flags := fl, mm_addr := addr,
       fault_cnt := fault_now s0, mm_is_parent := False\<rparr>) s0)"
  have lk1: "mm_call_desc_lookup j ?s1 = mm_call_desc_lookup j s0" for j by (simp add: mm_call_desc_lookup_def vect_lookup_def)
  have ok1: "mm_ok ?s1" by (rule mm_ok_cong [OF a0(1)]) simp_all
  have l0: "mm_call_desc_lookup s_addr ?s1 = Some NULL" using a0(4) [of s_addr] sl none lk1 by simp
  obtain p s2 where al2: "mm_call_desc_alloc s_addr ?s1 = Some (p, s2)" using con l0 a0(2) by (auto simp: mm_call_desc_cons_def bind_eq_Some_conv)
  note a2 = mm_alloc_ok [OF ok1 al2]
  let ?s3 = "put_desc p (\<lambda>x. x\<lparr>mm_spd := spd, mm_s_addr := s_addr, mm_d_spd_flags := fl, mm_addr := addr, fault_cnt := fault_now s2, mm_is_parent := True\<rparr>)
      (mm_relink (\<lambda>l. INIT_LIST l p) s2)"
  have s: "s = mm_relink (\<lambda>l. ADD_LIST l p d) ?s3"
    using con l0 a0(2) al2 a2(2) by (simp add: mm_call_desc_cons_def fault_now_def comp_def)
  have pd: "p \<noteq> d" using a2(6) [of addr d] a0(2) a0(4) [of addr] lk1 by simp
  have nd: "mm_call_desc_lookup j st \<noteq> Some d" for j using a0(2,6) by blast
  have l: "mm_links s = ADD_LIST (INIT_LIST (INIT_LIST (mm_links st) d) p) p d"
    unfolding s using mm_alloc_links [OF ok al] mm_alloc_links [OF ok1 al2] by (simp add: mm_links_put)
  have lk: "mm_call_desc_lookup j s = (if mm_slot j = mm_slot addr then Some d else if mm_slot j = mm_slot s_addr then Some p else mm_call_desc_lookup j st)" for j
  proof -
    have "mm_call_desc_lookup j s = mm_call_desc_lookup j s2" by (simp add: s mm_call_desc_lookup_def vect_lookup_def)
    then show ?thesis using a2(4) [of j] a0(4) [of j] lk1 [of j] sl by auto
  qed
  have core: "mm_core (descs s a) = mm_core (descs st a)" if a: "a \<noteq> p" "a \<noteq> d" for a
  proof (rule mm_core_eqI)
    have "nxt (mm_links s) a = nxt (mm_links st) a \<and> prv (mm_links s) a = prv (mm_links st) a"
      unfolding l using a ADD_LIST_outside [OF INIT_LIST_ring, of a d p] by (auto simp: INIT_LIST_def)
    then show "nxt (mm_links s) a = nxt (mm_links st) a" "prv (mm_links s) a = prv (mm_links st) a" by auto
  qed (use a in \<open>simp_all add: s a0(7) a2(7)\<close>)
  have "mm_ok s" unfolding s using mm_ok_cong [OF a2(1), of ?s3] by simp
  moreover have "mm_recorded spd s_addr fl addr d s" using lk [of addr] a0(2) pd by (simp add: mm_recorded_def s a2(7))
  moreover have "ring (mm_links s) [p, d]" unfolding l using cos_list.add_ring [OF INIT_LIST_ring, of d p] pd by simp
  moreover have "mm_call_desc_lookup s_addr s = Some p" using lk [of s_addr] sl by simp
  ultimately show ?thesis using a2(2) lk core by (intro conjI exI [of _ p] allI impI) (simp_all add: s)
qed

lemma mm_record_more:
  assumes ok: "mm_ok st" and al: "mm_call_desc_alloc addr st = Some (d, s0)" and sl: "mm_slot s_addr \<noteq> mm_slot addr"
    and p: "mm_call_desc_lookup s_addr st = Some p" "p \<noteq> NULL" and r: "ring (mm_links st) (p # xs)" "d \<notin> set (p # xs)"
    and con: "mm_call_desc_cons d addr spd s_addr fl addr s0 = Some s"
  shows "mm_ok s \<and> mm_recorded spd s_addr fl addr d s \<and> ring (mm_links s) (p # d # xs) \<and> mm_is_parent (descs s p) \<and>
      (\<forall>a. a \<noteq> d \<longrightarrow> mm_spd (descs s a) = mm_spd (descs st a) \<and> mm_s_addr (descs s a) = mm_s_addr (descs st a) \<and>
        mm_d_spd_flags (descs s a) = mm_d_spd_flags (descs st a) \<and> mm_addr (descs s a) = mm_addr (descs st a) \<and>
        (a \<noteq> p \<longrightarrow> mm_is_parent (descs s a) = mm_is_parent (descs st a))) \<and>
      (\<forall>a. a \<notin> set (p # d # xs) \<longrightarrow> mm_core (descs s a) = mm_core (descs st a)) \<and>
      (\<forall>j. mm_call_desc_lookup j s = (if mm_slot j = mm_slot addr then Some d else mm_call_desc_lookup j st))"
proof -
  note a0 = mm_alloc_ok [OF ok al]
  let ?s1 = "mm_relink (\<lambda>l. INIT_LIST l d) (put_desc d (\<lambda>x. x\<lparr>mm_spd := spd, mm_s_addr := s_addr, mm_d_spd_flags := fl, mm_addr := addr,
       fault_cnt := fault_now s0, mm_is_parent := False\<rparr>) s0)"
  have lk1: "mm_call_desc_lookup j ?s1 = mm_call_desc_lookup j s0" for j by (simp add: mm_call_desc_lookup_def vect_lookup_def)
  have l0: "mm_call_desc_lookup s_addr ?s1 = Some p" using a0(4) [of s_addr] sl p lk1 by simp
  let ?s3 = "put_desc p (\<lambda>x. x\<lparr>mm_is_parent := True\<rparr>) ?s1"
  have s: "s = mm_relink (\<lambda>l. ADD_LIST l p d) ?s3" using con l0 a0(2) p(2) by (simp add: mm_call_desc_cons_def)
  have pd: "p \<noteq> d" using r(2) by auto
  have l: "mm_links s = ADD_LIST (INIT_LIST (mm_links st) d) p d"
    unfolding s using mm_alloc_links [OF ok al] by (simp add: mm_links_put)
  have lk: "mm_call_desc_lookup j s = (if mm_slot j = mm_slot addr then Some d else mm_call_desc_lookup j st)" for j
  proof -
    have "mm_call_desc_lookup j s = mm_call_desc_lookup j s0" by (simp add: s mm_call_desc_lookup_def vect_lookup_def)
    then show ?thesis using a0(4) [of j] by simp
  qed
  have fld: "mm_spd (descs s a) = mm_spd (descs st a) \<and> mm_s_addr (descs s a) = mm_s_addr (descs st a) \<and>
      mm_d_spd_flags (descs s a) = mm_d_spd_flags (descs st a) \<and> mm_addr (descs s a) = mm_addr (descs st a) \<and>
      (a \<noteq> p \<longrightarrow> mm_is_parent (descs s a) = mm_is_parent (descs st a))" if "a \<noteq> d" for a
    using that by (cases "a = p") (simp_all add: s a0(7))
  have "mm_core (descs s a) = mm_core (descs st a)" if a: "a \<notin> set (p # d # xs)" for a
  proof (rule mm_core_eqI)
    have "nxt (mm_links s) a = nxt (mm_links st) a \<and> prv (mm_links s) a = prv (mm_links st) a"
      unfolding l using a ADD_LIST_outside [OF INIT_LIST_frame [OF r], of a d] by (auto simp: INIT_LIST_def)
    then show "nxt (mm_links s) a = nxt (mm_links st) a" "prv (mm_links s) a = prv (mm_links st) a" by auto
  qed (use a fld [of a] in auto)
  moreover have "mm_ok s" unfolding s using mm_ok_cong [OF a0(1), of ?s3] by simp
  moreover have "mm_recorded spd s_addr fl addr d s" using lk [of addr] a0(2) pd by (simp add: mm_recorded_def s)
  moreover have "ring (mm_links s) (p # d # xs)" unfolding l by (rule cos_list.add_fresh [OF r])
  ultimately show ?thesis using fld lk by (simp add: s)
qed

text \<open>The outcome of an alias that is recorded; calls of the server before and after it change nothing else.\<close>

definition mm_new :: "spdid \<Rightarrow> int \<Rightarrow> int \<Rightarrow> int \<Rightarrow> 'w mm_stub \<Rightarrow> 'w mm_stub \<Rightarrow> bool" where
  "mm_new spd s_addr fl addr st s \<longleftrightarrow> (\<exists>t d s0 u. mm_same st t \<and> mm_call_desc_lookup addr t = Some NULL \<and> mm_call_desc_alloc addr t = Some (d, s0) \<and>
     mm_call_desc_cons d addr spd s_addr fl addr s0 = Some u \<and> mm_same u s)"

text \<open>The page to be aliased has no descriptor, or one that is in a list of descriptors of the table.\<close>

definition mm_in_ring :: "'w mm_stub \<Rightarrow> addr \<Rightarrow> addr list \<Rightarrow> bool" where
  "mm_in_ring st p xs \<longleftrightarrow> ring (mm_links st) (p # xs) \<and> (\<forall>x \<in> set (p # xs). x \<noteq> NULL \<and> (\<exists>j. mm_call_desc_lookup j st = Some x))"

lemma mm_new_first:
  assumes "mm_new spd s_addr fl addr st s" "mm_ok st" "mm_slot s_addr \<noteq> mm_slot addr" "mm_call_desc_lookup s_addr st = Some NULL"
  shows "mm_ok s \<and> (\<exists>d p. mm_recorded spd s_addr fl addr d s \<and> mm_call_desc_lookup s_addr s = Some p \<and> p \<noteq> NULL \<and> ring (mm_links s) [p, d] \<and>
      mm_is_parent (descs s p) \<and> mm_addr (descs s p) = addr \<and> mm_s_addr (descs s p) = s_addr \<and> mm_d_spd_flags (descs s p) = fl \<and> mm_spd (descs s p) = spd \<and>
      (\<forall>a. a \<noteq> p \<longrightarrow> a \<noteq> d \<longrightarrow> mm_core (descs s a) = mm_core (descs st a)) \<and>
      (\<forall>j. mm_call_desc_lookup j s = (if mm_slot j = mm_slot addr then Some d else if mm_slot j = mm_slot s_addr then Some p else mm_call_desc_lookup j st)))"
proof -
  obtain t d s0 u where t: "mm_same st t" "mm_call_desc_alloc addr t = Some (d, s0)" "mm_call_desc_cons d addr spd s_addr fl addr s0 = Some u" "mm_same u s"
    using assms(1) unfolding mm_new_def by blast
  note sd = mm_sameD [OF t(1)] and ud = mm_sameD [OF t(4)]
  have "mm_ok t" "mm_call_desc_lookup s_addr t = Some NULL" using assms(2,4) sd by simp_all
  from mm_record_first [OF this(1) t(2) assms(3) this(2) t(3)] obtain p where p: "mm_ok u" "mm_recorded spd s_addr fl addr d u"
    "mm_call_desc_lookup s_addr u = Some p" "p \<noteq> NULL" "ring (mm_links u) [p, d]"
    "mm_is_parent (descs u p)" "mm_addr (descs u p) = addr" "mm_s_addr (descs u p) = s_addr" "mm_d_spd_flags (descs u p) = fl" "mm_spd (descs u p) = spd"
    "\<forall>a. a \<noteq> p \<longrightarrow> a \<noteq> d \<longrightarrow> mm_core (descs u a) = mm_core (descs t a)"
    "\<forall>j. mm_call_desc_lookup j u = (if mm_slot j = mm_slot addr then Some d else if mm_slot j = mm_slot s_addr then Some p else mm_call_desc_lookup j t)"
    by (elim conjE exE)
  have "\<forall>a. a \<noteq> p \<longrightarrow> a \<noteq> d \<longrightarrow> mm_core (descs s a) = mm_core (descs st a)" using p(11) t(1,4) by (simp add: mm_same_def)
  then show ?thesis using p(1-10,12) unfolding ud(1-8) [symmetric] sd(1) mm_recorded_def by (intro conjI exI [of _ d] exI [of _ p]) simp_all
qed

lemma mm_new_more:
  assumes "mm_new spd s_addr fl addr st s" "mm_ok st" "mm_slot s_addr \<noteq> mm_slot addr" "mm_call_desc_lookup s_addr st = Some p" "mm_in_ring st p xs"
  shows "mm_ok s \<and> (\<exists>d. mm_recorded spd s_addr fl addr d s \<and> d \<notin> set (p # xs) \<and> ring (mm_links s) (p # d # xs) \<and> mm_is_parent (descs s p) \<and>
      (\<forall>a. a \<noteq> d \<longrightarrow> mm_spd (descs s a) = mm_spd (descs st a) \<and> mm_s_addr (descs s a) = mm_s_addr (descs st a) \<and>
        mm_d_spd_flags (descs s a) = mm_d_spd_flags (descs st a) \<and> mm_addr (descs s a) = mm_addr (descs st a) \<and>
        (a \<noteq> p \<longrightarrow> mm_is_parent (descs s a) = mm_is_parent (descs st a))) \<and>
      (\<forall>a. a \<notin> set (p # d # xs) \<longrightarrow> mm_core (descs s a) = mm_core (descs st a)) \<and>
      (\<forall>j. mm_call_desc_lookup j s = (if mm_slot j = mm_slot addr then Some d else mm_call_desc_lookup j st)))"
proof -
  obtain t d s0 u where t: "mm_same st t" "mm_call_desc_alloc addr t = Some (d, s0)" "mm_call_desc_cons d addr spd s_addr fl addr s0 = Some u" "mm_same u s"
    using assms(1) unfolding mm_new_def by blast
  note sd = mm_sameD [OF t(1)] and ud = mm_sameD [OF t(4)]
  have ok: "mm_ok t" "mm_call_desc_lookup s_addr t = Some p" "p \<noteq> NULL" "ring (mm_links t) (p # xs)"
    using assms(2,4,5) sd unfolding mm_in_ring_def by simp_all
  have d: "d \<notin> set (p # xs)"
  proof
    assume "d \<in> set (p # xs)"
    then obtain j where "d \<noteq> NULL" "mm_call_desc_lookup j t = Some d" using assms(5) sd(1) unfolding mm_in_ring_def by metis
    then show False using mm_alloc_ok(6) [OF ok(1) t(2)] by blast
  qed
  note rm = mm_record_more [OF ok(1) t(2) assms(3) ok(2-4) d t(3)]
  note p = rm [THEN conjunct1]
    rm [THEN conjunct2, THEN conjunct1]
    rm [THEN conjunct2, THEN conjunct2, THEN conjunct1]
    rm [THEN conjunct2, THEN conjunct2, THEN conjunct2, THEN conjunct1]
    rm [THEN conjunct2, THEN conjunct2, THEN conjunct2, THEN conjunct2, THEN conjunct1]
    rm [THEN conjunct2, THEN conjunct2, THEN conjunct2, THEN conjunct2, THEN conjunct2, THEN conjunct1]
    rm [THEN conjunct2, THEN conjunct2, THEN conjunct2, THEN conjunct2, THEN conjunct2, THEN conjunct2]
  have "\<forall>a. a \<notin> set (p # d # xs) \<longrightarrow> mm_core (descs s a) = mm_core (descs st a)" using p(6) t(1,4) unfolding mm_same_def by metis
  then show ?thesis using p(1-5,7) d unfolding ud(1-8) [symmetric] sd(1,4-8) mm_recorded_def by (intro conjI exI [of _ d]) simp_all
qed

lemma mm_new_tracked:
  assumes "mm_new spd s_addr fl addr st s" "mm_ok st" "mm_slot s_addr \<noteq> mm_slot addr" "mm_call_desc_lookup s_addr st = Some NULL \<or> mm_call_desc_lookup s_addr st = Some p \<and> mm_in_ring st p xs"
  shows "mm_ok s" "\<exists>d. mm_call_desc_lookup addr s = Some d \<and> d \<noteq> NULL"
  using assms(4) mm_new_first [OF assms(1-3)] mm_new_more [OF assms(1-3), of p xs] unfolding mm_recorded_def by (elim disjE conjE; blast)+

lemma mm_track_new_cases:
  assumes "mm_track_new r spd s_addr fl addr s = Some (r', s')"
  shows "r' = r \<and> (s' = s \<and> (r = 0 \<or> mm_call_desc_lookup addr s \<noteq> Some NULL) \<or> mm_call_desc_lookup addr s = Some NULL \<and> mm_new spd s_addr fl addr s s')"
proof (cases "r = 0 \<or> mm_call_desc_lookup addr s \<noteq> Some NULL")
  case True
  then show ?thesis using assms by (auto simp: mm_track_new_def bind_eq_Some_conv split: if_splits)
next
  case False
  then obtain d s0 where "mm_call_desc_alloc addr s = Some (d, s0)" "mm_call_desc_cons d addr spd s_addr fl addr s0 = Some s'" "r' = r"
    using assms by (auto simp: mm_track_new_def bind_eq_Some_conv)
  then show ?thesis using False mm_same_refl unfolding mm_new_def by blast
qed

lemma mm_new_same: "mm_same st s \<Longrightarrow> mm_new spd s_addr fl addr s u \<Longrightarrow> mm_new spd s_addr fl addr st u"
  unfolding mm_new_def using mm_same_trans by blast

lemma mm_new_same': "mm_new spd s_addr fl addr st s \<Longrightarrow> mm_same s u \<Longrightarrow> mm_new spd s_addr fl addr st u"
  unfolding mm_new_def using mm_same_trans by blast

lemma mm_track_alias_cases:
  assumes "mm_track_alias_page E r spd s_addr fl addr s = Some (r', s')" "mm_call_desc_lookup addr s = Some NULL"
  shows "mm_same s s' \<and> (r' = 0 \<or> r' = - ECHILD) \<or> mm_new spd s_addr fl addr s s'"
proof -
  let ?n = "mm_recover_call_nameserver E spd s_addr COS_UPCALL_RECOVERY s"
  have c: "mm_same s (put_desc d (\<lambda>d. d\<lparr>fault_cnt := cnt\<rparr>) (s\<lparr>world := w\<rparr>))" for d cnt w by (rule mm_same_put) simp_all
  have *: "mm_same s s' \<and> (r' = 0 \<or> r' = - ECHILD) \<or> mm_new spd s_addr fl addr s s'"
    if "mm_same s t" "mm_track_new q spd s_addr fl addr t = Some (r', s')" for t q
    using mm_track_new_cases [OF that(2)] that(1) mm_new_same [OF that(1)] mm_sameD(1) [OF that(1), of addr] assms(2) by auto
  show ?thesis
    using assms(1) * [of ?n] * [OF c] * [of s]
    by (auto simp: mm_track_alias_page_def call_extern_def bind_eq_Some_conv assert_that_def split: if_splits prod.splits)
qed

lemma mm_alias_new_turn:
  assumes ok: "mm_ok st" and none: "mm_call_desc_lookup addr st = Some NULL" and sl: "mm_slot s_addr \<noteq> mm_slot addr"
    and H: "mm_call_desc_lookup s_addr st = Some NULL \<or> mm_call_desc_lookup s_addr st = Some p \<and> mm_in_ring st p xs" and spd: "cos_spd_id E \<noteq> 5"
    and I: "mm_same st s \<or> mm_new spd s_addr fl addr st s" and t: "mm_alias_turn E spd s_addr fl addr s = Some (t, s')"
  shows "(mm_same st s' \<or> mm_new spd s_addr fl addr st s') \<and> (\<forall>r. t = Return r \<longrightarrow> mm_same st s' \<and> (r = 0 \<or> r = - ECHILD) \<or> mm_new spd s_addr fl addr st s')"
proof -
  obtain ret fault w where sv: "server E ''__mman_alias_page'' [spd, s_addr, fl, addr] (world s) = (ret, fault, w)" by (metis prod_cases3)
  let ?w = "s\<lparr>world := w\<rparr>"
  have w: "mm_same s ?w" by simp
  show ?thesis
  proof (cases fault)
    case True
    then obtain s3 where "CSTUB_FAULT_UPDATE E ?w = Some s3" "t = Redo" "s' = s3"
      using t sv by (auto simp: mm_alias_turn_def mm_invoke_alias_page_def CSTUB_INVOKE_def mm_desc_update_alias_page_def mm_post_fault_def bind_eq_Some_conv)
    then have "mm_same s s'" "t = Redo" using fault_update_frame [of E ?w s3] by auto
    then show ?thesis using I mm_same_trans mm_new_same' by blast
  next
    case False
    then obtain r' where r': "mm_track_alias_page E ret spd s_addr fl addr ?w = Some (r', s')" "t = (if r' = - ELOOP then Redo else Return r')"
      using t sv spd by (auto simp: mm_alias_turn_def mm_invoke_alias_page_def CSTUB_INVOKE_def mm_desc_update_alias_page_def bind_eq_Some_conv split: if_splits)
    from I show ?thesis
    proof
      assume s: "mm_same st s"
      then have same: "mm_same st ?w" by simp
      then have "mm_call_desc_lookup addr ?w = Some NULL" using mm_sameD(1) [OF same] none by simp
      from mm_track_alias_cases [OF r'(1) this] show ?thesis
        using r'(2) mm_same_trans [OF same] mm_new_same [OF same] by auto
    next
      assume n: "mm_new spd s_addr fl addr st s"
      then obtain d where "mm_call_desc_lookup addr s = Some d" "d \<noteq> NULL" using mm_new_tracked(2) [OF n ok sl H] by blast
      then have "mm_same s s'" using mm_track_alias_partial [OF r'(1), of d] mm_sameD(1) [OF w, of addr] mm_same_trans [OF w] by simp
      then show ?thesis using mm_new_same' [OF n] by blast
    qed
  qed
qed

lemma mman_alias_new_partial:
  assumes ok: "mm_ok st" and none: "mm_call_desc_lookup addr st = Some NULL" and sl: "mm_slot s_addr \<noteq> mm_slot addr"
    and H: "mm_call_desc_lookup s_addr st = Some NULL \<or> mm_call_desc_lookup s_addr st = Some p \<and> mm_in_ring st p xs" and spd: "cos_spd_id E \<noteq> 5"
    and run: "mman_alias_page n E spd s_addr fl addr st = Some (r, st')"
  shows "mm_same st st' \<and> (r = 0 \<or> r = - ECHILD) \<or> mm_new spd s_addr fl addr st st'"
proof (rule redo_partial [OF run [unfolded mman_alias_page_def mm_map_init [OF ok]], where I = "\<lambda>s. mm_same st s \<or> mm_new spd s_addr fl addr st s"])
  show "mm_same st s' \<or> mm_new spd s_addr fl addr st s'"
    if "mm_same st s \<or> mm_new spd s_addr fl addr st s" "mm_alias_turn E spd s_addr fl addr s = Some (Redo, s')" for s s'
    by (rule conjunct1 [OF mm_alias_new_turn [OF ok none sl H spd that]])
  show "mm_same st s' \<and> (q = 0 \<or> q = - ECHILD) \<or> mm_new spd s_addr fl addr st s'"
    if "mm_same st s \<or> mm_new spd s_addr fl addr st s" "mm_alias_turn E spd s_addr fl addr s = Some (Return q, s')" for s q s'
    by (rule conjunct2 [OF mm_alias_new_turn [OF ok none sl H spd that], rule_format, OF refl])
qed simp

text \<open>With four pages left an alias can be recorded: each of two descriptors takes at most two.\<close>

definition mm_room :: "nat \<Rightarrow> 'w mm_stub \<Rightarrow> bool" where
  "mm_room k st \<longleftrightarrow> (\<exists>A. A \<subseteq> owned (spool (objs st)) \<and> card A = k)"

definition mm_can_record :: "int \<Rightarrow> 'w mm_stub \<Rightarrow> bool" where
  "mm_can_record addr st \<longleftrightarrow> mm_room 4 st \<or> (\<exists>a. mm_call_desc_lookup addr st = Some a \<and> a \<noteq> NULL)"

lemma vect_alloc_unshadow:
  "vect_desc_alloc sz f i (shadow S st) = Some (a, t) \<Longrightarrow> vect_desc_alloc sz asg i st = Some (a, (put_desc a asg st)\<lparr>maps := maps t, objs := objs t\<rparr>)"
  by (auto simp: vect_desc_alloc_def shadow_def bind_eq_Some_conv put_desc_def Let_def)

lemma mm_alloc_room:
  assumes "mm_ok st" "mm_call_desc_lookup i st = Some NULL" "mm_room (Suc (Suc k)) st"
  shows "\<exists>a s. mm_call_desc_alloc i st = Some (a, s) \<and> mm_room k s"
proof -
  obtain S where S: "vect_table mm_desc_sz (\<lambda>x. x) (shadow S st)" using assms(1) by (auto simp: mm_ok_def)
  obtain A where A: "A \<subseteq> owned (spool (objs (shadow S st)))" "card A = Suc (Suc k)" using assms(3) by (auto simp: mm_room_def shadow_def)
  have "vect_lookup (mm_slot i) (shadow S st) = Some NULL" using assms(2) by (simp add: mm_call_desc_lookup_def)
  from vect_desc_alloc_pages [OF S mm_slot_valid this A, of "\<lambda>_. 0"] obtain a t B
    where t: "vect_desc_alloc mm_desc_sz (\<lambda>_. 0) (mm_slot i) (shadow S st) = Some (a, t)" "B \<subseteq> owned (spool (objs t))" "card B = k" by blast
  show ?thesis using vect_alloc_unshadow [OF t(1)] t(2,3) by (auto simp: mm_call_desc_alloc_def mm_room_def)
qed

lemma mm_alloc_world: "mm_call_desc_alloc i st = Some (a, s) \<Longrightarrow> world s = world st \<and> global_fault_cnt s = global_fault_cnt st"
  by (auto simp: mm_call_desc_alloc_def vect_desc_alloc_def bind_eq_Some_conv Let_def)

lemma mm_cons_world: "mm_call_desc_cons d i spd s_addr fl addr st = Some s \<Longrightarrow> world s = world st \<and> global_fault_cnt s = global_fault_cnt st"
  by (auto simp: mm_call_desc_cons_def bind_eq_Some_conv Let_def split: if_splits dest!: mm_alloc_world)

lemma mm_cons_total:
  assumes "mm_ok st" "d \<noteq> NULL" "mm_room 2 st"
  shows "\<exists>s. mm_call_desc_cons d i spd s_addr fl addr st = Some s"
proof -
  let ?s = "mm_relink (\<lambda>l. INIT_LIST l d) (put_desc d (\<lambda>x. x\<lparr>mm_spd := spd, mm_s_addr := s_addr, mm_d_spd_flags := fl, mm_addr := addr,
       fault_cnt := fault_now st, mm_is_parent := False\<rparr>) st)"
  have ok: "mm_ok ?s" by (rule mm_ok_cong [OF assms(1)]) simp_all
  obtain p where p: "mm_call_desc_lookup s_addr ?s = Some p" using mm_lookup_total [OF ok] by blast
  have r: "mm_room (Suc (Suc 0)) ?s" using assms(3) by (simp add: mm_room_def numeral_2_eq_2)
  show ?thesis
  proof (cases "p = NULL")
    case True
    obtain a s where al: "mm_call_desc_alloc s_addr ?s = Some (a, s)" using mm_alloc_room [OF ok _ r] p True by blast
    then show ?thesis using assms(2) p True mm_alloc_ok(2) [OF ok al] by (simp add: mm_call_desc_cons_def Let_def)
  next
    case False
    then show ?thesis using assms(2) p by (simp add: mm_call_desc_cons_def)
  qed
qed

lemma mm_track_new_total:
  assumes "mm_ok s" "mm_can_record addr s"
  shows "\<exists>s'. mm_track_new r spd s_addr fl addr s = Some (r, s') \<and> world s' = world s"
proof -
  obtain a where a: "mm_call_desc_lookup addr s = Some a" using mm_lookup_total [OF assms(1)] by blast
  show ?thesis
  proof (cases "a = NULL \<and> r \<noteq> 0")
    case True
    then have room: "mm_room (Suc (Suc 2)) s" using assms(2) a by (simp add: mm_can_record_def)
    obtain d s0 where d: "mm_call_desc_alloc addr s = Some (d, s0)" "mm_room 2 s0" using mm_alloc_room [OF assms(1) _ room] a True by blast
    note al = mm_alloc_ok [OF assms(1) d(1)]
    obtain u where u: "mm_call_desc_cons d addr spd s_addr fl addr s0 = Some u" using mm_cons_total [OF al(1,2) d(2)] by blast
    then show ?thesis using True a d(1) al(2) mm_alloc_world [OF d(1)] mm_cons_world [OF u] by (auto simp: mm_track_new_def)
  qed (use a in \<open>auto simp: mm_track_new_def\<close>)
qed

lemma mm_can_record_same: "mm_same s t \<Longrightarrow> mm_can_record addr t = mm_can_record addr s"
  using mm_sameD(1) [of s t addr] by (simp add: mm_can_record_def mm_room_def mm_same_def)

lemma mm_track_alias_total:
  assumes fw: "mm_fails_within E b" and ok: "mm_ok s" and can: "mm_can_record addr s"
  shows "\<exists>ret' s'. mm_track_alias_page E ret spd s_addr fl addr s = Some (ret', s') \<and> b (world s') \<le> b (world s) \<and>
    (ret' = - ELOOP \<longrightarrow> ret \<in> {- EINVAL, - ECHILD, - ELOOP})"
proof -
  have f: "fails_within E b" using fw by (simp add: mm_fails_within_def)
  obtain p where p: "mm_call_desc_lookup s_addr s = Some p" using mm_lookup_total [OF ok] by blast
  obtain tmp w where t: "extern E ''mman_get_page_exist'' [spd, s_addr, 0, s_addr] (world s) = (tmp, w)" by (metis surj_pair)
  have tmp: "ul tmp = s_addr" "b w \<le> b (world s)" using fw fails_within_extern [OF f t] t unfolding mm_fails_within_def by (metis fst_conv)+
  let ?n = "mm_recover_call_nameserver E spd s_addr COS_UPCALL_RECOVERY s" and ?c = "put_desc p (\<lambda>d. d\<lparr>fault_cnt := fault_now s\<rparr>) (s\<lparr>world := w\<rparr>)"
  have same: "mm_same s ?c" "mm_same s ?n" by (rule mm_same_put) simp_all
  have "\<exists>t'. mm_track_new r spd s_addr fl addr t = Some (r, t') \<and> world t' = world t" if "mm_same s t" for r t
    by (rule mm_track_new_total) (use ok can mm_sameD(3) [OF that] mm_can_record_same [OF that] in simp_all)
  from this [OF mm_same_refl, of ret] this [OF same(1), of "- ELOOP"] this [OF same(2), of "- ELOOP"] show ?thesis
    using p t tmp mm_nameserver_budget [OF f, of spd s_addr COS_UPCALL_RECOVERY s] by (auto simp: mm_track_alias_page_def call_extern_def)
qed

lemma mm_alias_turn_total:
  assumes fw: "mm_fails_within E b" and ok: "mm_ok s" and can: "mm_can_record addr s"
  shows "\<exists>t s'. mm_alias_turn E spd s_addr fl addr s = Some (t, s') \<and> (t = Redo \<longrightarrow> b (world s') < b (world s))"
proof -
  have f: "fails_within E b" using fw by (simp add: mm_fails_within_def)
  obtain ret fault w where sv: "server E ''__mman_alias_page'' [spd, s_addr, fl, addr] (world s) = (ret, fault, w)" by (metis prod_cases3)
  note b = fails_within_server [OF f sv]
  have ec: "ret = - ECHILD \<Longrightarrow> \<not> fault \<Longrightarrow> b w < b (world s)" using fw sv by (auto simp: mm_fails_within_def)
  let ?w = "s\<lparr>world := w\<rparr>"
  show ?thesis
  proof (cases fault)
    case True
    obtain s' where "CSTUB_FAULT_UPDATE E ?w = Some s'" "b (world s') \<le> b w" using fault_update_budget [OF f, of ?w] by auto
    then show ?thesis using True sv b
      by (intro exI [of _ Redo] exI [of _ s']) (simp add: mm_alias_turn_def mm_invoke_alias_page_def CSTUB_INVOKE_def mm_desc_update_alias_page_def mm_post_fault_def)
  next
    case False
    have w: "mm_same s ?w" by simp
    have "mm_ok ?w" "mm_can_record addr ?w" using ok can mm_sameD(3) [OF w] mm_can_record_same [OF w] by blast+
    from mm_track_alias_total [OF fw this] obtain ret' s' where "mm_track_alias_page E ret spd s_addr fl addr ?w = Some (ret', s')" "b (world s') \<le> b w"
      "ret' = - ELOOP \<longrightarrow> ret \<in> {- EINVAL, - ECHILD, - ELOOP}" by fastforce
    then show ?thesis using False sv b ec
      by (cases "cos_spd_id E = 5") (auto simp: mm_alias_turn_def mm_invoke_alias_page_def CSTUB_INVOKE_def mm_desc_update_alias_page_def)
  qed
qed

lemma mman_alias_total:
  assumes fw: "mm_fails_within E b" and ok: "mm_ok st" and can: "mm_can_record addr st" and fuel: "b (world st) < n" and spd: "cos_spd_id E \<noteq> 5"
    and none: "mm_call_desc_lookup addr st = Some NULL" and sl: "mm_slot s_addr \<noteq> mm_slot addr"
    and H: "mm_call_desc_lookup s_addr st = Some NULL \<or> mm_call_desc_lookup s_addr st = Some p \<and> mm_in_ring st p xs"
  shows "\<exists>r st'. mman_alias_page n E spd s_addr fl addr st = Some (r, st')"
proof -
  let ?I = "\<lambda>s. mm_same st s \<or> mm_new spd s_addr fl addr st s"
  have "\<exists>r st'. redo n (mm_alias_turn E spd s_addr fl addr) st = Some (r, st') \<and> True"
  proof (rule redo_total [where I = ?I and mu = "\<lambda>s. b (world s)"])
    fix s assume I: "?I s"
    have "mm_ok s \<and> mm_can_record addr s"
    proof (cases "mm_same st s")
      case True
      then show ?thesis using ok can mm_sameD(3) [OF True] mm_can_record_same [OF True] by blast
    next
      case False
      then have "mm_new spd s_addr fl addr st s" using I by blast
      from mm_new_tracked [OF this ok sl H] show ?thesis unfolding mm_can_record_def by blast
    qed
    then obtain t s' where t: "mm_alias_turn E spd s_addr fl addr s = Some (t, s')" "t = Redo \<longrightarrow> b (world s') < b (world s)"
      using mm_alias_turn_total [OF fw] by blast
    have "?I s'" by (rule conjunct1 [OF mm_alias_new_turn [OF ok none sl H spd I t(1)]])
    then show "(\<exists>s'. mm_alias_turn E spd s_addr fl addr s = Some (Redo, s') \<and> ?I s' \<and> b (world s') < b (world s)) \<or>
        (\<exists>r s'. mm_alias_turn E spd s_addr fl addr s = Some (Return r, s') \<and> True)"
      using t by (cases t) auto
  qed (use fuel in auto)
  then show ?thesis using ok by (auto simp: mman_alias_page_def)
qed

section \<open>Copies of copies\<close>

text \<open>
  The links of a descriptor are those of the list it is in and those of the list of its own copies
  at once. So a copy of a copy puts both lists into one: from \<open>y\<close>, the walk over the copies of \<open>y\<close>
  meets \<open>z\<close> and then the descriptor of \<open>x\<close>, which holds the address \<open>y\<close> and starts the walk over \<open>y\<close> again.
\<close>

definition mm_tangled :: "spdid \<Rightarrow> int \<Rightarrow> addr \<Rightarrow> addr \<Rightarrow> addr \<Rightarrow> 'w mm_stub \<Rightarrow> bool" where
  "mm_tangled self y p d e st \<longleftrightarrow> mm_ok st \<and> ring (mm_links st) [d, e, p] \<and>
     mm_call_desc_lookup y st = Some d \<and> d \<noteq> NULL \<and> mm_is_parent (descs st d) \<and> mm_addr (descs st d) = y \<and> mm_dest (descs st d) = self \<and>
     mm_call_desc_lookup (mm_addr (descs st e)) st = Some e \<and> e \<noteq> NULL \<and> \<not> mm_is_parent (descs st e) \<and> mm_dest (descs st e) = self \<and>
     mm_addr (descs st p) = y \<and> mm_dest (descs st p) = self"

lemma mm_tangled_same: "mm_same st s \<Longrightarrow> mm_tangled self y p d e st \<Longrightarrow> mm_tangled self y p d e s"
  by (simp add: mm_tangled_def mm_sameD)

lemma mm_tangled_basic_id:
  assumes "mm_tangled self y p d e st" "mm_basic_id n E i st = Some s" "i = y \<or> i = mm_addr (descs st e)"
  shows "mm_same st s" "mm_tangled self y p d e s"
proof -
  have "\<exists>a c. mm_call_desc_lookup i st = Some a \<and> mm_call_desc_lookup (mm_addr (descs st a)) st = Some c \<and> c \<noteq> NULL"
    using assms(1,3) by (auto simp: mm_tangled_def)
  then show "mm_same st s" using mm_basic_id_partial [OF assms(2)] assms(1) unfolding mm_tangled_def by blast
  then show "mm_tangled self y p d e s" by (rule mm_tangled_same [OF _ assms(1)])
qed

lemma mm_tangled_loops:
  assumes "mm_tangled (cos_spd_id E) y p d e st"
  shows "mm_subtree_with (mm_subtree_loop k n E) y st = None"
  using assms
proof (induction k arbitrary: st rule: less_induct)
  case (less k)
  have st: "mm_call_desc_lookup y st = Some d" "d \<noteq> NULL" "mm_is_parent (descs st d)" "nxt (mm_links st) d = e" "e \<noteq> d"
    using less.prems by (auto simp: mm_tangled_def)
  have two: "mm_subtree_loop k' n E d p s = None" if s: "mm_tangled (cos_spd_id E) y p d e s" and k': "k' < k" for k' s
  proof (cases k')
    case (Suc j)
    have p: "mm_addr (descs s p) = y" "p \<noteq> d" using s by (auto simp: mm_tangled_def)
    have "mm_subtree_with (mm_subtree_loop j n E) y u = None \<and> mm_addr (descs u p) = y \<and> mm_dest (descs u p) = cos_spd_id E"
      if "mm_basic_id n E y s = Some u" for u
      using mm_tangled_basic_id(2) [OF s that] less.IH [of j u] Suc k' by (simp add: mm_tangled_def)
    then show ?thesis using p Suc by (cases "mm_basic_id n E y s") auto
  qed simp
  have "mm_subtree_loop k n E d e st = None"
  proof (cases k)
    case (Suc k')
    have step: "mm_subtree_with loop (mm_addr (descs s e)) s = Some s \<and> mm_dest (descs s e) = cos_spd_id E \<and> nxt (mm_links s) e = p \<and> mm_tangled (cos_spd_id E) y p d e s"
      if "mm_basic_id n E (mm_addr (descs st e)) st = Some s" "mm_addr (descs st e) \<noteq> 0" for s loop
    proof -
      have t: "mm_tangled (cos_spd_id E) y p d e s" using mm_tangled_basic_id(2) [OF less.prems that(1)] by simp
      have "mm_addr (descs s e) = mm_addr (descs st e)" using mm_sameD(7) [OF mm_tangled_basic_id(1) [OF less.prems that(1)]] by simp
      then show ?thesis using t that(2) by (auto simp: mm_tangled_def mm_subtree_with_def)
    qed
    show ?thesis
    proof (cases "mm_basic_id n E (mm_addr (descs st e)) st")
      case (Some s)
      then have "mm_addr (descs st e) \<noteq> 0" by (auto simp: mm_basic_id_def)
      from step [OF Some this] show ?thesis using Some Suc st(5) two [of s k'] by (auto simp: FIRST_LIST_def)
    qed (use Suc st(5) in simp)
  qed simp
  then show ?case using st by (simp add: mm_subtree_with_def FIRST_LIST_def)
qed

lemma mm_call_desc_update_partial:
  assumes run: "mm_call_desc_update n E i to_state st = Some (r, s)" and ok: "mm_ok st"
    and a: "mm_call_desc_lookup i st = Some a" "mm_call_desc_lookup (mm_addr (descs st a)) st = Some c" "c \<noteq> NULL"
  shows "mm_same st s"
proof -
  let ?s = "put_desc a (\<lambda>d. d\<lparr>next_state := to_state\<rparr>) st" and ?t = "put_desc a (\<lambda>d. d\<lparr>next_state := to_state, fault_cnt := fault_now st\<rparr>) st"
  have same: "mm_same st ?s" "mm_same st ?t" by (rule mm_same_put; simp add: mm_core_def)+
  have "mm_same ?t u" if "mm_basic_id n E i ?t = Some u" for u
  proof (rule mm_basic_id_partial [OF that _ _ _ a(3)])
    show "mm_call_desc_lookup i ?t = Some a" "mm_ok ?t" using a(1) ok mm_sameD(1,3) [OF same(2)] by metis+
    show "mm_call_desc_lookup (mm_addr (descs ?t a)) ?t = Some c" using a(2) mm_sameD(1,7) [OF same(2)] by metis
  qed
  then show ?thesis
    using run a same mm_same_trans [OF same(2)] by (auto simp: mm_call_desc_update_def mm_recover_def Let_def bind_eq_Some_conv split: if_splits)
qed

text \<open>
  C26: copies of copies. If a page is aliased within a component and the copy is aliased within it
  once more, then revoking the first page never comes back, whatever the server answers and
  however many turns it is given.
\<close>

theorem mman_revoke_nested_never_returns:
  assumes ok: "mm_ok st" and none: "\<forall>a \<in> {x, y, z}. mm_call_desc_lookup a st = Some NULL" and sl: "distinct [mm_slot x, mm_slot y, mm_slot z]"
    and self: "cos_spd_id E \<noteq> 5" "fl1 div 65536 = cos_spd_id E" "fl2 div 65536 = cos_spd_id E"
    and a1: "mman_alias_page n1 E spd x fl1 y st = Some (r1, st1)" "r1 \<noteq> 0" "r1 \<noteq> - ECHILD"
    and a2: "mman_alias_page n2 E spd' y fl2 z st1 = Some (r2, st2)" "r2 \<noteq> 0" "r2 \<noteq> - ECHILD"
  shows "mman_revoke_page k n E spd'' x flgs st2 = None"
proof -
  have "mm_new spd x fl1 y st st1" using mman_alias_new_partial [OF ok _ _ _ self(1) a1(1)] a1(2,3) none sl by auto
  from mm_new_first [OF this ok] obtain d p where d: "mm_ok st1" "mm_recorded spd x fl1 y d st1" "mm_call_desc_lookup x st1 = Some p" "p \<noteq> NULL" "ring (mm_links st1) [p, d]"
    "mm_is_parent (descs st1 p)" "mm_addr (descs st1 p) = y" "mm_d_spd_flags (descs st1 p) = fl1"
    "\<And>j. mm_call_desc_lookup j st1 = (if mm_slot j = mm_slot y then Some d else if mm_slot j = mm_slot x then Some p else mm_call_desc_lookup j st)"
    using none sl by (auto simp del: ring.simps)
  have r1: "mm_in_ring st1 d [p]" using d(2-5) ring_rotate [of "mm_links st1" "[p]" "[d]"] unfolding mm_in_ring_def mm_recorded_def by auto
  have y: "mm_call_desc_lookup y st1 = Some d" "d \<noteq> NULL" using d(2) by (simp_all add: mm_recorded_def)
  have "mm_new spd' y fl2 z st1 st2"
    using mman_alias_new_partial [OF d(1) _ _ _ self(1) a2(1), of d "[p]"] a2(2,3) y r1 d(9) [of z] none sl by auto
  from mm_new_more [OF this d(1) _ y(1) r1] obtain e where e: "mm_ok st2" "mm_recorded spd' y fl2 z e st2" "e \<notin> set [d, p]" "ring (mm_links st2) [d, e, p]"
    "mm_is_parent (descs st2 d)" "\<And>a. a \<noteq> e \<Longrightarrow> mm_d_spd_flags (descs st2 a) = mm_d_spd_flags (descs st1 a) \<and> mm_addr (descs st2 a) = mm_addr (descs st1 a) \<and>
      (a \<noteq> d \<longrightarrow> mm_is_parent (descs st2 a) = mm_is_parent (descs st1 a))"
    "\<And>j. mm_call_desc_lookup j st2 = (if mm_slot j = mm_slot z then Some e else mm_call_desc_lookup j st1)"
    using sl by (auto simp del: ring.simps)
  have pd: "p \<noteq> d" using d(5) by auto
  have T: "mm_tangled (cos_spd_id E) y p d e st2"
    using e d(2,7,8) y self(2,3) pd e(6) [of d] e(6) [of p] e(7) [of y] sl by (auto simp: mm_tangled_def mm_recorded_def mm_dest_def simp del: ring.simps)
  have x: "mm_call_desc_lookup x st2 = Some p" "mm_is_parent (descs st2 p)" "nxt (mm_links st2) p = d" "mm_call_desc_lookup (mm_addr (descs st2 p)) st2 = Some d"
    using e(3,4) e(7) [of x] e(6) [of p] d(3,6) pd sl T by (auto simp: mm_tangled_def)
  have sub: "mm_recover_upcall_subtree k n E x s = None" if s: "mm_same st2 s" for s
  proof -
    note sd = mm_sameD [OF s]
    have Ts: "mm_tangled (cos_spd_id E) y p d e s" by (rule mm_tangled_same [OF s T])
    have "mm_subtree_loop k n E p d s = None"
    proof (cases k)
      case (Suc k')
      show ?thesis
      proof (cases "mm_basic_id n E y s")
        case (Some u)
        have Tu: "mm_tangled (cos_spd_id E) y p d e u" by (rule mm_tangled_basic_id(2) [OF Ts Some]) simp
        then show ?thesis using mm_tangled_loops [OF Tu, of k' n] Some Suc pd Ts by (simp add: mm_tangled_def)
      qed (use Suc pd Ts in \<open>simp add: mm_tangled_def\<close>)
    qed simp
    then show ?thesis using x d(4) sd by (simp add: mm_recover_upcall_subtree_def mm_subtree_with_def FIRST_LIST_def assert_that_def)
  qed
  have "mm_desc_update_revoke_page k n E x st2 = None"
  proof (cases "mm_call_desc_update n E x state_mman_revoke_page st2")
    case (Some q)
    obtain r s where q: "q = (r, s)" by (cases q)
    have "mm_same st2 s" by (rule mm_call_desc_update_partial [OF Some [unfolded q] e(1) x(1,4) y(2)])
    then show ?thesis using Some q sub by (simp add: mm_desc_update_revoke_page_def)
  qed (simp add: mm_desc_update_revoke_page_def)
  then show ?thesis using e(1) by (cases n) (simp_all add: mman_revoke_page_def cstub_redo_def cstub_turn_def)
qed

section \<open>Properties\<close>

lemma mman_revoke_ok:
  assumes fw: "mm_fails_within E b" and ok: "mm_ok st" and fuel: "b (world st) < n" "length cs < k" and c: "mm_copies st addr p cs" "addr \<noteq> 0"
    and own: "mm_call_desc_lookup (mm_addr (descs st p)) st = Some a" "a \<noteq> NULL"
    and loop: "\<forall>args w ret w'. server E ''mman_revoke_page'' args w = (ret, False, w') \<longrightarrow> ret \<noteq> - ELOOP"
  shows "\<exists>r st'. mman_revoke_page k n E spd addr flgs st = Some (r, st') \<and> mm_ok st' \<and> mm_copies st' addr p [] \<and> mm_forgotten (set (p # cs)) cs st st' \<and>
    (\<exists>w w'. server E ''mman_revoke_page'' [spd, addr, flgs] w = (r, False, w')) \<and>
    (mm_quiet E lg \<longrightarrow> lg (world st') = lg (world st) @ (if fault_cnt (descs st p) = fault_now st then [] else [mm_alias_call (descs st p)]) @
       concat (map (\<lambda>c. mm_recover_calls E (descs st c)) cs) @ [(''mman_revoke_page'', [spd, addr, flgs])] @
       concat (map (\<lambda>c. mm_forget_calls E (descs st c)) cs))"
proof -
  have f: "fails_within E b" using fw by (simp add: mm_fails_within_def)
  have p: "mm_call_desc_lookup addr st = Some p" "p \<noteq> NULL" using c(1) by (simp_all add: mm_copies_def)
  define U where "U = (if fault_cnt (descs st p) = fault_now st then [] else [mm_alias_call (descs st p)]) @ concat (map (\<lambda>c. mm_recover_calls E (descs st c)) cs)"
  let ?I = "\<lambda>s. mm_same st s \<and> b (world s) \<le> b (world st) \<and> (mm_quiet E lg \<longrightarrow> s = st)"
  let ?J = "\<lambda>s. mm_same st s \<and> b (world s) \<le> b (world st) \<and> (mm_quiet E lg \<longrightarrow> lg (world s) = lg (world st) @ U)"
  let ?K = "\<lambda>ret fault s. mm_same st s \<and> b (world s) \<le> b (world st) \<and> (\<exists>w w'. server E ''mman_revoke_page'' [spd, addr, flgs] w = (ret, fault, w')) \<and>
    (mm_quiet E lg \<longrightarrow> \<not> fault \<and> lg (world s) = lg (world st) @ U @ [(''mman_revoke_page'', [spd, addr, flgs])])"
  let ?Q = "\<lambda>r st'. mm_ok st' \<and> mm_copies st' addr p [] \<and> mm_forgotten (set (p # cs)) cs st st' \<and>
    (\<exists>w w'. server E ''mman_revoke_page'' [spd, addr, flgs] w = (r, False, w')) \<and>
    (mm_quiet E lg \<longrightarrow> lg (world st') = lg (world st) @ U @ [(''mman_revoke_page'', [spd, addr, flgs])] @ concat (map (\<lambda>c. mm_forget_calls E (descs st c)) cs))"
  have upd: "\<exists>s'. mm_desc_update_revoke_page k n E addr s = Some s' \<and> ?J s' \<and> b (world s') \<le> b (world s)" if s: "?I s" for s
  proof -
    have sm: "mm_same st s" and bs: "b (world s) < n" using s fuel by auto
    note sd = mm_sameD [OF sm]
    have cp: "mm_ok s" "mm_copies s addr p cs" "mm_call_desc_lookup addr s = Some p" "mm_call_desc_lookup (mm_addr (descs s p)) s = Some a"
      using ok c(1) p own sd mm_copies_same [OF sm] by simp_all
    obtain s1 where s1: "mm_call_desc_update n E addr state_mman_revoke_page s = Some (p, s1)" "mm_same s s1" "b (world s1) \<le> b (world s)"
      "mm_quiet E lg \<longrightarrow> lg (world s1) = lg (world s) @ (if fault_cnt (descs s p) = fault_now s then [] else [mm_alias_call (descs s p)])"
      using mm_call_desc_update_ok [OF fw cp(1) bs cp(3) p(2) c(2) cp(4) own(2)] by blast
    have c1: "mm_ok s1" "mm_copies s1 addr p cs" "b (world s1) < n" using cp(1,2) mm_copies_same [OF s1(2)] mm_sameD(3) [OF s1(2)] s1(3) bs by auto
    obtain s2 where s2: "mm_recover_upcall_subtree k n E addr s1 = Some s2" "mm_same s1 s2" "b (world s2) \<le> b (world s1)"
      "mm_quiet E lg \<longrightarrow> lg (world s2) = lg (world s1) @ concat (map (\<lambda>c. mm_recover_calls E (descs s1 c)) cs)"
      using mm_subtree_ok [OF fw c1(1,3,2) fuel(2) c(2)] by blast
    have sm2: "mm_same st s1" using mm_same_trans [OF sm s1(2)] .
    have "mm_quiet E lg \<longrightarrow> lg (world s2) = lg (world st) @ U"
      using s s1(4) s2(4) unfolding mm_calls_same(2) [OF sm2] U_def by auto
    then show ?thesis using s s1(1,3) s2(1,3) mm_same_trans [OF sm2 s2(2)] by (auto simp: mm_desc_update_revoke_page_def)
  qed
  have ivk: "\<exists>ret fault s'. mm_invoke_revoke_page E spd addr flgs s = Some (ret, fault, s') \<and> ?K ret fault s' \<and>
      b (world s') \<le> b (world s) \<and> (fault \<or> ret = - EINVAL \<or> ret = - ELOOP \<longrightarrow> b (world s') < b (world s))" if s: "?J s" for s
  proof -
    obtain ret fault w where sv: "server E ''mman_revoke_page'' [spd, addr, flgs] (world s) = (ret, fault, w)" by (metis prod_cases3)
    note bw = fails_within_server [OF f sv] and q = mm_quiet_server [OF _ sv]
    have "?K ret fault (s\<lparr>world := w\<rparr>)" using s bw sv q [of lg] by auto
    then show ?thesis using sv bw by (auto simp: mm_invoke_revoke_page_def CSTUB_INVOKE_def)
  qed
  have flt: "?I s'" if s: "?K ret True s" "CSTUB_FAULT_UPDATE E s = Some s'" for ret s s'
  proof -
    have "b (world s') \<le> b (world s)" using fault_update_budget [OF f, of s] s(2) by auto
    then show ?thesis using s(1) fault_update_frame [OF s(2)] by auto
  qed
  have track: "\<exists>ret' s'. mm_track_revoke_page k E addr ret s = Some (ret', s') \<and> b (world s') \<le> b (world s) \<and>
      (if ret' = - ELOOP then ?I s' \<and> (ret = - EINVAL \<or> ret = - ELOOP) else ?Q ret' s')" if s: "?K ret False s" for ret s
  proof -
    have sm: "mm_same st s" using s by blast
    have cp: "mm_ok s" "mm_copies s addr p cs" using ok c(1) mm_sameD(3) [OF sm] mm_copies_same [OF sm] by simp_all
    obtain s' where s': "mm_remove_loop k E p s = Some s'" "mm_ok s'" "mm_copies s' addr p []" "mm_forgotten (set (p # cs)) cs s s'" "b (world s') \<le> b (world s)"
      "mm_quiet E lg \<longrightarrow> lg (world s') = lg (world s) @ concat (map (\<lambda>c. mm_forget_calls E (descs s c)) cs)"
      using mm_remove_loop_ok [OF f cp fuel(2) order_refl] by blast
    have "mm_track_revoke_page k E addr ret s = Some (ret, s')"
      using s'(1) cp(2) by (simp add: mm_track_revoke_page_def mm_remove_desc_def mm_remove_with_def mm_copies_def)
    moreover have "mm_forgotten (set (p # cs)) cs st s'" using s'(4) sm mm_sameD(1,7) [OF sm] unfolding mm_forgotten_def mm_same_def by metis
    moreover have "ret \<noteq> - ELOOP" using s loop by blast
    moreover have "mm_quiet E lg \<longrightarrow> lg (world s') = lg (world s) @ concat (map (\<lambda>c. mm_forget_calls E (descs st c)) cs)"
      using s'(6) unfolding mm_calls_same(3) [OF sm] .
    ultimately show ?thesis using s s'(2,3,5) by simp
  qed
  have "\<exists>r st'. cstub_redo n E (mm_desc_update_revoke_page k n E addr) (mm_invoke_revoke_page E spd addr flgs) mm_post_fault
      (mm_track_revoke_page k E addr) st = Some (r, st') \<and> ?Q r st'"
  proof (rule cstub_redo_total [where I = ?I and J = ?J and K = ?K and b = b])
    show "?I st" "mm_post_fault \<noteq> 0" by (simp_all add: mm_post_fault_def)
  qed (fact f fuel(1) | erule upd | erule ivk | erule (1) flt | erule track)+
  then show ?thesis using ok by (simp add: mman_revoke_page_def U_def)
qed

text \<open>
  C10: revoking a page. With a server that fails finitely often the call comes back with an answer
  of the server that was given without a fault; the copies of the page, and only they, are
  forgotten; nothing else that is recorded changes.
\<close>

theorem mman_revoke_forgets_copies:
  assumes "mm_fails_within E b" "mm_ok st" "b (world st) < n" "length cs < k" "mm_copies st addr p cs" "addr \<noteq> 0"
    and "mm_call_desc_lookup (mm_addr (descs st p)) st = Some a" "a \<noteq> NULL"
    and "\<forall>args w ret w'. server E ''mman_revoke_page'' args w = (ret, False, w') \<longrightarrow> ret \<noteq> - ELOOP"
  shows "\<exists>r st'. mman_revoke_page k n E spd addr flgs st = Some (r, st') \<and> mm_ok st' \<and> mm_copies st' addr p [] \<and>
    (\<forall>j. mm_call_desc_lookup j st' = (if \<exists>c \<in> set cs. mm_slot j = mm_slot (mm_addr (descs st c)) then Some NULL else mm_call_desc_lookup j st)) \<and>
    (\<forall>a. a \<notin> set (p # cs) \<longrightarrow> mm_core (descs st' a) = mm_core (descs st a)) \<and>
    (\<exists>w w'. server E ''mman_revoke_page'' [spd, addr, flgs] w = (r, False, w'))"
  using mman_revoke_ok [OF assms, where lg = "\<lambda>_. []" and spd = spd and flgs = flgs] unfolding mm_forgotten_def by blast



text \<open>On a server that does not fail an alias is one call, whether it is recorded or not.\<close>

lemma mm_track_new_world:
  assumes "mm_track_new ret spd s_addr fl addr s = Some (r', u)"
  shows "world u = world s \<and> r' = ret"
proof (cases "ret \<noteq> 0 \<and> mm_call_desc_lookup addr s = Some NULL")
  case True
  then obtain d s0 where "mm_call_desc_alloc addr s = Some (d, s0)" "mm_call_desc_cons d addr spd s_addr fl addr s0 = Some u" "r' = ret"
    using assms by (auto simp: mm_track_new_def bind_eq_Some_conv)
  then show ?thesis using mm_alloc_world [of addr s d s0] mm_cons_world [of d addr spd s_addr fl addr s0 u] by simp
qed (use assms in \<open>auto simp: mm_track_new_def bind_eq_Some_conv split: if_splits\<close>)

lemma mman_alias_quiet:
  assumes q: "mm_quiet E lg" and ok: "mm_ok st" and run: "mman_alias_page n E spd s_addr fl addr st = Some (r, st')"
  shows "lg (world st') = lg (world st) @ [(''__mman_alias_page'', [spd, s_addr, fl, addr])] \<and>
    r = fst (server E ''__mman_alias_page'' [spd, s_addr, fl, addr] (world st))"
proof -
  obtain ret fault w where sv: "server E ''__mman_alias_page'' [spd, s_addr, fl, addr] (world st) = (ret, fault, w)" by (metis prod_cases3)
  note s = mm_quiet_server [OF q sv]
  have tn: "world u = w \<and> r' = ret" if "mm_track_new ret spd s_addr fl addr (st\<lparr>world := w\<rparr>) = Some (r', u)" for r' u
    using mm_track_new_world [OF that] by simp
  from run obtain m where "redo (Suc m) (mm_alias_turn E spd s_addr fl addr) st = Some (r, st')" using ok by (cases n) (auto simp: mman_alias_page_def)
  then show ?thesis
    using sv s tn
    by (auto simp: mm_alias_turn_def mm_invoke_alias_page_def CSTUB_INVOKE_def mm_desc_update_alias_page_def mm_track_alias_page_def bind_eq_Some_conv
        split: option.splits prod.splits turn.splits if_splits)
qed


section \<open>Examples\<close>

text \<open>A server that records the calls and answers every alias with an address.\<close>

definition mm_env :: "calls env" where
  "mm_env = \<lparr>server = (\<lambda>f args w. (4096, False, w @ [(f, args)])),
     extern = (\<lambda>f args w. (if args ! 1 < 0 then args ! 1 - 2 ^ 32 else args ! 1, w @ [(f, args)])),
     cos_fault_cntl = (\<lambda>w. (1, w)), cos_get_thd_id = (\<lambda>w. 7), cos_spd_id = 3\<rparr>"

lemma mm_env_ok: "mm_fails_within mm_env (\<lambda>_. 0)" "mm_quiet mm_env (\<lambda>w. w)" "cos_spd_id mm_env \<noteq> 5"
  by (auto simp: mm_fails_within_def fails_within_def mm_quiet_def mm_env_def ul_def)

text \<open>A stub that has not been used yet, with eight pages.\<close>

definition mm_objs :: slabs where
  "mm_objs = no_slabs\<lparr>spool := \<lparr>page_list = NULL, link = (\<lambda>_. NULL), mm_pages = map (\<lambda>i. i * PAGE_SIZE) [2..9]\<rparr>\<rparr>"

definition mm_boot :: "calls mm_stub" where
  "mm_boot = \<lparr>descs = (\<lambda>_. \<lparr>state = mm_state_null, next_state = mm_state_null, fault_cnt = 0, mm_spd = 0, mm_s_addr = 0, mm_d_spd_flags = 0, mm_addr = 0,
       mm_is_parent = False, mm_next = NULL, mm_prev = NULL\<rparr>), maps = cvect_init PAGE_SIZE, objs = mm_objs, global_fault_cnt = 0, first_map_init = True, world = []\<rparr>"

lemma mm_objs_ok: "pool_inv (spool mm_objs) []" "0 < sz \<Longrightarrow> sz \<le> 4032 \<Longrightarrow> slab_ok sz mm_objs {}"
proof -
  show p: "pool_inv (spool mm_objs) []" by (simp add: pool_inv_def mm_objs_def upto_rec_numeral)
  assume r: "0 < sz" "sz \<le> 4032"
  have "slab_inv mm_objs (slab_max_objs sz) {} []" using p by (auto simp: slab_inv_def fl_ok_def mm_objs_def no_slabs_def)
  moreover have "{} = live mm_objs (slab_obj_sz sz) (slab_max_objs sz) {}" by (simp add: live_def)
  ultimately show "slab_ok sz mm_objs {}" using r unfolding slab_ok_def by blast
qed

lemma mm_boot_ok: "mm_ok mm_boot" "mm_call_desc_lookup i mm_boot = Some NULL" "mm_room 8 mm_boot"
proof -
  have "slab_ok mm_desc_sz mm_objs {}" by (rule mm_objs_ok(2)) simp_all
  then have "vect_table mm_desc_sz (\<lambda>x. x) (shadow (\<lambda>_. 0) mm_boot)"
    by (auto simp: vect_table_def shadow_def mm_boot_def vect_ok_cvect_init cvect_lookup_init)
  then show "mm_ok mm_boot" by (auto simp: mm_ok_def mm_boot_def)
  show "mm_call_desc_lookup i mm_boot = Some NULL" by (simp add: mm_call_desc_lookup_def vect_lookup_def mm_boot_def cvect_lookup_init)
  have "owned (spool mm_objs) = set (map (\<lambda>i. i * PAGE_SIZE) [2..9])" using owned_eq [OF mm_objs_ok(1)] by (simp add: mm_objs_def)
  moreover have "card (set (map (\<lambda>i. i * PAGE_SIZE) [2..9])) = 8" by (simp add: upto_rec_numeral)
  ultimately have "card (owned (spool mm_objs)) = 8" by metis
  then show "mm_room 8 mm_boot" unfolding mm_room_def by (intro exI [of _ "owned (spool mm_objs)"]) (simp add: mm_boot_def)
qed

lemma mm_room_mono: "mm_room (j + k) st \<Longrightarrow> mm_room k st"
  unfolding mm_room_def by (metis le_add2 obtain_subset_with_card_n order_trans)

lemma mm_room_simps [simp]: "mm_room k (mm_relink f st) = mm_room k st" "mm_room k (put_desc a g st) = mm_room k st"
  by (simp_all add: mm_room_def)

lemma mm_alloc_leaves:
  assumes "mm_ok st" "mm_call_desc_alloc i st = Some (a, s)" "mm_room (Suc (Suc k)) st"
  shows "mm_room k s"
  using mm_alloc_room [OF assms(1) mm_alloc_ok(3) [OF assms(1,2)] assms(3)] assms(2) by auto

lemma mm_cons_leaves:
  assumes ok: "mm_ok st" and con: "mm_call_desc_cons d i spd s_addr fl addr st = Some s" and room: "mm_room (Suc (Suc k)) st"
  shows "mm_room k s"
proof -
  let ?s = "mm_relink (\<lambda>l. INIT_LIST l d) (put_desc d (\<lambda>x. x\<lparr>mm_spd := spd, mm_s_addr := s_addr, mm_d_spd_flags := fl, mm_addr := addr,
       fault_cnt := fault_now st, mm_is_parent := False\<rparr>) st)"
  have ok': "mm_ok ?s" by (rule mm_ok_cong [OF ok]) simp_all
  have r: "mm_room (Suc (Suc k)) ?s" using room by simp
  have "mm_room k u" if "mm_call_desc_alloc s_addr ?s = Some (a, u)" for a u by (rule mm_alloc_leaves [OF ok' that r])
  moreover have "mm_room k ?s" using r mm_room_mono [of 2 k ?s] by simp
  ultimately show ?thesis using con by (auto simp: mm_call_desc_cons_def bind_eq_Some_conv Let_def split: if_splits)
qed

lemma mm_new_leaves:
  assumes "mm_new spd s_addr fl addr st s" "mm_ok st" "mm_room (Suc (Suc (Suc (Suc k)))) st"
  shows "mm_room k s"
proof -
  obtain t d s0 u where t: "mm_same st t" "mm_call_desc_alloc addr t = Some (d, s0)" "mm_call_desc_cons d addr spd s_addr fl addr s0 = Some u" "mm_same u s"
    using assms(1) unfolding mm_new_def by blast
  have "mm_ok t" "mm_room (Suc (Suc (Suc (Suc k)))) t" using assms(2,3) mm_sameD(3) [OF t(1)] t(1) by (simp_all add: mm_room_def mm_same_def)
  then have "mm_room k u" using mm_cons_leaves [OF mm_alloc_ok(1) t(3)] mm_alloc_leaves t(2) by metis
  then show ?thesis using t(4) by (simp add: mm_room_def mm_same_def)
qed

text \<open>The page at 8192 is aliased to 12288.\<close>

lemma mm_ex_alias:
  "\<exists>st d p. mman_alias_page 1 mm_env 3 8192 fl 12288 mm_boot = Some (4096, st) \<and> mm_new 3 8192 fl 12288 mm_boot st \<and> mm_room 4 st \<and> mm_ok st \<and>
     mm_copies st 8192 p [d] \<and> mm_recorded 3 8192 fl 12288 d st \<and> mm_addr (descs st p) = 12288 \<and>
     (\<forall>j. mm_call_desc_lookup j st = (if mm_slot j = 3 then Some d else if mm_slot j = 2 then Some p else Some NULL))"
proof -
  note B = mm_boot_ok
  have sl: "mm_slot 8192 = 2" "mm_slot 12288 = 3" by (simp_all add: mm_slot_def)
  have room: "mm_room 4 mm_boot" using mm_room_mono [of 4 4 mm_boot] B(3) by simp
  have H: "mm_call_desc_lookup 8192 mm_boot = Some NULL \<or> mm_call_desc_lookup 8192 mm_boot = Some 0 \<and> mm_in_ring mm_boot 0 []" by (simp add: B(2))
  have can: "mm_can_record 12288 mm_boot" using room by (simp add: mm_can_record_def)
  obtain r st where run: "mman_alias_page 1 mm_env 3 8192 fl 12288 mm_boot = Some (r, st)"
    using mman_alias_total [OF mm_env_ok(1) B(1) can _ mm_env_ok(3) B(2) _ H, where n = 1 and spd = 3 and fl = fl] sl by auto
  have r: "r = 4096" using mman_alias_quiet [OF mm_env_ok(2) B(1) run] by (simp add: mm_env_def)
  have new: "mm_new 3 8192 fl 12288 mm_boot st" using mman_alias_new_partial [OF B(1,2) _ H mm_env_ok(3) run] r sl by simp
  from mm_new_first [OF new B(1) _ B(2)] sl obtain d p where d: "mm_ok st" "mm_recorded 3 8192 fl 12288 d st" "mm_call_desc_lookup 8192 st = Some p" "p \<noteq> NULL" "ring (mm_links st) [p, d]"
    "mm_is_parent (descs st p)" "mm_addr (descs st p) = 12288"
    "\<forall>j. mm_call_desc_lookup j st = (if mm_slot j = mm_slot 12288 then Some d else if mm_slot j = mm_slot 8192 then Some p else mm_call_desc_lookup j mm_boot)"
    by (auto simp del: ring.simps)
  have "mm_copies st 8192 p [d]" using d(2-6) by (simp add: mm_copies_def mm_copy_def mm_recorded_def)
  moreover have "mm_room 4 st" using mm_new_leaves [OF new B(1), of 4] B(3) by simp
  ultimately show ?thesis using run r new d(1,2,7,8) sl B(2) by (intro exI [of _ st] exI [of _ d] exI [of _ p]) simp
qed


theorem mman_revoke_forgets_copies_witness:
  "\<exists>st st' r. mm_call_desc_lookup 12288 st \<noteq> Some NULL \<and> mman_revoke_page 2 1 mm_env 3 8192 0 st = Some (r, st') \<and> mm_call_desc_lookup 12288 st' = Some NULL"
proof -
  obtain d p and st :: "calls mm_stub" where st: "mm_ok st" "mm_copies st 8192 p [d]" "mm_recorded 3 8192 262144 12288 d st" "mm_addr (descs st p) = 12288"
    using mm_ex_alias [of 262144] by blast
  have d: "mm_call_desc_lookup (mm_addr (descs st p)) st = Some d" "d \<noteq> NULL" "mm_addr (descs st d) = 12288" using st(3,4) by (simp_all add: mm_recorded_def)
  have n: "(0 :: nat) < 1" "length [d] < 2" "(8192 :: int) \<noteq> 0" by simp_all
  have l: "\<forall>args w ret w'. server mm_env ''mman_revoke_page'' args w = (ret, False, w') \<longrightarrow> ret \<noteq> - ELOOP" by (simp add: mm_env_def)
  from mman_revoke_forgets_copies [OF mm_env_ok(1) st(1) n(1,2) st(2) n(3) d(1,2) l, of 3 0] obtain r st' where
    "mman_revoke_page 2 1 mm_env 3 8192 0 st = Some (r, st')"
    "\<forall>j. mm_call_desc_lookup j st' = (if \<exists>c \<in> set [d]. mm_slot j = mm_slot (mm_addr (descs st c)) then Some NULL else mm_call_desc_lookup j st)" by blast
  then show ?thesis using d st(4) by (intro exI [of _ st] exI [of _ st'] exI [of _ r]) simp
qed


theorem mman_revoke_nested_never_returns_witness:
  "\<exists>r1 st1 r2 st2. mman_alias_page 1 mm_env 3 8192 196608 12288 mm_boot = Some (r1, st1) \<and> mman_alias_page 1 mm_env 3 12288 196608 16384 st1 = Some (r2, st2) \<and>
     (\<forall>k n. mman_revoke_page k n mm_env 3 8192 0 st2 = None)"
proof -
  obtain d p and st :: "calls mm_stub" where st: "mman_alias_page 1 mm_env 3 8192 196608 12288 mm_boot = Some (4096, st)" "mm_room 4 st" "mm_ok st" "mm_copies st 8192 p [d]"
    "mm_recorded 3 8192 196608 12288 d st" "\<forall>j. mm_call_desc_lookup j st = (if mm_slot j = 3 then Some d else if mm_slot j = 2 then Some p else Some NULL)"
    using mm_ex_alias [of 196608] by blast
  have sl: "mm_slot 8192 = 2" "mm_slot 12288 = 3" "mm_slot 16384 = 4" by (simp_all add: mm_slot_def)
  have r: "mm_in_ring st d [p]" "mm_call_desc_lookup 12288 st = Some d"
    using st(4,5) ring_rotate [of "mm_links st" "[p]" "[d]"] by (auto simp: mm_in_ring_def mm_copies_def mm_recorded_def simp del: ring.simps)
  have can: "mm_can_record 16384 st" using st(2) by (simp add: mm_can_record_def)
  have none: "mm_call_desc_lookup 16384 st = Some NULL" using st(6) sl by simp
  have H: "mm_call_desc_lookup 12288 st = Some NULL \<or> mm_call_desc_lookup 12288 st = Some d \<and> mm_in_ring st d [p]" using r by blast
  obtain r2 st2 where a2: "mman_alias_page 1 mm_env 3 12288 196608 16384 st = Some (r2, st2)"
    using mman_alias_total [OF mm_env_ok(1) st(3) can _ mm_env_ok(3) none _ H, where n = 1 and spd = 3 and fl = 196608] sl by auto
  have r2: "r2 = 4096" using mman_alias_quiet [OF mm_env_ok(2) st(3) a2] by (simp add: mm_env_def)
  have "mman_revoke_page k n mm_env 3 8192 0 st2 = None" for k n
    by (rule mman_revoke_nested_never_returns [OF mm_boot_ok(1) _ _ mm_env_ok(3) _ _ st(1) _ _ a2]) (simp_all add: mm_boot_ok(2) sl r2 mm_env_def)
  then show ?thesis using st(1) a2 by blast
qed


end
