(* ===== verification/LockServer.thy ===== *)
theory LockServer
  imports Prelude
begin

text \<open>
  The lock server, \<^verbatim>\<open>components/implementation/lock/two_phase/__lock_rec\<close>: locks with the threads
  blocked on them and the generation counter that tells a client whether its view of a lock may be
  out of date. The code between \<^verbatim>\<open>TAKE\<close> and \<^verbatim>\<open>RELEASE\<close> runs with the component lock of the
  scheduler held, so each such section is one function on the state of the server; \<^verbatim>\<open>sched_block\<close>
  and \<^verbatim>\<open>sched_wakeup\<close> are outside. The doubly linked lists are Isabelle lists, the first element
  being the one \<^verbatim>\<open>FIRST_LIST\<close> gives; \<^verbatim>\<open>ADD_LIST\<close> adds in front (see \<open>DList\<close>).
\<close>

type_synonym u16 = "16 word"

record meta_lock =
  ml_owner :: u16
  ml_spd :: int
  ml_lock_id :: u32
  ml_b_thds :: "u16 list"
  ml_gen_num :: "64 word"

record lock_srv =
  next_lock_id :: u32            \<comment> \<open>the static variable \<^verbatim>\<open>lock_id\<close>\<close>
  locks :: "meta_lock list"
  generation :: "64 word"

definition lock_find :: "u32 \<Rightarrow> int \<Rightarrow> lock_srv \<Rightarrow> meta_lock option" where
  "lock_find lid spd s = find (\<lambda>m. ml_lock_id m = lid \<and> ml_spd m = spd) (locks s)"

definition lock_is_thd_blocked :: "meta_lock \<Rightarrow> u16 \<Rightarrow> bool" where
  "lock_is_thd_blocked m thd \<longleftrightarrow> thd \<in> set (ml_b_thds m)"

text \<open>\<open>mem\<close> says whether \<^verbatim>\<open>malloc\<close> succeeds. The counter wraps, as the comment in the code says.\<close>

definition lock_alloc :: "bool \<Rightarrow> int \<Rightarrow> lock_srv \<Rightarrow> meta_lock option \<times> lock_srv" where
  "lock_alloc mem spd s =
     (if mem then let m = \<lparr>ml_owner = 0, ml_spd = spd, ml_lock_id = next_lock_id s, ml_b_thds = [], ml_gen_num = 0\<rparr> in
        (Some m, s\<lparr>next_lock_id := next_lock_id s + 1, locks := m # locks s\<rparr>)
      else (None, s))"

text \<open>Writing through the pointer \<^verbatim>\<open>lock_find\<close> has returned: the first lock of the list that matches.\<close>

fun put_first :: "('a \<Rightarrow> bool) \<Rightarrow> ('a \<Rightarrow> 'a) \<Rightarrow> 'a list \<Rightarrow> 'a list" where
  "put_first P f [] = []"
| "put_first P f (x # xs) = (if P x then f x # xs else x # put_first P f xs)"

fun del_first :: "('a \<Rightarrow> bool) \<Rightarrow> 'a list \<Rightarrow> 'a list" where
  "del_first P [] = []"
| "del_first P (x # xs) = (if P x then xs else x # del_first P xs)"

definition lock_put :: "u32 \<Rightarrow> int \<Rightarrow> (meta_lock \<Rightarrow> meta_lock) \<Rightarrow> lock_srv \<Rightarrow> lock_srv" where
  "lock_put lid spd f s = s\<lparr>locks := put_first (\<lambda>m. ml_lock_id m = lid \<and> ml_spd m = spd) f (locks s)\<rparr>"

definition lock_free :: "u32 \<Rightarrow> int \<Rightarrow> lock_srv \<Rightarrow> lock_srv" where
  "lock_free lid spd s = s\<lparr>locks := del_first (\<lambda>m. ml_lock_id m = lid \<and> ml_spd m = spd) (locks s)\<rparr>"

section \<open>The interface\<close>

definition srv_lock_component_pretake :: "int \<Rightarrow> u32 \<Rightarrow> u16 \<Rightarrow> lock_srv \<Rightarrow> int \<times> lock_srv" where
  "srv_lock_component_pretake spd lid thd s = (case lock_find lid spd s of
     None \<Rightarrow> (- EINVAL, s)
   | Some m \<Rightarrow> (0, lock_put lid spd (\<lambda>m. m\<lparr>ml_gen_num := generation s\<rparr>) s))"

text \<open>
  The section of \<^verbatim>\<open>lock_component_take\<close> before the thread blocks: it answers at once, or puts the
  current thread on the list, after which the thread calls \<^verbatim>\<open>sched_block\<close> and answers 0 when it is
  woken. The result is \<^term>\<open>None\<close> where the assertion fails.
\<close>

datatype take_result = Answer int | Sleep

definition srv_lock_component_take :: "int \<Rightarrow> u32 \<Rightarrow> u16 \<Rightarrow> lock_srv \<Rightarrow> (take_result \<times> lock_srv) option" where
  "srv_lock_component_take spd lid cur s = (case lock_find lid spd s of
     None \<Rightarrow> Some (Answer (- EINVAL), s)
   | Some m \<Rightarrow> do {
       assert_that (\<not> lock_is_thd_blocked m cur);
       if ml_gen_num m \<noteq> generation s then
         Some (Answer 1, lock_put lid spd (\<lambda>m. m\<lparr>ml_gen_num := generation s\<rparr>) s)
       else
         Some (Sleep, lock_put lid spd (\<lambda>m. m\<lparr>ml_b_thds := cur # ml_b_thds m\<rparr>) (s\<lparr>generation := generation s + 1\<rparr>)) })"

text \<open>The threads to be woken are given in the order in which they are; the last one is woken after the section.\<close>

definition srv_lock_component_release :: "int \<Rightarrow> u32 \<Rightarrow> lock_srv \<Rightarrow> int \<times> u16 list \<times> lock_srv" where
  "srv_lock_component_release spd lid s = (let s = s\<lparr>generation := generation s + 1\<rparr> in
     case lock_find lid spd s of
       None \<Rightarrow> (- EINVAL, [], s)
     | Some m \<Rightarrow> (0, ml_b_thds m, lock_put lid spd (\<lambda>m. m\<lparr>ml_b_thds := []\<rparr>) s))"

definition srv_lock_component_alloc :: "bool \<Rightarrow> int \<Rightarrow> lock_srv \<Rightarrow> u32 \<times> lock_srv" where
  "srv_lock_component_alloc mem spd s = (case lock_alloc mem spd s of
     (None, s) \<Rightarrow> (0, s) | (Some m, s) \<Rightarrow> (ml_lock_id m, s))"

definition srv_lock_component_free :: "int \<Rightarrow> u32 \<Rightarrow> lock_srv \<Rightarrow> int \<times> lock_srv" where
  "srv_lock_component_free spd lid s = (case lock_find lid spd s of None \<Rightarrow> (0, s) | Some m \<Rightarrow> (0, lock_free lid spd s))"

section \<open>What the clients rely on\<close>

text \<open>
  The threads blocked on a lock, and how many times the generation has moved on since the lock was
  last brought up to date. Only a take of a lock that is up to date blocks.
\<close>

definition waiters :: "int \<Rightarrow> u32 \<Rightarrow> lock_srv \<Rightarrow> u16 list" where
  "waiters spd lid s = (case lock_find lid spd s of None \<Rightarrow> [] | Some m \<Rightarrow> ml_b_thds m)"

definition lag :: "int \<Rightarrow> u32 \<Rightarrow> lock_srv \<Rightarrow> nat" where
  "lag spd lid s = (case lock_find lid spd s of None \<Rightarrow> 0 | Some m \<Rightarrow> unat (generation s - ml_gen_num m))"

lemma find_put_first:
  assumes "\<And>x. P x \<Longrightarrow> P (f x)"
  shows "find P (put_first P f xs) = map_option f (find P xs)"
  using assms by (induction xs) auto

lemma lock_find_put:
  assumes "\<And>m. ml_lock_id (f m) = ml_lock_id m \<and> ml_spd (f m) = ml_spd m"
  shows "lock_find lid spd (lock_put lid spd f s) = map_option f (lock_find lid spd s)"
  unfolding lock_find_def lock_put_def using assms by (simp add: find_put_first)

lemma lock_find_generation [simp]: "lock_find lid spd (s\<lparr>generation := g\<rparr>) = lock_find lid spd s"
  by (simp add: lock_find_def)

lemma lock_put_generation [simp]: "generation (lock_put lid spd f s) = generation s"
  by (simp add: lock_put_def)

lemma unat_Suc: "unat (x :: 64 word) + 1 < 2 ^ 64 \<Longrightarrow> unat (x + 1) = unat x + 1"
  by (simp add: unat_word_ariths unat_eq_0)

locale lock_service =
  fixes ptake :: "u16 \<Rightarrow> 's \<Rightarrow> int \<times> 's"
    and stake :: "u16 \<Rightarrow> 's \<Rightarrow> (take_result \<times> 's) option"
    and srel :: "'s \<Rightarrow> int \<times> u16 list \<times> 's"
    and waits :: "'s \<Rightarrow> u16 list"
    and behind :: "'s \<Rightarrow> nat"
  assumes ptake_waits: "ptake thd s = (r, s') \<Longrightarrow> waits s' = waits s"
    and ptake_behind: "ptake thd s = (0, s') \<Longrightarrow> behind s' = 0"
    and stake_sleep: "stake cur s = Some (Sleep, s') \<Longrightarrow> waits s' = cur # waits s \<and> behind s = 0"
    and stake_answer: "stake cur s = Some (Answer k, s') \<Longrightarrow> waits s' = waits s"
    and stake_None: "stake cur s = None \<longleftrightarrow> cur \<in> set (waits s)"
    and srel_waits: "srel s = (r, ts, s') \<Longrightarrow> ts = waits s \<and> waits s' = []"
    and srel_behind: "srel s = (0, ts, s') \<Longrightarrow> behind s + 1 < 2 ^ 64 \<Longrightarrow> behind s' = behind s + 1"
    and srel_fails: "srel s = (r, ts, s') \<Longrightarrow> r \<noteq> 0 \<Longrightarrow> waits s = []"

text \<open>The lock exists and stays so.\<close>

locale live_lock_service = lock_service +
  fixes present :: "'a \<Rightarrow> bool"
  assumes present_ptake: "present s \<Longrightarrow> ptake thd s = (r, s') \<Longrightarrow> present s'"
    and present_stake: "present s \<Longrightarrow> stake cur s = Some (x, s') \<Longrightarrow> present s'"
    and present_srel: "present s \<Longrightarrow> srel s = (r, ts, s') \<Longrightarrow> present s' \<and> r = 0"

text \<open>The server keeps this contract for every lock.\<close>

interpretation two_phase: lock_service "srv_lock_component_pretake spd lid" "srv_lock_component_take spd lid"
  "srv_lock_component_release spd lid" "waiters spd lid" "lag spd lid"
proof unfold_locales
  show "waiters spd lid s' = waiters spd lid s" if "srv_lock_component_pretake spd lid thd s = (r, s')" for thd s r s'
    using that by (auto simp: srv_lock_component_pretake_def waiters_def lock_find_put split: option.splits)
  show "lag spd lid s' = 0" if "srv_lock_component_pretake spd lid thd s = (0, s')" for thd s s'
    using that by (auto simp: srv_lock_component_pretake_def lag_def lock_find_put split: option.splits)
  show "waiters spd lid s' = cur # waiters spd lid s \<and> lag spd lid s = 0" if "srv_lock_component_take spd lid cur s = Some (Sleep, s')" for cur s s'
    using that by (auto simp: srv_lock_component_take_def waiters_def lag_def lock_find_put lock_is_thd_blocked_def split: option.splits if_splits)
  show "waiters spd lid s' = waiters spd lid s" if "srv_lock_component_take spd lid cur s = Some (Answer k, s')" for cur s k s'
    using that by (auto simp: srv_lock_component_take_def waiters_def lock_find_put split: option.splits if_splits)
  show "srv_lock_component_take spd lid cur s = None \<longleftrightarrow> cur \<in> set (waiters spd lid s)" for cur s
    by (cases "lock_find lid spd s"; cases "cur \<in> set (waiters spd lid s)")
      (auto simp: srv_lock_component_take_def waiters_def lock_is_thd_blocked_def)
  show "ts = waiters spd lid s \<and> waiters spd lid s' = []" if "srv_lock_component_release spd lid s = (r, ts, s')" for s r ts s'
    using that by (auto simp: srv_lock_component_release_def waiters_def lock_find_put Let_def split: option.splits)
  show "lag spd lid s' = lag spd lid s + 1" if r: "srv_lock_component_release spd lid s = (0, ts, s')" and l: "lag spd lid s + 1 < 2 ^ 64" for s ts s'
  proof -
    obtain m where m: "lock_find lid spd s = Some m" using r by (auto simp: srv_lock_component_release_def Let_def split: option.splits)
    have "lag spd lid s' = unat (generation s - ml_gen_num m + 1)"
      using r m by (auto simp: srv_lock_component_release_def lag_def lock_find_put Let_def algebra_simps)
    then show ?thesis using l m unat_Suc [of "generation s - ml_gen_num m"] by (simp add: lag_def)
  qed
  show "waiters spd lid s = []" if "srv_lock_component_release spd lid s = (r, ts, s')" "r \<noteq> 0" for s r ts s'
    using that by (auto simp: srv_lock_component_release_def waiters_def Let_def split: option.splits)
qed

interpretation two_phase_live: live_lock_service "srv_lock_component_pretake spd lid" "srv_lock_component_take spd lid"
  "srv_lock_component_release spd lid" "waiters spd lid" "lag spd lid" "\<lambda>s. lock_find lid spd s \<noteq> None"
  by unfold_locales (auto simp: srv_lock_component_pretake_def srv_lock_component_take_def srv_lock_component_release_def Let_def
      lock_find_put bind_eq_Some_conv split: option.splits if_splits)

end
