(* ===== verification/TwoPhaseLock.thy ===== *)
theory TwoPhaseLock
  imports LockServer
begin

text \<open>
  The locks of \<^verbatim>\<open>components/include/cos_synchronization.h\<close> and
  \<^verbatim>\<open>components/interface/lock/cos_synchronization.c\<close>: a word in the memory of the client component,
  with the lock server for the contended case, used by any number of threads that can be preempted
  between any two accesses to the word. The theory models one lock and proves mutual exclusion and
  which of the assertions in the code can fail, for any number of threads; that no wakeup is lost
  between two threads; and that with three threads one can be.
\<close>

section \<open>State\<close>

text \<open>The two halves of the word; as the word is written as a whole, equality of the halves is equality of \<^verbatim>\<open>v\<close>.\<close>

record cos_lock_atomic_struct =
  at_owner :: u16
  at_contested :: u16

text \<open>Where in \<^verbatim>\<open>__lock_take\<close>, \<^verbatim>\<open>lock_take_contention\<close>, \<^verbatim>\<open>__lock_release\<close> and \<^verbatim>\<open>lock_release_contention\<close>
  a thread is, with its local variable \<^verbatim>\<open>prev_val\<close>, and the assertion a thread has run into.\<close>

datatype failure = Recursive_take | Owner_not_set | Contested_lost | Waits_twice | Not_owner | Owner_not_cleared | Cas_failed | Wakes_itself

datatype pc =
  Idle
| Take_start
| Take_cas cos_lock_atomic_struct
| Pretake cos_lock_atomic_struct
| Check_owner cos_lock_atomic_struct
| Check_contested cos_lock_atomic_struct
| Mark_contested cos_lock_atomic_struct
| Assert_contested cos_lock_atomic_struct
| Srv_take cos_lock_atomic_struct
| Blocked
| Take_assert
| Held
| Rel_start
| Rel_cas cos_lock_atomic_struct
| Rel_assert
| Rel_contested cos_lock_atomic_struct
| Srv_release
| Rel_wake u16
| Returned int
| Stopped failure

record 's cos_lock =
  atom :: cos_lock_atomic_struct
  lock_server :: 's
  pcs :: "u16 \<Rightarrow> pc"

definition goto :: "u16 \<Rightarrow> pc \<Rightarrow> 's cos_lock \<Rightarrow> 's cos_lock" where
  "goto t p S = S\<lparr>pcs := (pcs S)(t := p)\<rparr>"

section \<open>The steps of a thread\<close>

text \<open>
  The server is given by its three operations on this lock, as in \<open>LockServer\<close>. Each function below
  is what a thread does from one access to shared state to the next. The assertion on \<^verbatim>\<open>result.v\<close> in
  \<^verbatim>\<open>__lock_take\<close> reads local variables only, which have just been given the values it asks for.
\<close>

definition lock_take_step :: "u16 \<Rightarrow> 's cos_lock \<Rightarrow> 's cos_lock" where
  "lock_take_step cur S = (let prev_val = atom S in
     if at_owner prev_val = cur then goto cur (Stopped Recursive_take) S
     else if at_owner prev_val \<noteq> 0 then goto cur (Pretake prev_val) S
     else goto cur (Take_cas prev_val) S)"

definition lock_take_cas :: "u16 \<Rightarrow> cos_lock_atomic_struct \<Rightarrow> 's cos_lock \<Rightarrow> 's cos_lock" where
  "lock_take_cas cur prev_val S =
     (if atom S = prev_val then goto cur Take_assert (S\<lparr>atom := \<lparr>at_owner = cur, at_contested = 0\<rparr>\<rparr>)
      else goto cur Take_start S)"

definition lock_take_contention :: "(u16 \<Rightarrow> 's \<Rightarrow> int \<times> 's) \<Rightarrow> (u16 \<Rightarrow> 's \<Rightarrow> (take_result \<times> 's) option) \<Rightarrow> u16 \<Rightarrow> pc \<Rightarrow> 's cos_lock \<Rightarrow> 's cos_lock" where
  "lock_take_contention ptake stake cur p S = (case p of
     Pretake prev_val \<Rightarrow>
       (case ptake (at_owner prev_val) (lock_server S) of (ret, s) \<Rightarrow>
          if ret \<noteq> 0 then goto cur (Returned (-1)) (S\<lparr>lock_server := s\<rparr>)
          else goto cur (Check_owner prev_val) (S\<lparr>lock_server := s\<rparr>))
   | Check_owner prev_val \<Rightarrow>
       if at_owner prev_val \<noteq> at_owner (atom S) then goto cur Take_start S
       else goto cur (Check_contested prev_val) S
   | Check_contested prev_val \<Rightarrow>
       if at_contested (atom S) = 0 then goto cur (Mark_contested prev_val) S
       else goto cur (Srv_take prev_val) S
   | Mark_contested prev_val \<Rightarrow>
       if atom S = prev_val then goto cur (Assert_contested prev_val) (S\<lparr>atom := \<lparr>at_owner = at_owner prev_val, at_contested = 1\<rparr>\<rparr>)
       else goto cur Take_start S
   | Assert_contested prev_val \<Rightarrow>
       if at_contested (atom S) = 0 then goto cur (Stopped Contested_lost) S
       else goto cur (Srv_take prev_val) S
   | Srv_take prev_val \<Rightarrow>
       (case stake cur (lock_server S) of
          None \<Rightarrow> goto cur (Stopped Waits_twice) S
        | Some (Answer ret, s) \<Rightarrow>
            if ret < 0 then goto cur (Returned ret) (S\<lparr>lock_server := s\<rparr>) else goto cur Take_start (S\<lparr>lock_server := s\<rparr>)
        | Some (Sleep, s) \<Rightarrow> goto cur Blocked (S\<lparr>lock_server := s\<rparr>))
   | _ \<Rightarrow> S)"

definition lock_release_step :: "u16 \<Rightarrow> 's cos_lock \<Rightarrow> 's cos_lock" where
  "lock_release_step cur S = (let prev_val = atom S in
     if at_owner prev_val \<noteq> cur then goto cur (Stopped Not_owner) S
     else if at_contested prev_val \<noteq> 0 then goto cur (Rel_contested prev_val) S
     else goto cur (Rel_cas prev_val) S)"

definition lock_release_cas :: "u16 \<Rightarrow> cos_lock_atomic_struct \<Rightarrow> 's cos_lock \<Rightarrow> 's cos_lock" where
  "lock_release_cas cur prev_val S =
     (if atom S = prev_val then goto cur Rel_assert (S\<lparr>atom := \<lparr>at_owner = 0, at_contested = 0\<rparr>\<rparr>)
      else goto cur Rel_start S)"

text \<open>The assertions after the two loops read the word again.\<close>

definition lock_take_assert :: "u16 \<Rightarrow> 's cos_lock \<Rightarrow> 's cos_lock" where
  "lock_take_assert cur S = goto cur (if at_owner (atom S) = cur then Held else Stopped Owner_not_set) S"

definition lock_release_assert :: "u16 \<Rightarrow> 's cos_lock \<Rightarrow> 's cos_lock" where
  "lock_release_assert cur S = goto cur (if at_owner (atom S) \<noteq> cur then Idle else Stopped Owner_not_cleared) S"

text \<open>
  A thread that is woken returns from \<^verbatim>\<open>lock_component_take\<close> with 0 and tries again. The server wakes
  all waiting threads but the last in its critical section, and the last after it.
\<close>

definition wake :: "u16 list \<Rightarrow> 's cos_lock \<Rightarrow> 's cos_lock" where
  "wake ts S = fold (\<lambda>t. goto t Take_start) ts S"

definition lock_release_contention :: "('s \<Rightarrow> int \<times> u16 list \<times> 's) \<Rightarrow> u16 \<Rightarrow> pc \<Rightarrow> 's cos_lock \<Rightarrow> 's cos_lock" where
  "lock_release_contention srel cur p S = (case p of
     Rel_contested prev_val \<Rightarrow>
       if atom S = prev_val then goto cur Srv_release (S\<lparr>atom := \<lparr>at_owner = 0, at_contested = 0\<rparr>\<rparr>)
       else goto cur (Stopped Cas_failed) S
   | Srv_release \<Rightarrow>
       (case srel (lock_server S) of (ret, ts, s) \<Rightarrow> let S = S\<lparr>lock_server := s\<rparr> in
          if ret \<noteq> 0 then goto cur (Returned (-1)) S
          else if ts = [] then goto cur Idle S
          else if cur \<in> set ts then goto cur (Stopped Wakes_itself) S
          else goto cur (Rel_wake (last ts)) (wake (butlast ts) S))
   | Rel_wake t \<Rightarrow> goto cur Idle (wake [t] S)
   | _ \<Rightarrow> S)"

text \<open>
  A step of the thread \<open>t\<close>, if it can make one: an idle thread takes the lock, and a thread that
  holds it releases it.
\<close>

definition lock_step :: "(u16 \<Rightarrow> 's \<Rightarrow> int \<times> 's) \<Rightarrow> (u16 \<Rightarrow> 's \<Rightarrow> (take_result \<times> 's) option) \<Rightarrow> ('s \<Rightarrow> int \<times> u16 list \<times> 's) \<Rightarrow>
    u16 \<Rightarrow> 's cos_lock \<Rightarrow> 's cos_lock option" where
  "lock_step ptake stake srel t S = (case pcs S t of
     Idle \<Rightarrow> Some (goto t Take_start S)
   | Take_start \<Rightarrow> Some (lock_take_step t S)
   | Take_cas prev_val \<Rightarrow> Some (lock_take_cas t prev_val S)
   | Take_assert \<Rightarrow> Some (lock_take_assert t S)
   | Held \<Rightarrow> Some (goto t Rel_start S)
   | Rel_start \<Rightarrow> Some (lock_release_step t S)
   | Rel_cas prev_val \<Rightarrow> Some (lock_release_cas t prev_val S)
   | Rel_assert \<Rightarrow> Some (lock_release_assert t S)
   | Rel_contested prev_val \<Rightarrow> Some (lock_release_contention srel t (Rel_contested prev_val) S)
   | Srv_release \<Rightarrow> Some (lock_release_contention srel t Srv_release S)
   | Rel_wake u \<Rightarrow> Some (lock_release_contention srel t (Rel_wake u) S)
   | Blocked \<Rightarrow> None
   | Returned r \<Rightarrow> None
   | Stopped f \<Rightarrow> None
   | p \<Rightarrow> Some (lock_take_contention ptake stake t p S))"

text \<open>The steps of the threads in the order a schedule gives them, and the state of a lock that has just been made.\<close>

fun lock_run :: "(u16 \<Rightarrow> 's \<Rightarrow> int \<times> 's) \<Rightarrow> (u16 \<Rightarrow> 's \<Rightarrow> (take_result \<times> 's) option) \<Rightarrow> ('s \<Rightarrow> int \<times> u16 list \<times> 's) \<Rightarrow>
    u16 list \<Rightarrow> 's cos_lock \<Rightarrow> 's cos_lock option" where
  "lock_run ptake stake srel [] S = Some S"
| "lock_run ptake stake srel (t # ts) S = do { S \<leftarrow> lock_step ptake stake srel t S; lock_run ptake stake srel ts S }"

definition lock_init :: "'s \<Rightarrow> 's cos_lock" where
  "lock_init s = \<lparr>atom = \<lparr>at_owner = 0, at_contested = 0\<rparr>, lock_server = s, pcs = (\<lambda>_. Idle)\<rparr>"

section \<open>The invariant for any number of threads\<close>

fun owning :: "pc \<Rightarrow> bool" where
  "owning Take_assert = True"
| "owning Held = True"
| "owning Rel_start = True"
| "owning (Rel_cas v) = True"
| "owning (Rel_contested v) = True"
| "owning _ = False"

text \<open>What a thread knows of the word from its local copy of it.\<close>

fun pc_ok :: "u16 \<Rightarrow> cos_lock_atomic_struct \<Rightarrow> pc \<Rightarrow> bool" where
  "pc_ok t a (Take_cas v) = (at_owner v = 0)"
| "pc_ok t a (Pretake v) = (at_owner v \<noteq> 0 \<and> at_owner v \<noteq> t)"
| "pc_ok t a (Check_owner v) = (at_owner v \<noteq> 0 \<and> at_owner v \<noteq> t)"
| "pc_ok t a (Check_contested v) = (at_owner v \<noteq> 0 \<and> at_owner v \<noteq> t)"
| "pc_ok t a (Mark_contested v) = (at_owner v \<noteq> 0 \<and> at_owner v \<noteq> t)"
| "pc_ok t a (Assert_contested v) = (at_owner v \<noteq> 0 \<and> at_owner v \<noteq> t)"
| "pc_ok t a (Srv_take v) = (at_owner v \<noteq> 0 \<and> at_owner v \<noteq> t)"
| "pc_ok t a (Rel_cas v) = (at_owner v = t \<and> at_contested v = 0)"
| "pc_ok t a (Rel_contested v) = (a = v \<and> at_contested v = 1)"
| "pc_ok t a (Stopped f) = (f = Contested_lost)"
| "pc_ok t a _ = True"

definition word_ok :: "'s cos_lock \<Rightarrow> bool" where
  "word_ok S \<longleftrightarrow> (\<forall>t. t \<noteq> 0 \<longrightarrow> (owning (pcs S t) \<longleftrightarrow> at_owner (atom S) = t) \<and> pc_ok t (atom S) (pcs S t)) \<and>
     (at_contested (atom S) = 0 \<or> at_contested (atom S) = 1) \<and> (at_owner (atom S) = 0 \<longrightarrow> at_contested (atom S) = 0)"

text \<open>The threads \<open>ws\<close> waiting at the server are blocked, and each thread is woken by one other at most.\<close>

definition queue_ok :: "u16 list \<Rightarrow> (u16 \<Rightarrow> pc) \<Rightarrow> bool" where
  "queue_ok ws p \<longleftrightarrow> distinct ws \<and> (\<forall>u \<in> set ws. u \<noteq> 0 \<and> p u = Blocked) \<and>
     (\<forall>t u. p t = Rel_wake u \<longrightarrow> u \<noteq> 0 \<and> p u = Blocked \<and> u \<notin> set ws \<and> (\<forall>t'. p t' = Rel_wake u \<longrightarrow> t' = t))"

lemma queue_okI:
  assumes "distinct ws" "\<And>u. u \<in> set ws \<Longrightarrow> u \<noteq> 0 \<and> p u = Blocked"
    and "\<And>t u. p t = Rel_wake u \<Longrightarrow> u \<noteq> 0 \<and> p u = Blocked \<and> u \<notin> set ws"
    and "\<And>t t' u. p t = Rel_wake u \<Longrightarrow> p t' = Rel_wake u \<Longrightarrow> t' = t"
  shows "queue_ok ws p"
  using assms unfolding queue_ok_def by blast

lemma queue_okD:
  assumes "queue_ok ws p"
  shows "distinct ws" "u \<in> set ws \<Longrightarrow> u \<noteq> 0" "u \<in> set ws \<Longrightarrow> p u = Blocked"
    and "p t = Rel_wake u \<Longrightarrow> u \<noteq> 0" "p t = Rel_wake u \<Longrightarrow> p u = Blocked" "p t = Rel_wake u \<Longrightarrow> u \<notin> set ws"
    and "p t = Rel_wake u \<Longrightarrow> p t' = Rel_wake u \<Longrightarrow> t' = t"
  using assms unfolding queue_ok_def by blast+

lemma goto_simps [simp]:
  "atom (goto t p S) = atom S" "lock_server (goto t p S) = lock_server S" "pcs (goto t p S) = (pcs S)(t := p)"
  by (simp_all add: goto_def)

lemma wake_simps [simp]:
  "atom (wake ts S) = atom S" "lock_server (wake ts S) = lock_server S"
  "pcs (wake ts S) = (\<lambda>u. if u \<in> set ts then Take_start else pcs S u)"
  by (induction ts arbitrary: S) (auto simp: wake_def fun_eq_iff)

lemma word_okD:
  assumes "word_ok S" "t \<noteq> 0"
  shows "owning (pcs S t) \<longleftrightarrow> at_owner (atom S) = t" "pc_ok t (atom S) (pcs S t)"
  using assms by (auto simp: word_ok_def)

text \<open>A thread moves on without writing the word.\<close>

lemma word_ok_goto:
  assumes "word_ok S" "owning p = owning (pcs S t)" "pc_ok t (atom S) p"
  shows "word_ok (goto t p S)"
  using assms by (auto simp: word_ok_def)

lemma word_ok_wake:
  assumes "word_ok S" "\<And>u. u \<in> set ts \<Longrightarrow> pcs S u = Blocked"
  shows "word_ok (wake ts S)"
proof -
  have e: "owning (pcs (wake ts S) u) = owning (pcs S u)" "pc_ok u a (pcs (wake ts S) u) = pc_ok u a (pcs S u)" for u a
    using assms(2) [of u] by auto
  show ?thesis using assms(1) unfolding word_ok_def wake_simps(1) e .
qed

lemma word_ok_server [simp]: "word_ok (S\<lparr>lock_server := s\<rparr>) = word_ok S"
  by (simp add: word_ok_def)

lemma queue_ok_goto:
  assumes "queue_ok ws f" "f t \<noteq> Blocked" "\<And>u. p \<noteq> Rel_wake u"
  shows "queue_ok ws (f(t := p))"
proof -
  have w: "(f(t := p)) x = Rel_wake u \<Longrightarrow> f x = Rel_wake u" for x u using assms(3) by (cases "x = t") auto
  have b: "f u = Blocked \<Longrightarrow> (f(t := p)) u = Blocked" for u using assms(2) by (cases "u = t") auto
  show ?thesis using assms(1) w b unfolding queue_ok_def by blast
qed

text \<open>The word changes hands.\<close>

lemma pc_ok_take:
  assumes "word_ok S" "at_owner (atom S) = 0" "u \<noteq> 0"
  shows "pc_ok u a (pcs S u)"
  using word_okD [OF assms(1,3)] assms(2,3) by (cases "pcs S u") auto

lemma pc_ok_mark:
  assumes "word_ok S" "u \<noteq> 0"
  shows "pc_ok u \<lparr>at_owner = at_owner (atom S), at_contested = 1\<rparr> (pcs S u)"
  using word_okD [OF assms] by (cases "pcs S u") auto

lemma pc_ok_release:
  assumes "word_ok S" "owning (pcs S t)" "t \<noteq> 0" "u \<noteq> 0" "u \<noteq> t"
  shows "pc_ok u a (pcs S u)"
  using word_okD [OF assms(1,3)] word_okD [OF assms(1,4)] assms(2,5) by (cases "pcs S u") auto

lemma word_ok_take:
  assumes "word_ok S" "at_owner (atom S) = 0" "t \<noteq> 0"
  shows "word_ok (goto t Take_assert (S\<lparr>atom := \<lparr>at_owner = t, at_contested = 0\<rparr>\<rparr>))"
  using assms pc_ok_take [OF assms(1,2)] word_okD(1) [OF assms(1)] by (auto simp: word_ok_def)

lemma word_ok_mark:
  assumes "word_ok S" "at_owner (atom S) \<noteq> 0" "at_owner (atom S) \<noteq> t" "\<not> owning (pcs S t)"
  shows "word_ok (goto t (Assert_contested (atom S)) (S\<lparr>atom := \<lparr>at_owner = at_owner (atom S), at_contested = 1\<rparr>\<rparr>))"
  using assms pc_ok_mark [OF assms(1)] word_okD(1) [OF assms(1)] by (auto simp: word_ok_def)

lemma word_ok_release:
  assumes "word_ok S" "owning (pcs S t)" "t \<noteq> 0" "\<not> owning p" "\<And>a. pc_ok t a p"
  shows "word_ok (goto t p (S\<lparr>atom := \<lparr>at_owner = 0, at_contested = 0\<rparr>\<rparr>))"
  using assms pc_ok_release [OF assms(1-3)] word_okD(1) [OF assms(1)] by (auto simp: word_ok_def)

text \<open>With any server that keeps the contract, every step keeps the invariant.\<close>

lemma last_butlast_distinct: "distinct xs \<Longrightarrow> xs \<noteq> [] \<Longrightarrow> last xs \<notin> set (butlast xs)"
  by (induction xs rule: rev_induct) auto

context lock_service begin

abbreviation "run_step \<equiv> lock_step ptake stake srel"
abbreviation "inv_ok S \<equiv> word_ok S \<and> queue_ok (waits (lock_server S)) (pcs S)"

lemma goto_ok:
  assumes "inv_ok S" "pcs S t \<noteq> Blocked" "\<And>u. p \<noteq> Rel_wake u" "owning p = owning (pcs S t)" "pc_ok t (atom S) p" "waits s = waits (lock_server S)"
  shows "inv_ok (goto t p (S\<lparr>lock_server := s\<rparr>))" "inv_ok (goto t p S)"
  using assms word_ok_goto [of S p t] word_ok_goto [of "S\<lparr>lock_server := s\<rparr>" p t] queue_ok_goto [of "waits (lock_server S)" "pcs S" t p] by auto

lemma sleep_ok:
  assumes I: "inv_ok S" and t: "t \<noteq> 0" "pcs S t \<noteq> Blocked" "\<not> owning (pcs S t)" "\<And>u. pcs S t \<noteq> Rel_wake u"
    and st: "stake t (lock_server S) = Some (Sleep, s)"
  shows "inv_ok (goto t Blocked (S\<lparr>lock_server := s\<rparr>))"
proof -
  have w: "waits s = t # waits (lock_server S)" using stake_sleep [OF st] by simp
  have "word_ok (goto t Blocked (S\<lparr>lock_server := s\<rparr>))" using I t(3) by (intro word_ok_goto) auto
  moreover have q: "queue_ok (waits (lock_server S)) (pcs S)" using I by simp
  have n: "t \<notin> set (waits (lock_server S))" using queue_okD(3) [OF q, of t] t(2) by blast
  have wk: "((pcs S)(t := Blocked)) x = Rel_wake u \<Longrightarrow> pcs S x = Rel_wake u \<and> u \<noteq> t" for x u
    using queue_okD(5) [OF q, of x u] t(2) by (cases "x = t") auto
  have "queue_ok (t # waits (lock_server S)) ((pcs S)(t := Blocked))"
  proof (rule queue_okI)
    show "distinct (t # waits (lock_server S))" using n queue_okD(1) [OF q] by simp
    show "u \<noteq> 0 \<and> ((pcs S)(t := Blocked)) u = Blocked" if "u \<in> set (t # waits (lock_server S))" for u
      using that t(1) queue_okD(2,3) [OF q, of u] by auto
    show "u \<noteq> 0 \<and> ((pcs S)(t := Blocked)) u = Blocked \<and> u \<notin> set (t # waits (lock_server S))"
      if "((pcs S)(t := Blocked)) x = Rel_wake u" for x u
      using wk [OF that] queue_okD(4-6) [OF q, of x u] by auto
    show "x' = x" if "((pcs S)(t := Blocked)) x = Rel_wake u" "((pcs S)(t := Blocked)) x' = Rel_wake u" for x x' u
      using wk [OF that(1)] wk [OF that(2)] queue_okD(7) [OF q, of x u x'] by blast
  qed
  ultimately show ?thesis using w by simp
qed

lemma release_ok:
  assumes I: "inv_ok S" and t: "t \<noteq> 0" "pcs S t = Srv_release" and r: "srel (lock_server S) = (ret, ts, s)"
  shows "inv_ok (lock_release_contention srel t Srv_release S)"
proof -
  let ?ws = "waits (lock_server S)"
  have ts: "ts = ?ws" "waits s = []" using srel_waits [OF r] by auto
  have q: "queue_ok ?ws (pcs S)" and wd: "word_ok S" using I by auto
  have nt: "t \<notin> set ts" using queue_okD(3) [OF q, of t] t(2) ts(1) by auto
  show ?thesis
  proof (cases "ret \<noteq> 0 \<or> ts = []")
    case True
    then have "waits s = ?ws" using srel_fails [OF r] ts by auto
    then show ?thesis
      using True r goto_ok(1) [OF I, of t "Returned (-1)" s] goto_ok(1) [OF I, of t Idle s] t
      by (auto simp: lock_release_contention_def Let_def)
  next
    case False
    let ?S = "goto t (Rel_wake (last ts)) (wake (butlast ts) (S\<lparr>lock_server := s\<rparr>))"
    have l: "last ts \<in> set ts" "last ts \<notin> set (butlast ts)" "set (butlast ts) \<subseteq> set ts"
      using False queue_okD(1) [OF q] ts(1) last_butlast_distinct [of ts] by (auto dest: in_set_butlastD)
    have bl: "u \<in> set ts \<Longrightarrow> u \<noteq> 0 \<and> pcs S u = Blocked" for u using queue_okD(2,3) [OF q, of u] ts(1) by simp
    have "word_ok ?S"
      using nt t(2) l(3) bl wd by (intro word_ok_goto word_ok_wake) auto
    moreover have "queue_ok [] (pcs ?S)"
    proof (rule queue_okI)
      have wk: "(x = t \<and> u = last ts) \<or> (x \<noteq> t \<and> pcs S x = Rel_wake u)" if "pcs ?S x = Rel_wake u" for x u
        using that by (auto split: if_splits)
      have blk: "pcs ?S u = Blocked" if "pcs S u = Blocked" "u \<notin> set (butlast ts)" "u \<noteq> t" for u using that by simp
      show "u \<noteq> 0 \<and> pcs ?S u = Blocked \<and> u \<notin> set []" if "pcs ?S x = Rel_wake u" for x u
        using wk [OF that]
      proof
        assume "x = t \<and> u = last ts"
        then show ?thesis using bl [OF l(1)] l(2) blk [of u] nt l(1) by auto
      next
        assume "x \<noteq> t \<and> pcs S x = Rel_wake u"
        then have "u \<noteq> 0" "pcs S u = Blocked" "u \<notin> set ts" using queue_okD(4-6) [OF q, of x u] ts(1) by auto
        then show ?thesis using blk [of u] l(3) t(2) by auto
      qed
      show "x' = x" if "pcs ?S x = Rel_wake u" "pcs ?S x' = Rel_wake u" for x x' u
        using wk [OF that(1)] wk [OF that(2)] queue_okD(6,7) [OF q, of x u] queue_okD(6) [OF q, of x' u] l(1) ts(1) by metis
    qed simp_all
    moreover have "lock_release_contention srel t Srv_release S = ?S"
      using False r nt by (simp add: lock_release_contention_def Let_def)
    ultimately show ?thesis using ts(2) by simp
  qed
qed

lemma wake_last_ok:
  assumes I: "inv_ok S" and t: "t \<noteq> 0" "pcs S t = Rel_wake u"
  shows "inv_ok (goto t Idle (wake [u] S))"
proof -
  have q: "queue_ok (waits (lock_server S)) (pcs S)" and wd: "word_ok S" using I by auto
  have u: "u \<noteq> 0" "pcs S u = Blocked" "u \<notin> set (waits (lock_server S))" "\<And>x. pcs S x = Rel_wake u \<Longrightarrow> x = t"
    by (rule queue_okD(4-7) [OF q t(2)])+
  have ut: "u \<noteq> t" using u(2) t(2) by auto
  have "word_ok (goto t Idle (wake [u] S))" using wd u(2) ut t(2) by (intro word_ok_goto word_ok_wake) auto
  moreover have "queue_ok (waits (lock_server S)) (pcs (goto t Idle (wake [u] S)))"
  proof (rule queue_okI)
    let ?p = "pcs (goto t Idle (wake [u] S))"
    have wk: "pcs S x = Rel_wake v \<and> v \<noteq> u" if "?p x = Rel_wake v" for x v
      using that u(4) [of x] by (auto split: if_splits)
    have blk: "?p v = Blocked" if "pcs S v = Blocked" "v \<noteq> u" for v using that t(2) by auto
    show "distinct (waits (lock_server S))" using queue_okD(1) [OF q] .
    show "v \<noteq> 0 \<and> ?p v = Blocked" if "v \<in> set (waits (lock_server S))" for v
      using queue_okD(2,3) [OF q that] blk [of v] that u(3) by blast
    show "v \<noteq> 0 \<and> ?p v = Blocked \<and> v \<notin> set (waits (lock_server S))" if "?p x = Rel_wake v" for x v
      using wk [OF that] queue_okD(4-6) [OF q, of x v] blk [of v] by blast
    show "x' = x" if "?p x = Rel_wake v" "?p x' = Rel_wake v" for x x' v
      using wk [OF that(1)] wk [OF that(2)] queue_okD(7) [OF q, of x v x'] by blast
  qed
  ultimately show ?thesis by simp
qed

lemma take_step_ok:
  assumes I: "inv_ok S" and t: "t \<noteq> 0" "pcs S t = Take_start"
  shows "inv_ok (lock_take_step t S)"
proof -
  have o: "at_owner (atom S) \<noteq> t" using word_okD(1) [OF conjunct1 [OF I] t(1)] t(2) by auto
  have "inv_ok (goto t (Pretake (atom S)) S)" if "at_owner (atom S) \<noteq> 0" by (rule goto_ok(2) [OF I]) (use o that t(2) in auto)
  moreover have "inv_ok (goto t (Take_cas (atom S)) S)" if "at_owner (atom S) = 0" by (rule goto_ok(2) [OF I]) (use that t(2) in auto)
  ultimately show ?thesis using o by (auto simp: lock_take_step_def Let_def)
qed

lemma take_cas_ok:
  assumes I: "inv_ok S" and t: "t \<noteq> 0" "pcs S t = Take_cas v"
  shows "inv_ok (lock_take_cas t v S)"
proof (cases "atom S = v")
  case True
  then have z: "at_owner (atom S) = 0" using word_okD(2) [OF conjunct1 [OF I] t(1)] t(2) by simp
  have "queue_ok (waits (lock_server S)) ((pcs S)(t := Take_assert))" by (rule queue_ok_goto) (use I t(2) in auto)
  then show ?thesis using True word_ok_take [OF conjunct1 [OF I] z t(1)] by (simp add: lock_take_cas_def)
next
  case False
  have "inv_ok (goto t Take_start S)" by (rule goto_ok(2) [OF I]) (use t(2) in auto)
  then show ?thesis using False by (simp add: lock_take_cas_def)
qed

lemma mark_ok:
  assumes I: "inv_ok S" and t: "t \<noteq> 0" "pcs S t = Mark_contested v" "atom S = v"
  shows "inv_ok (goto t (Assert_contested v) (S\<lparr>atom := \<lparr>at_owner = at_owner v, at_contested = 1\<rparr>\<rparr>))"
proof -
  have v: "at_owner (atom S) \<noteq> 0" "at_owner (atom S) \<noteq> t" using word_okD(2) [OF conjunct1 [OF I] t(1)] t(2,3) by auto
  have "queue_ok (waits (lock_server S)) ((pcs S)(t := Assert_contested v))" by (rule queue_ok_goto) (use I t(2) in auto)
  then show ?thesis using word_ok_mark [OF conjunct1 [OF I] v] t(2,3) by simp
qed

lemma contention_ok:
  assumes I: "inv_ok S" and t: "t \<noteq> 0" "pcs S t = p"
    and p: "p = Pretake v \<or> p = Check_owner v \<or> p = Check_contested v \<or> p = Mark_contested v \<or> p = Assert_contested v \<or> p = Srv_take v"
  shows "inv_ok (lock_take_contention ptake stake t p S)"
proof -
  have v: "at_owner v \<noteq> 0" "at_owner v \<noteq> t" using word_okD(2) [OF conjunct1 [OF I] t(1)] t(2) p by auto
  have go: "inv_ok (goto t q S)" "waits s = waits (lock_server S) \<Longrightarrow> inv_ok (goto t q (S\<lparr>lock_server := s\<rparr>))"
    if "pc_ok t (atom S) q" "\<not> owning q" "\<And>u. q \<noteq> Rel_wake u" for q s
    using goto_ok(1) [OF I, of t q s] goto_ok(2) [OF I, of t q "lock_server S"] that t(2) p by auto
  from p consider "p = Pretake v" | "p = Check_owner v" | "p = Check_contested v" | "p = Mark_contested v" | "p = Assert_contested v" | "p = Srv_take v"
    by blast
  then show ?thesis
  proof cases
    case 1
    obtain r s where r: "ptake (at_owner v) (lock_server S) = (r, s)" by (rule prod.exhaust)
    show ?thesis
      using go(2) [of "Returned (-1)" s] go(2) [of "Check_owner v" s] ptake_waits [OF r] r v 1 by (simp add: lock_take_contention_def)
  next
    case 2
    show ?thesis using go(1) [of Take_start] go(1) [of "Check_contested v"] v 2 by (simp add: lock_take_contention_def)
  next
    case 3
    show ?thesis using go(1) [of "Srv_take v"] go(1) [of "Mark_contested v"] v 3 by (simp add: lock_take_contention_def)
  next
    case 4
    show ?thesis using go(1) [of Take_start] mark_ok [OF I t(1)] t(2) v 4 by (simp add: lock_take_contention_def)
  next
    case 5
    show ?thesis using go(1) [of "Srv_take v"] go(1) [of "Stopped Contested_lost"] v 5 by (simp add: lock_take_contention_def)
  next
    case 6
    have nb: "t \<notin> set (waits (lock_server S))" using queue_okD(3) [OF conjunct2 [OF I], of t] t(2) 6 by auto
    then obtain x s where x: "stake t (lock_server S) = Some (x, s)" using stake_None [of t "lock_server S"] by auto
    show ?thesis
    proof (cases x)
      case (Answer k)
      then show ?thesis
        using go(2) [of "Returned k" s] go(2) [of Take_start s] stake_answer [of t "lock_server S" k s] x 6 by (simp add: lock_take_contention_def)
    next
      case Sleep
      then show ?thesis using sleep_ok [OF I t(1), of s] t(2) x 6 by (simp add: lock_take_contention_def)
    qed
  qed
qed

lemma release_step_ok:
  assumes I: "inv_ok S" and t: "t \<noteq> 0" "pcs S t = Rel_start"
  shows "inv_ok (lock_release_step t S)"
proof -
  have o: "at_owner (atom S) = t" using word_okD(1) [OF conjunct1 [OF I] t(1)] t(2) by auto
  have c: "at_contested (atom S) = 0 \<or> at_contested (atom S) = 1" using I by (simp add: word_ok_def)
  have "inv_ok (goto t (Rel_contested (atom S)) S)" if "at_contested (atom S) \<noteq> 0" by (rule goto_ok(2) [OF I]) (use c that t(2) in auto)
  moreover have "inv_ok (goto t (Rel_cas (atom S)) S)" if "at_contested (atom S) = 0" by (rule goto_ok(2) [OF I]) (use o that t(2) in auto)
  ultimately show ?thesis using o by (auto simp: lock_release_step_def Let_def)
qed

lemma drop_ok:
  assumes I: "inv_ok S" and t: "t \<noteq> 0" "owning (pcs S t)" and p: "p = Rel_assert \<or> p = Srv_release"
  shows "inv_ok (goto t p (S\<lparr>atom := \<lparr>at_owner = 0, at_contested = 0\<rparr>\<rparr>))"
proof -
  have "pcs S t \<noteq> Blocked" using t(2) by auto
  then have "queue_ok (waits (lock_server S)) ((pcs S)(t := p))" by (intro queue_ok_goto) (use I p in auto)
  moreover have "word_ok (goto t p (S\<lparr>atom := \<lparr>at_owner = 0, at_contested = 0\<rparr>\<rparr>))"
    by (rule word_ok_release [OF conjunct1 [OF I] t(2,1)]) (use p in auto)
  ultimately show ?thesis by simp
qed

lemma step_ok:
  assumes I: "inv_ok S" and t: "t \<noteq> 0" and s: "run_step t S = Some S'"
  shows "inv_ok S'"
proof -
  have con: "inv_ok (lock_take_contention ptake stake t (pcs S t) S)"
    if "pcs S t = Pretake v \<or> pcs S t = Check_owner v \<or> pcs S t = Check_contested v \<or> pcs S t = Mark_contested v \<or>
      pcs S t = Assert_contested v \<or> pcs S t = Srv_take v" for v
    by (rule contention_ok [OF I t refl that])
  show ?thesis
  proof (cases "pcs S t")
    case (Rel_cas v)
    have "inv_ok (goto t Rel_start S)" by (rule goto_ok(2) [OF I]) (use Rel_cas in auto)
    then show ?thesis using s Rel_cas drop_ok [OF I t, of Rel_assert] by (auto simp: lock_step_def lock_release_cas_def)
  next
    case (Rel_contested v)
    then have "atom S = v" using word_okD(2) [OF conjunct1 [OF I] t] by simp
    then show ?thesis using s Rel_contested drop_ok [OF I t, of Srv_release] by (auto simp: lock_step_def lock_release_contention_def)
  next
    case Srv_release
    obtain r ts s' where "srel (lock_server S) = (r, ts, s')" by (metis prod_cases3)
    then show ?thesis using s Srv_release release_ok [OF I t Srv_release] by (auto simp: lock_step_def)
  next
    case (Rel_wake u)
    then show ?thesis using s wake_last_ok [OF I t Rel_wake] by (auto simp: lock_step_def lock_release_contention_def)
  next
    case Take_assert
    have "at_owner (atom S) = t" using I word_okD(1) [of S t] t Take_assert by auto
    moreover have "inv_ok (goto t Held S)" by (rule goto_ok(2) [OF I]) (use Take_assert in auto)
    ultimately show ?thesis using s Take_assert by (auto simp: lock_step_def lock_take_assert_def)
  next
    case Rel_assert
    have "at_owner (atom S) \<noteq> t" using I word_okD(1) [of S t] t Rel_assert by auto
    moreover have "inv_ok (goto t Idle S)" by (rule goto_ok(2) [OF I]) (use Rel_assert in auto)
    ultimately show ?thesis using s Rel_assert by (auto simp: lock_step_def lock_release_assert_def)
  next
    case Idle
    have "inv_ok (goto t Take_start S)" by (rule goto_ok(2) [OF I]) (use Idle in auto)
    then show ?thesis using s Idle by (auto simp: lock_step_def)
  next
    case Held
    have "inv_ok (goto t Rel_start S)" by (rule goto_ok(2) [OF I]) (use Held in auto)
    then show ?thesis using s Held by (auto simp: lock_step_def)
  qed (use s con take_step_ok [OF I t] take_cas_ok [OF I t] release_step_ok [OF I t] in \<open>auto simp: lock_step_def\<close>)
qed

lemma run_ok:
  assumes "inv_ok S" "0 \<notin> set ts" "lock_run ptake stake srel ts S = Some S'"
  shows "inv_ok S'"
  using assms
proof (induction ts arbitrary: S)
  case (Cons t ts)
  then obtain S1 where s: "run_step t S = Some S1" "lock_run ptake stake srel ts S1 = Some S'" by (auto simp: bind_eq_Some_conv)
  have "inv_ok S1" by (rule step_ok [OF Cons.prems(1) _ s(1)]) (use Cons.prems(2) in auto)
  then show ?case using Cons.IH s(2) Cons.prems(2) by auto
qed simp

lemma init_ok: "waits s = [] \<Longrightarrow> inv_ok (lock_init s)"
  by (auto simp: lock_init_def word_ok_def queue_ok_def)

end

section \<open>Two threads\<close>

fun contending :: "pc \<Rightarrow> bool" where
  "contending (Pretake v) = True"
| "contending (Check_owner v) = True"
| "contending (Check_contested v) = True"
| "contending (Mark_contested v) = True"
| "contending (Assert_contested v) = True"
| "contending (Srv_take v) = True"
| "contending Blocked = True"
| "contending _ = False"

fun synced :: "pc \<Rightarrow> bool" where
  "synced (Check_owner v) = True"
| "synced (Check_contested v) = True"
| "synced (Mark_contested v) = True"
| "synced (Assert_contested v) = True"
| "synced (Srv_take v) = True"
| "synced _ = False"

fun marked :: "pc \<Rightarrow> bool" where
  "marked (Assert_contested v) = True"
| "marked (Srv_take v) = True"
| "marked _ = False"

text \<open>The other thread is going to call the server when it releases the lock, or is about to.\<close>

definition will_release :: "u16 \<Rightarrow> 's cos_lock \<Rightarrow> bool" where
  "will_release o' S \<longleftrightarrow> atom S = \<lparr>at_owner = o', at_contested = 1\<rparr> \<or> pcs S o' = Srv_release"

text \<open>
  What the thread \<open>t\<close> can rely on while it contends with the thread \<open>o'\<close>, for a run of \<open>k\<close> steps,
  \<open>ws\<close> being the waiting threads and \<open>d\<close> how far the lock is behind at the server.
\<close>

definition pair_ok :: "nat \<Rightarrow> u16 \<Rightarrow> u16 \<Rightarrow> u16 list \<Rightarrow> nat \<Rightarrow> 's cos_lock \<Rightarrow> bool" where
  "pair_ok k t o' ws d S \<longleftrightarrow>
     (contending (pcs S t) \<longrightarrow> \<not> contending (pcs S o')) \<and> (synced (pcs S t) \<longrightarrow> d \<le> k) \<and>
     (marked (pcs S t) \<longrightarrow> d = 0 \<longrightarrow> will_release o' S) \<and>
     (pcs S t = Blocked \<longrightarrow> (t \<in> set ws \<and> will_release o' S) \<or> (t \<notin> set ws \<and> pcs S o' = Rel_wake t))"

lemma pair_okI:
  assumes "contending (pcs S t) \<Longrightarrow> \<not> contending (pcs S o')" "synced (pcs S t) \<Longrightarrow> d \<le> k"
    and "marked (pcs S t) \<Longrightarrow> d = 0 \<Longrightarrow> will_release o' S"
    and "pcs S t = Blocked \<Longrightarrow> (t \<in> set ws \<and> will_release o' S) \<or> (t \<notin> set ws \<and> pcs S o' = Rel_wake t)"
  shows "pair_ok k t o' ws d S"
  using assms unfolding pair_ok_def by blast

lemma pair_okD:
  assumes "pair_ok k t o' ws d S"
  shows "contending (pcs S t) \<Longrightarrow> \<not> contending (pcs S o')" "synced (pcs S t) \<Longrightarrow> d \<le> k"
    and "marked (pcs S t) \<Longrightarrow> d = 0 \<Longrightarrow> will_release o' S"
    and "pcs S t = Blocked \<Longrightarrow> (t \<in> set ws \<and> will_release o' S) \<or> (t \<notin> set ws \<and> pcs S o' = Rel_wake t)"
  using assms unfolding pair_ok_def by blast+

definition only_two :: "u16 \<Rightarrow> u16 \<Rightarrow> 's cos_lock \<Rightarrow> bool" where
  "only_two t o' S \<longleftrightarrow> (\<forall>u. u \<noteq> t \<longrightarrow> u \<noteq> o' \<longrightarrow> pcs S u = Idle)"

lemma owner_other:
  assumes "word_ok S" "only_two t o' S" "\<not> owning (pcs S t)" "t \<noteq> 0" "at_owner (atom S) \<noteq> 0"
  shows "at_owner (atom S) = o'" "owning (pcs S o')"
proof -
  have t: "at_owner (atom S) \<noteq> t" using word_okD(1) [OF assms(1,4)] assms(3) by auto
  have "owning (pcs S (at_owner (atom S)))" using word_okD(1) [OF assms(1,5)] by simp
  then show "at_owner (atom S) = o'" using assms(2) t unfolding only_two_def by (metis owning.simps(6))
  with \<open>owning (pcs S (at_owner (atom S)))\<close> show "owning (pcs S o')" by simp
qed

lemma not_both: "contending p \<Longrightarrow> \<not> owning p" "synced p \<Longrightarrow> contending p" "marked p \<Longrightarrow> synced p"
  by (cases p; simp)+

text \<open>The thread that makes the step.\<close>

context live_lock_service begin

abbreviation "pair_inv k t o' S \<equiv> inv_ok S \<and> only_two t o' S \<and> present (lock_server S) \<and>
  pair_ok k t o' (waits (lock_server S)) (behind (lock_server S)) S \<and> pair_ok k o' t (waits (lock_server S)) (behind (lock_server S)) S"

text \<open>Steps that neither write the word nor call the server.\<close>

lemma pair_goto:
  assumes I: "pair_inv k t o' S" and t: "t \<noteq> 0" "o' \<noteq> 0" "t \<noteq> o'" and p0: "pcs S t \<noteq> Blocked" "pcs S t \<noteq> Srv_release" "\<And>u. pcs S t \<noteq> Rel_wake u"
    and p: "p \<noteq> Blocked" "contending p \<Longrightarrow> contending (pcs S t) \<or> owning (pcs S o')" "synced p \<Longrightarrow> synced (pcs S t)"
      "marked p \<Longrightarrow> behind (lock_server S) = 0 \<Longrightarrow> will_release o' S"
  shows "only_two t o' (goto t p S) \<and> pair_ok (Suc k) t o' (waits (lock_server S)) (behind (lock_server S)) (goto t p S) \<and>
    pair_ok (Suc k) o' t (waits (lock_server S)) (behind (lock_server S)) (goto t p S)"
proof -
  have w: "will_release o' (goto t p S) = will_release o' S" "will_release t S \<Longrightarrow> will_release t (goto t p S)"
    using t(3) p0 by (auto simp: will_release_def)
  have Jt: "pair_ok k t o' (waits (lock_server S)) (behind (lock_server S)) S" and Jo: "pair_ok k o' t (waits (lock_server S)) (behind (lock_server S)) S"
    using I by auto
  have pcs: "pcs (goto t p S) t = p" "pcs (goto t p S) o' = pcs S o'" using t(3) by auto
  have nc: "\<not> contending (pcs S o')" if "contending p" using p(2) [OF that] pair_okD(1) [OF Jt] not_both(1) by blast
  have "pair_ok (Suc k) t o' (waits (lock_server S)) (behind (lock_server S)) (goto t p S)"
  proof (rule pair_okI)
    show "contending (pcs (goto t p S) t) \<Longrightarrow> \<not> contending (pcs (goto t p S) o')" using nc pcs by simp
    show "synced (pcs (goto t p S) t) \<Longrightarrow> behind (lock_server S) \<le> Suc k" using p(3) pair_okD(2) [OF Jt] pcs by simp
    show "marked (pcs (goto t p S) t) \<Longrightarrow> behind (lock_server S) = 0 \<Longrightarrow> will_release o' (goto t p S)" using p(4) pcs w(1) by simp
  qed (use p(1) pcs in simp)
  moreover have "pair_ok (Suc k) o' t (waits (lock_server S)) (behind (lock_server S)) (goto t p S)"
  proof (rule pair_okI)
    show "contending (pcs (goto t p S) o') \<Longrightarrow> \<not> contending (pcs (goto t p S) t)" using nc pcs by auto
    show "synced (pcs (goto t p S) o') \<Longrightarrow> behind (lock_server S) \<le> Suc k" using pair_okD(2) [OF Jo] pcs by simp
    show "marked (pcs (goto t p S) o') \<Longrightarrow> behind (lock_server S) = 0 \<Longrightarrow> will_release t (goto t p S)" using pair_okD(3) [OF Jo] pcs w(2) by simp
    show "pcs (goto t p S) o' = Blocked \<Longrightarrow> (o' \<in> set (waits (lock_server S)) \<and> will_release t (goto t p S)) \<or>
        (o' \<notin> set (waits (lock_server S)) \<and> pcs (goto t p S) t = Rel_wake o')"
      using pair_okD(4) [OF Jo] pcs(2) w(2) p0(3) by auto
  qed
  moreover have "only_two t o' (goto t p S)" using I by (auto simp: only_two_def)
  ultimately show ?thesis by blast
qed

text \<open>Steps of a contending thread: the other one does not contend, whatever happens to the word and the server.\<close>

lemma pair_contend:
  assumes I: "pair_inv k t o' S" and c: "contending (pcs S t)" and S': "pcs S' o' = pcs S o'"
    and p: "synced (pcs S' t) \<Longrightarrow> d' \<le> Suc k" "marked (pcs S' t) \<Longrightarrow> d' = 0 \<Longrightarrow> will_release o' S'"
      "pcs S' t = Blocked \<Longrightarrow> t \<in> set ws' \<and> will_release o' S'"
  shows "pair_ok (Suc k) t o' ws' d' S' \<and> pair_ok (Suc k) o' t ws' d' S'"
proof -
  have n: "\<not> contending (pcs S' o')" using pair_okD(1) [of k t o'] I c S' by auto
  then have "pcs S' o' \<noteq> Blocked" "\<not> synced (pcs S' o')" "\<not> marked (pcs S' o')" using not_both(2,3) by auto
  then show ?thesis using n p by (auto intro!: pair_okI)
qed

lemma only_two_upd: "only_two t o' S \<Longrightarrow> pcs S' = (pcs S)(t := p) \<Longrightarrow> only_two t o' S'"
  by (auto simp: only_two_def)

lemma pair_contention:
  assumes I: "pair_inv k t o' S" and t: "t \<noteq> 0" "o' \<noteq> 0" "t \<noteq> o'" and c: "contending (pcs S t)" "pcs S t \<noteq> Blocked"
    and s: "S' = lock_take_contention ptake stake t (pcs S t) S"
  shows "only_two t o' S' \<and> present (lock_server S') \<and>
    pair_ok (Suc k) t o' (waits (lock_server S')) (behind (lock_server S')) S' \<and> pair_ok (Suc k) o' t (waits (lock_server S')) (behind (lock_server S')) S'"
proof -
  have wd: "word_ok S" and pr: "present (lock_server S)" and two: "only_two t o' S"
    and Jt: "pair_ok k t o' (waits (lock_server S)) (behind (lock_server S)) S" using I by auto
  have no: "\<not> owning (pcs S t)" using c(1) not_both(1) by blast
  note other = owner_other [OF wd two no t(1)]
  have con: "will_release o' S" if "at_contested (atom S) \<noteq> 0"
  proof -
    have "at_owner (atom S) \<noteq> 0" "at_contested (atom S) = 1" using wd that by (auto simp: word_ok_def)
    then show ?thesis using other(1) by (cases "atom S") (auto simp: will_release_def)
  qed
  have wr: "will_release o' (goto t p S) = will_release o' S" "will_release o' (goto t p (S\<lparr>lock_server := x\<rparr>)) = will_release o' S" for p x
    using t(3) by (auto simp: will_release_def)
  have d: "synced (pcs S t) \<Longrightarrow> behind (lock_server S) \<le> Suc k" using pair_okD(2) [OF Jt] by simp
  note con_rule = pair_contend [OF I c(1)]
  show ?thesis
  proof (cases "pcs S t")
    case (Pretake v)
    obtain r x where r: "ptake (at_owner v) (lock_server S) = (r, x)" by (rule prod.exhaust)
    have "present x" using present_ptake [OF pr r] .
    moreover have "r = 0 \<Longrightarrow> behind x = 0" using ptake_behind r by blast
    ultimately show ?thesis
      using con_rule [of S' "behind x" "waits x"] t(3) r Pretake only_two_upd [OF two, of S'] unfolding s
      by (auto simp: lock_take_contention_def)
  next
    case (Check_owner v)
    then show ?thesis
      using con_rule [of S' "behind (lock_server S)" "waits (lock_server S)"] t(3) d pr only_two_upd [OF two, of S'] unfolding s
      by (auto simp: lock_take_contention_def)
  next
    case (Check_contested v)
    then show ?thesis
      using con_rule [of S' "behind (lock_server S)" "waits (lock_server S)"] t(3) d pr con wr(1) only_two_upd [OF two, of S'] unfolding s
      by (auto simp: lock_take_contention_def)
  next
    case (Mark_contested v)
    have "at_owner v = o'" if "atom S = v" using other(1) word_okD(2) [OF wd t(1)] Mark_contested that by auto
    then show ?thesis
      using con_rule [of S' "behind (lock_server S)" "waits (lock_server S)"] t(3) d pr only_two_upd [OF two, of S'] Mark_contested unfolding s
      by (auto simp: lock_take_contention_def will_release_def)
  next
    case (Assert_contested v)
    then show ?thesis
      using con_rule [of S' "behind (lock_server S)" "waits (lock_server S)"] t(3) d pr con wr(1) only_two_upd [OF two, of S'] unfolding s
      by (auto simp: lock_take_contention_def)
  next
    case (Srv_take v)
    have nb: "t \<notin> set (waits (lock_server S))" using queue_okD(3) [of "waits (lock_server S)" "pcs S" t] I Srv_take by auto
    then obtain x y where x: "stake t (lock_server S) = Some (x, y)" using stake_None [of t "lock_server S"] by auto
    have py: "present y" using present_stake [OF pr x] .
    show ?thesis
    proof (cases x)
      case (Answer a)
      then show ?thesis
        using con_rule [of S' "behind y" "waits y"] t(3) Srv_take x py only_two_upd [OF two, of S'] unfolding s
        by (auto simp: lock_take_contention_def)
    next
      case Sleep
      have "waits y = t # waits (lock_server S)" "behind (lock_server S) = 0" using stake_sleep x Sleep by auto
      then show ?thesis
        using con_rule [of S' "behind y" "waits y"] t(3) Srv_take x py wr(2) pair_okD(3) [OF Jt] Sleep only_two_upd [OF two, of S'] unfolding s
        by (auto simp: lock_take_contention_def)
    qed
  qed (use c in auto)
qed

end

lemma only_two_blocked: "only_two t o' S \<Longrightarrow> pcs S u = Blocked \<Longrightarrow> pcs S t \<noteq> Blocked \<Longrightarrow> u = o'"
  by (cases "u = t"; cases "u = o'") (auto simp: only_two_def)

context live_lock_service begin

text \<open>The thread takes the free lock.\<close>

lemma pair_take:
  assumes I: "pair_inv k t o' S" and t: "t \<noteq> 0" "o' \<noteq> 0" "t \<noteq> o'" and c: "pcs S t = Take_cas v" "atom S = v"
    and S': "S' = goto t Take_assert (S\<lparr>atom := a\<rparr>)"
  shows "only_two t o' S' \<and> pair_ok (Suc k) t o' (waits (lock_server S)) (behind (lock_server S)) S' \<and>
    pair_ok (Suc k) o' t (waits (lock_server S)) (behind (lock_server S)) S'"
proof -
  have Jo: "pair_ok k o' t (waits (lock_server S)) (behind (lock_server S)) S" using I by simp
  have "at_owner (atom S) = 0" using word_okD(2) [of S t] I t(1) c by auto
  then have nw: "\<not> will_release t S" using c(1) t(1) by (auto simp: will_release_def)
  have pcs: "pcs S' t = Take_assert" "pcs S' o' = pcs S o'" using t(3) S' by auto
  have "pair_ok (Suc k) t o' (waits (lock_server S)) (behind (lock_server S)) S'" using pcs by (auto intro!: pair_okI)
  moreover have "pair_ok (Suc k) o' t (waits (lock_server S)) (behind (lock_server S)) S'"
  proof (rule pair_okI)
    show "synced (pcs S' o') \<Longrightarrow> behind (lock_server S) \<le> Suc k" using pair_okD(2) [OF Jo] pcs by simp
    show "marked (pcs S' o') \<Longrightarrow> behind (lock_server S) = 0 \<Longrightarrow> will_release t S'" using pair_okD(3) [OF Jo] pcs nw by simp
    show "pcs S' o' = Blocked \<Longrightarrow> (o' \<in> set (waits (lock_server S)) \<and> will_release t S') \<or> (o' \<notin> set (waits (lock_server S)) \<and> pcs S' t = Rel_wake o')"
      using pair_okD(4) [OF Jo] pcs nw c(1) by auto
  qed (use pcs in simp)
  moreover have "only_two t o' S'" using I S' by (auto simp: only_two_def)
  ultimately show ?thesis by blast
qed

text \<open>The thread gives the lock up: uncontended, or about to call the server.\<close>

lemma pair_drop:
  assumes I: "pair_inv k t o' S" and t: "t \<noteq> 0" "o' \<noteq> 0" "t \<noteq> o'"
    and c: "(pcs S t = Rel_cas v \<and> p = Rel_assert \<and> at_contested v = 0) \<or> (pcs S t = Rel_contested v \<and> p = Srv_release)" "atom S = v"
    and S': "S' = goto t p (S\<lparr>atom := a\<rparr>)"
  shows "only_two t o' S' \<and> pair_ok (Suc k) t o' (waits (lock_server S)) (behind (lock_server S)) S' \<and>
    pair_ok (Suc k) o' t (waits (lock_server S)) (behind (lock_server S)) S'"
proof -
  have Jo: "pair_ok k o' t (waits (lock_server S)) (behind (lock_server S)) S" using I by simp
  have w: "will_release t S \<Longrightarrow> will_release t S'" using c S' by (auto simp: will_release_def)
  have pcs: "pcs S' t = p" "pcs S' o' = pcs S o'" "\<not> contending p" using t(3) S' c(1) by auto
  have np: "\<not> synced p" "\<not> marked p" "p \<noteq> Blocked" using c(1) by auto
  have "pair_ok (Suc k) t o' (waits (lock_server S)) (behind (lock_server S)) S'" using pcs np by (auto intro!: pair_okI)
  moreover have "pair_ok (Suc k) o' t (waits (lock_server S)) (behind (lock_server S)) S'"
  proof (rule pair_okI)
    show "synced (pcs S' o') \<Longrightarrow> behind (lock_server S) \<le> Suc k" using pair_okD(2) [OF Jo] pcs by simp
    show "marked (pcs S' o') \<Longrightarrow> behind (lock_server S) = 0 \<Longrightarrow> will_release t S'" using pair_okD(3) [OF Jo] pcs w by simp
    show "pcs S' o' = Blocked \<Longrightarrow> (o' \<in> set (waits (lock_server S)) \<and> will_release t S') \<or> (o' \<notin> set (waits (lock_server S)) \<and> pcs S' t = Rel_wake o')"
      using pair_okD(4) [OF Jo] pcs w c(1) by auto
  qed (use pcs in simp)
  moreover have "only_two t o' S'" using I S' by (auto simp: only_two_def)
  ultimately show ?thesis by blast
qed

text \<open>The thread calls the server, which wakes the other one if it waits.\<close>

lemma pair_release:
  assumes I: "pair_inv k t o' S" and t: "t \<noteq> 0" "o' \<noteq> 0" "t \<noteq> o'" and c: "pcs S t = Srv_release" and k: "k + 1 < 2 ^ 64"
    and S': "S' = lock_release_contention srel t Srv_release S"
  shows "only_two t o' S' \<and> present (lock_server S') \<and>
    pair_ok (Suc k) t o' (waits (lock_server S')) (behind (lock_server S')) S' \<and> pair_ok (Suc k) o' t (waits (lock_server S')) (behind (lock_server S')) S'"
proof -
  let ?ws = "waits (lock_server S)"
  have pr: "present (lock_server S)" and two: "only_two t o' S" and q: "queue_ok ?ws (pcs S)"
    and Jo: "pair_ok k o' t ?ws (behind (lock_server S)) S" using I by auto
  obtain r ts s where r: "srel (lock_server S) = (r, ts, s)" by (metis prod_cases3)
  have s: "present s" "r = 0" "ts = ?ws" "waits s = []" using present_srel [OF pr r] srel_waits [OF r] by auto
  have sub: "set ?ws \<subseteq> {o'}" using queue_okD(3) [OF q] only_two_blocked [OF two] c by auto
  have ws: "?ws = (if pcs S o' = Blocked then [o'] else [])"
  proof (cases "pcs S o' = Blocked")
    case True
    then have "o' \<in> set ?ws" using pair_okD(4) [OF Jo] c by auto
    then show ?thesis using True sub queue_okD(1) [OF q] by (cases ?ws rule: rev_cases) (auto simp: distinct_singleton subset_singleton_iff)
  next
    case False
    then have "o' \<notin> set ?ws" using queue_okD(3) [OF q, of o'] by blast
    then show ?thesis using False sub by (cases ?ws) auto
  qed
  have step: "S' = goto t (if pcs S o' = Blocked then Rel_wake o' else Idle) (S\<lparr>lock_server := s\<rparr>)"
    unfolding S' using r s(2,3) ws t(3) by (simp add: lock_release_contention_def Let_def wake_def)
  have pcs: "pcs S' o' = pcs S o'" "pcs S' t = (if pcs S o' = Blocked then Rel_wake o' else Idle)" "lock_server S' = s"
    using step t(3) by auto
  have "pair_ok (Suc k) t o' (waits s) (behind s) S'" using pcs by (auto intro!: pair_okI split: if_splits)
  moreover have "pair_ok (Suc k) o' t (waits s) (behind s) S'"
  proof (rule pair_okI)
    have b: "behind s = Suc (behind (lock_server S)) \<and> behind (lock_server S) \<le> k" if "synced (pcs S' o')"
      using pair_okD(2) [OF Jo] that pcs(1) srel_behind [of "lock_server S" ts s] r s(2) k by simp
    show "synced (pcs S' o') \<Longrightarrow> behind s \<le> Suc k" using b by simp
    show "marked (pcs S' o') \<Longrightarrow> behind s = 0 \<Longrightarrow> will_release t S'" using b not_both(3) by auto
    show "pcs S' o' = Blocked \<Longrightarrow> (o' \<in> set (waits s) \<and> will_release t S') \<or> (o' \<notin> set (waits s) \<and> pcs S' t = Rel_wake o')"
      using pcs s(4) by simp
  qed (use pcs in auto)
  moreover have "only_two t o' S'" using two step by (auto simp: only_two_def)
  ultimately show ?thesis using s(1) pcs(3) by simp
qed

lemma pair_wake:
  assumes I: "pair_inv k t o' S" and t: "t \<noteq> 0" "o' \<noteq> 0" "t \<noteq> o'" and c: "pcs S t = Rel_wake u"
    and S': "S' = goto t Idle (wake [u] S)"
  shows "only_two t o' S' \<and> pair_ok (Suc k) t o' (waits (lock_server S)) (behind (lock_server S)) S' \<and>
    pair_ok (Suc k) o' t (waits (lock_server S)) (behind (lock_server S)) S'"
proof -
  have q: "queue_ok (waits (lock_server S)) (pcs S)" and two: "only_two t o' S" using I by auto
  have "pcs S u = Blocked" using queue_okD(5) [OF q c] .
  then have "u = o'" using only_two_blocked [OF two] c by simp
  then have pcs: "pcs S' o' = Take_start" "pcs S' t = Idle" using S' t(3) by auto
  then have "pair_ok (Suc k) t o' (waits (lock_server S)) (behind (lock_server S)) S' \<and>
      pair_ok (Suc k) o' t (waits (lock_server S)) (behind (lock_server S)) S'" by (auto intro!: pair_okI)
  moreover have "only_two t o' S'" using two S' \<open>u = o'\<close> by (auto simp: only_two_def)
  ultimately show ?thesis by blast
qed

end

context live_lock_service begin

lemma pair_sym: "pair_inv k t o' S \<longleftrightarrow> pair_inv k o' t S"
  by (auto simp: only_two_def)

lemma pair_step:
  assumes I: "pair_inv k t o' S" and t: "t \<noteq> 0" "o' \<noteq> 0" "t \<noteq> o'" and k: "k + 1 < 2 ^ 64" and s: "run_step t S = Some S'"
  shows "pair_inv (Suc k) t o' S'"
proof -
  have ok: "inv_ok S'" by (rule step_ok [OF _ t(1) s]) (use I in simp)
  have wd: "word_ok S" and pr: "present (lock_server S)" and two: "only_two t o' S" using I by auto
  have go: "pair_inv (Suc k) t o' S'" if S': "S' = goto t p S"
    and p0: "pcs S t \<noteq> Blocked" "pcs S t \<noteq> Srv_release" "\<And>u. pcs S t \<noteq> Rel_wake u"
    and p: "p \<noteq> Blocked" "contending p \<Longrightarrow> owning (pcs S o')" "\<not> synced p" "\<not> marked p" for p
    using pair_goto [OF I t p0, of p] p ok pr S' by auto
  have oth: "owning (pcs S o')" if "\<not> owning (pcs S t)" "at_owner (atom S) \<noteq> 0"
    by (rule owner_other(2) [OF wd two that(1) t(1) that(2)])
  show ?thesis
  proof (cases "contending (pcs S t)")
    case True
    then have nb: "pcs S t \<noteq> Blocked" "S' = lock_take_contention ptake stake t (pcs S t) S" using s by (auto simp: lock_step_def split: pc.splits)
    from pair_contention [OF I t True nb] ok show ?thesis by blast
  next
    case nc: False
    show ?thesis
    proof (cases "pcs S t")
      case (Take_cas v)
      have e: "S' = lock_take_cas t v S" using s Take_cas by (simp add: lock_step_def)
      show ?thesis
      proof (cases "atom S = v")
        case True
        then show ?thesis using pair_take [OF I t Take_cas True, of S'] e ok pr by (simp add: lock_take_cas_def)
      qed (use go [of Take_start] Take_cas e in \<open>simp add: lock_take_cas_def\<close>)
    next
      case (Rel_cas v)
      have e: "S' = lock_release_cas t v S" using s Rel_cas by (simp add: lock_step_def)
      have v: "at_contested v = 0" using word_okD(2) [OF wd t(1)] Rel_cas by simp
      show ?thesis
      proof (cases "atom S = v")
        case True
        then show ?thesis using pair_drop [OF I t, of v Rel_assert S'] Rel_cas v e ok pr by (simp add: lock_release_cas_def)
      qed (use go [of Rel_start] Rel_cas e in \<open>simp add: lock_release_cas_def\<close>)
    next
      case (Rel_contested v)
      have v: "atom S = v" using word_okD(2) [OF wd t(1)] Rel_contested by simp
      then have e: "S' = goto t Srv_release (S\<lparr>atom := \<lparr>at_owner = 0, at_contested = 0\<rparr>\<rparr>)"
        using s Rel_contested by (simp add: lock_step_def lock_release_contention_def)
      from pair_drop [OF I t _ v e] Rel_contested show ?thesis using e ok pr by simp
    next
      case Srv_release
      then have e: "S' = lock_release_contention srel t Srv_release S" using s by (simp add: lock_step_def)
      from pair_release [OF I t Srv_release k e] ok show ?thesis by blast
    next
      case (Rel_wake u)
      then have e: "S' = goto t Idle (wake [u] S)" using s by (simp add: lock_step_def lock_release_contention_def)
      from pair_wake [OF I t Rel_wake e] ok pr show ?thesis using e by simp
    next
      case Take_start
      have e: "S' = lock_take_step t S" using s Take_start by (simp add: lock_step_def)
      have o: "at_owner (atom S) \<noteq> t" using word_okD(1) [OF wd t(1)] Take_start by auto
      then show ?thesis
        using go [of "Pretake (atom S)"] go [of "Take_cas (atom S)"] oth Take_start e by (auto simp: lock_take_step_def Let_def split: if_splits)
    next
      case Rel_start
      have e: "S' = lock_release_step t S" using s Rel_start by (simp add: lock_step_def)
      have o: "at_owner (atom S) = t" using word_okD(1) [OF wd t(1)] Rel_start by auto
      then show ?thesis
        using go [of "Rel_contested (atom S)"] go [of "Rel_cas (atom S)"] Rel_start e by (auto simp: lock_release_step_def Let_def split: if_splits)
    next
      case Take_assert
      have "at_owner (atom S) = t" using word_okD(1) [OF wd t(1)] Take_assert by simp
      then have "S' = goto t Held S" using s Take_assert by (simp add: lock_step_def lock_take_assert_def)
      then show ?thesis by (rule go) (simp_all add: Take_assert)
    next
      case Rel_assert
      have "at_owner (atom S) \<noteq> t" using word_okD(1) [OF wd t(1)] Rel_assert by simp
      then have "S' = goto t Idle S" using s Rel_assert by (simp add: lock_step_def lock_release_assert_def)
      then show ?thesis by (rule go) (simp_all add: Rel_assert)
    next
      case Idle
      then have "S' = goto t Take_start S" using s by (simp add: lock_step_def)
      then show ?thesis by (rule go) (simp_all add: Idle)
    next
      case Held
      then have "S' = goto t Rel_start S" using s by (simp add: lock_step_def)
      then show ?thesis by (rule go) (simp_all add: Held)
    qed (use s nc in \<open>auto simp: lock_step_def\<close>)
  qed
qed

lemma pair_run:
  assumes "pair_inv k a b S" "a \<noteq> 0" "b \<noteq> 0" "a \<noteq> b" "set ts \<subseteq> {a, b}" "k + length ts < 2 ^ 64"
    and "lock_run ptake stake srel ts S = Some S'"
  shows "pair_inv (k + length ts) a b S'"
  using assms
proof (induction ts arbitrary: k S)
  case (Cons t ts)
  then obtain S1 where s: "run_step t S = Some S1" "lock_run ptake stake srel ts S1 = Some S'" by (auto simp: bind_eq_Some_conv)
  have k: "k + 1 < 2 ^ 64" using Cons.prems(6) by simp
  have "pair_inv (Suc k) a b S1"
  proof (cases "t = a")
    case True
    then show ?thesis using pair_step [OF Cons.prems(1-4) k] s(1) by simp
  next
    case False
    then have sb: "run_step b S = Some S1" using Cons.prems(5) s(1) by auto
    have "pair_inv k b a S" by (rule pair_sym [THEN iffD1, OF Cons.prems(1)])
    then have "pair_inv (Suc k) b a S1" by (rule pair_step [OF _ Cons.prems(3,2) Cons.prems(4) [symmetric] k sb])
    then show ?thesis by (rule pair_sym [THEN iffD1])
  qed
  then have "pair_inv (Suc k + length ts) a b S'" by (rule Cons.IH [OF _ Cons.prems(2-4) _ _ s(2)]) (use Cons.prems(5,6) in auto)
  then show ?case by simp
qed simp

lemma pair_init: "waits s = [] \<Longrightarrow> present s \<Longrightarrow> pair_inv 0 a b (lock_init s)"
  using init_ok [of s] by (auto simp: lock_init_def only_two_def pair_ok_def)

end

section \<open>Properties\<close>

text \<open>The lock as the server of \<open>LockServer\<close> provides it, in the component \<open>spd\<close> with the id \<open>lid\<close>.\<close>

abbreviation two_phase_run :: "int \<Rightarrow> u32 \<Rightarrow> u16 list \<Rightarrow> lock_srv cos_lock \<Rightarrow> lock_srv cos_lock option" where
  "two_phase_run spd lid \<equiv> lock_run (srv_lock_component_pretake spd lid) (srv_lock_component_take spd lid) (srv_lock_component_release spd lid)"

text \<open>A server that has made one lock, with the id 1, for the component 3.\<close>

definition one_lock :: lock_srv where
  "one_lock = snd (srv_lock_component_alloc True 3 \<lparr>next_lock_id = 1, locks = [], generation = 0\<rparr>)"

lemma one_lock_simps:
  "one_lock = \<lparr>next_lock_id = 2, locks = [\<lparr>ml_owner = 0, ml_spd = 3, ml_lock_id = 1, ml_b_thds = [], ml_gen_num = 0\<rparr>], generation = 0\<rparr>"
  by (simp add: one_lock_def srv_lock_component_alloc_def lock_alloc_def Let_def)

lemma one_lock_fresh: "waiters 3 1 one_lock = []" "lock_find 1 3 one_lock \<noteq> None"
  by (simp_all add: one_lock_simps waiters_def lock_find_def)

lemmas run_simps = lock_step_def lock_take_step_def lock_take_cas_def lock_take_assert_def lock_take_contention_def lock_release_step_def lock_release_cas_def lock_release_assert_def
  lock_release_contention_def goto_def wake_def Let_def srv_lock_component_pretake_def srv_lock_component_take_def
  srv_lock_component_release_def lock_find_def lock_put_def lock_is_thd_blocked_def lock_init_def one_lock_simps

text \<open>
  C5: mutual exclusion. However many threads use a lock, and wherever they are preempted, at most
  one of them is between its take and its release; it is the one the word names.
\<close>

theorem two_phase_mutual_exclusion:
  assumes "waiters spd lid s = []" "0 \<notin> set ts" "two_phase_run spd lid ts (lock_init s) = Some S"
    and "t \<noteq> 0" "t' \<noteq> 0" "owning (pcs S t)" "owning (pcs S t')"
  shows "t = t' \<and> at_owner (atom S) = t"
proof -
  have "word_ok S" using two_phase.run_ok [OF two_phase.init_ok [OF assms(1)] assms(2,3)] by simp
  then show ?thesis using word_okD(1) [of S t] word_okD(1) [of S t'] assms(4-7) by auto
qed

theorem two_phase_mutual_exclusion_witness:
  "\<exists>S. two_phase_run 3 1 [2, 2, 2, 2, 1, 1, 1, 1] (lock_init one_lock) = Some S \<and> pcs S 2 = Held \<and> at_owner (atom S) = 2"
proof -
  obtain S where S: "two_phase_run 3 1 [2, 2, 2, 2, 1, 1, 1, 1] (lock_init one_lock) = Some S" "pcs S 2 = Held"
    by (simp add: run_simps)
  have z: "0 \<notin> set [2, 2, 2, 2, 1, 1, 1, 1 :: u16]" by simp
  have "at_owner (atom S) = 2"
    using two_phase_mutual_exclusion [OF one_lock_fresh(1) z S(1), of 2 2] S(2) by simp
  then show ?thesis using S by blast
qed

text \<open>
  C18: the assertions of the code. Of the assertions and \<^verbatim>\<open>BUG\<close>s on the state of the lock in \<^verbatim>\<open>__lock_take\<close>, \<^verbatim>\<open>__lock_release\<close>,
  their contended paths and the server, only one can fail: the one that the word is still contested
  right after the thread has marked it so, which is not true any more if the owner releases the lock
  in between. The witness is such a run.
\<close>

theorem two_phase_assertions:
  assumes "waiters spd lid s = []" "0 \<notin> set ts" "two_phase_run spd lid ts (lock_init s) = Some S" "t \<noteq> 0" "pcs S t = Stopped f"
  shows "f = Contested_lost"
proof -
  have "word_ok S" using two_phase.run_ok [OF two_phase.init_ok [OF assms(1)] assms(2,3)] by simp
  then show ?thesis using word_okD(2) [of S t] assms(4,5) by simp
qed

theorem two_phase_assertions_witness:
  "\<exists>S. two_phase_run 3 1 [2, 2, 2, 2, 1, 1, 1, 1, 1, 1, 2, 2, 2, 1] (lock_init one_lock) = Some S \<and> pcs S 1 = Stopped Contested_lost"
proof -
  obtain S f where S: "two_phase_run 3 1 [2, 2, 2, 2, 1, 1, 1, 1, 1, 1, 2, 2, 2, 1] (lock_init one_lock) = Some S" "pcs S 1 = Stopped f"
    by (simp add: run_simps)
  have z: "0 \<notin> set [2, 2, 2, 2, 1, 1, 1, 1, 1, 1, 2, 2, 2, 1 :: u16]" by simp
  from two_phase_assertions [OF one_lock_fresh(1) z S(1) _ S(2)] S show ?thesis by simp
qed

text \<open>
  C13: between two threads no wakeup is lost. When a thread is blocked at the server, the other one
  owns the lock and will see that it is contested when it releases it, or is about to call the
  server, or is about to wake the thread. The bound on the length of the run is the width of the
  generation counter.
\<close>

theorem two_phase_two_threads_wake:
  assumes "lock_find lid spd s \<noteq> None" "waiters spd lid s = []" "a \<noteq> 0" "b \<noteq> 0" "a \<noteq> b" "set ts \<subseteq> {a, b}" "length ts < 2 ^ 64"
    and "two_phase_run spd lid ts (lock_init s) = Some S" "pcs S a = Blocked"
  shows "atom S = \<lparr>at_owner = b, at_contested = 1\<rparr> \<or> pcs S b = Srv_release \<or> pcs S b = Rel_wake a"
proof -
  have "pair_ok (0 + length ts) a b (waiters spd lid (lock_server S)) (lag spd lid (lock_server S)) S"
    using two_phase_live.pair_run [OF two_phase_live.pair_init [OF assms(2,1)] assms(3-6) _ assms(8)] assms(7) by simp
  from pair_okD(4) [OF this assms(9)] show ?thesis by (auto simp: will_release_def)
qed

theorem two_phase_two_threads_wake_witness:
  "\<exists>S. two_phase_run 3 1 [2, 2, 2, 2, 1, 1, 1, 1, 1, 1, 1, 1] (lock_init one_lock) = Some S \<and> pcs S 1 = Blocked \<and>
     (atom S = \<lparr>at_owner = 2, at_contested = 1\<rparr> \<or> pcs S 2 = Srv_release \<or> pcs S 2 = Rel_wake 1)"
proof -
  obtain S where S: "two_phase_run 3 1 [2, 2, 2, 2, 1, 1, 1, 1, 1, 1, 1, 1] (lock_init one_lock) = Some S" "pcs S 1 = Blocked"
    by (simp add: run_simps)
  from two_phase_two_threads_wake [OF one_lock_fresh(2,1) _ _ _ _ _ S] S show ?thesis by auto
qed

definition lost_wakeup_schedule :: "u16 list" where
  "lost_wakeup_schedule = [2, 2, 2, 2, 1, 1, 1, 1, 1, 1, 1, 2, 2, 2, 2, 3, 3, 3, 3, 2, 2, 2, 1, 3, 3, 3, 3, 2, 2, 2, 2, 2, 2, 2, 2]"


end
