(* ===== verification/Heap.thy ===== *)
theory Heap
  imports Prelude "HOL-Library.Multiset"
begin

text \<open>
  The binary heap of \<^verbatim>\<open>components/lib/heap.c\<close>: an array whose slots 1 to \<^verbatim>\<open>e-1\<close> are in use, a
  comparison and a callback that tells an entry where it is, both given by the client. What the
  entries look like is part of the world: the comparison reads it and the callback changes it. The
  theory shows that the operations keep the order and the positions, that they implement a bag with
  removal of a highest entry, and that no assertion in the code fails.
\<close>

section \<open>The code\<close>

record ('a, 'w) heap =
  he :: nat                                  \<comment> \<open>the end: the first slot that is not in use\<close>
  max_sz :: nat
  cmp :: "'a \<Rightarrow> 'a \<Rightarrow> 'w \<Rightarrow> bool"              \<comment> \<open>is the first at least the second?\<close>
  upd :: "'a \<Rightarrow> nat \<Rightarrow> 'w \<Rightarrow> 'w"
  arr :: "'a list"
  wrld :: 'w

definition tell :: "nat \<Rightarrow> ('a, 'w) heap \<Rightarrow> ('a, 'w) heap" where
  "tell i h = h\<lparr>wrld := upd h (arr h ! i) i (wrld h)\<rparr>"

definition swap_entries :: "nat \<Rightarrow> nat \<Rightarrow> ('a, 'w) heap \<Rightarrow> ('a, 'w) heap option" where
  "swap_entries a b h = do {
     assert_that (a < length (arr h) \<and> b < length (arr h));
     let t = arr h ! a;
     let h = h\<lparr>arr := (arr h)[a := arr h ! b]\<rparr>;
     let h = h\<lparr>arr := (arr h)[b := t]\<rparr>;
     Some (tell b (tell a h)) }"

partial_function (option) swap_down_loop :: "nat \<Rightarrow> ('a, 'w) heap \<Rightarrow> nat \<Rightarrow> (nat \<times> ('a, 'w) heap) option" where
  [code]: "swap_down_loop l h c =
     (if c \<le> l div 2 then do {
        let left = 2 * c;
        let right = 2 * c + 1;
        let n = (if right > l then left
                 else if cmp h (arr h ! left) (arr h ! right) (wrld h) then left else right);
        assert_that (n < he h);
        if cmp h (arr h ! c) (arr h ! n) (wrld h) then Some (c, h)
        else do {
          h \<leftarrow> swap_entries n c h;
          swap_down_loop l h n } }
      else Some (c, h))"

definition swap_down :: "('a, 'w) heap \<Rightarrow> nat \<Rightarrow> (nat \<times> ('a, 'w) heap) option" where
  "swap_down h c = do {
     assert_that (c \<noteq> 0);
     assert_that (c \<le> he h);
     swap_down_loop (he h - 1) h c }"

partial_function (option) swap_up_loop :: "('a, 'w) heap \<Rightarrow> nat \<Rightarrow> (nat \<times> ('a, 'w) heap) option" where
  [code]: "swap_up_loop h c =
     (if c > 1 then do {
        let p = c div 2;
        assert_that (p \<noteq> 0);
        if cmp h (arr h ! p) (arr h ! c) (wrld h) then Some (c, h)
        else do {
          h \<leftarrow> swap_entries p c h;
          swap_up_loop h p } }
      else Some (c, h))"

definition swap_up :: "('a, 'w) heap \<Rightarrow> nat \<Rightarrow> (nat \<times> ('a, 'w) heap) option" where
  "swap_up h c = do {
     assert_that (c \<le> he h);
     assert_that (c > 0);
     (c, h) \<leftarrow> swap_up_loop h c;
     assert_that (c \<noteq> 0);
     Some (c, h) }"

definition heapify :: "('a, 'w) heap \<Rightarrow> nat \<Rightarrow> (nat \<times> ('a, 'w) heap) option" where
  "heapify h c = do {
     (c, h) \<leftarrow> swap_up h c;
     swap_down h c }"

text \<open>
  \<open>mem\<close> is what \<^verbatim>\<open>malloc\<close> returns, \<^term>\<open>None\<close> being \<^verbatim>\<open>NULL\<close>; the theory reads the block as an array
  of \<^verbatim>\<open>max_sz + 1\<close> slots, of which the first is not used (see \<open>heap_alloc_too_small\<close> for its size).
\<close>

definition heap_alloc :: "'a list option \<Rightarrow> nat \<Rightarrow> ('a \<Rightarrow> 'a \<Rightarrow> 'w \<Rightarrow> bool) \<Rightarrow> ('a \<Rightarrow> nat \<Rightarrow> 'w \<Rightarrow> 'w) \<Rightarrow> 'w \<Rightarrow> ('a, 'w) heap option" where
  "heap_alloc mem sz c u w = (case mem of
     None \<Rightarrow> None
   | Some block \<Rightarrow> Some \<lparr>he = 1, max_sz = sz + 1, cmp = c, upd = u, arr = block, wrld = w\<rparr>)"

definition heap_add :: "('a, 'w) heap \<Rightarrow> 'a \<Rightarrow> (int \<times> ('a, 'w) heap) option" where
  "heap_add h new =
     (if max_sz h = he h then Some (-1, h)
      else do {
        let c = he h;
        assert_that (c < length (arr h));
        let h = tell c (h\<lparr>arr := (arr h)[c := new]\<rparr>);
        let h = h\<lparr>he := he h + 1\<rparr>;
        (c, h) \<leftarrow> heapify h c;
        Some (0, h) })"

definition heap_highest :: "('a, 'w) heap \<Rightarrow> ('a option \<times> ('a, 'w) heap) option" where
  "heap_highest h =
     (if he h = 1 then Some (None, h)
      else do {
        let r = arr h ! 1;
        let h = h\<lparr>he := he h - 1\<rparr>;
        let h = tell 1 (h\<lparr>arr := (arr h)[1 := arr h ! he h]\<rparr>);
        (c, h) \<leftarrow> swap_down h 1;
        Some (Some r, h\<lparr>wrld := upd h r 0 (wrld h)\<rparr>) })"

definition heap_peek :: "('a, 'w) heap \<Rightarrow> 'a option" where
  "heap_peek h = (if he h = 1 then None else Some (arr h ! 1))"

definition heap_adjust :: "('a, 'w) heap \<Rightarrow> nat \<Rightarrow> ('a, 'w) heap option" where
  "heap_adjust h c = do {
     assert_that (c < he h);
     assert_that (c > 0);
     (c, h) \<leftarrow> heapify h c;
     Some h }"

definition heap_remove :: "('a, 'w) heap \<Rightarrow> nat \<Rightarrow> ('a option \<times> ('a, 'w) heap) option" where
  "heap_remove h c = do {
     assert_that (c < he h);
     assert_that (c \<ge> 1);
     if he h = 1 then Some (None, h)
     else do {
       let r = arr h ! c;
       let h = h\<lparr>he := he h - 1\<rparr>;
       let h = h\<lparr>wrld := upd h r 0 (wrld h)\<rparr>;
       if c = he h then Some (Some r, h)
       else do {
         let h = tell c (h\<lparr>arr := (arr h)[c := arr h ! he h]\<rparr>);
         h \<leftarrow> heap_adjust h c;
         Some (Some r, h) } } }"

definition heap_size :: "('a, 'w) heap \<Rightarrow> nat" where
  "heap_size h = he h - 1"

section \<open>The order of the slots\<close>

definition heap_order :: "('a \<Rightarrow> 'a \<Rightarrow> bool) \<Rightarrow> nat \<Rightarrow> (nat \<Rightarrow> 'a) \<Rightarrow> bool" where
  "heap_order R e d \<longleftrightarrow> (\<forall>i. 1 < i \<longrightarrow> i < e \<longrightarrow> R (d (i div 2)) (d i))"

text \<open>In order but for the slot \<open>c\<close>, whose entry may have to go down, or up or down.\<close>

definition down_order :: "('a \<Rightarrow> 'a \<Rightarrow> bool) \<Rightarrow> nat \<Rightarrow> (nat \<Rightarrow> 'a) \<Rightarrow> nat \<Rightarrow> bool" where
  "down_order R e d c \<longleftrightarrow> (\<forall>i. 1 < i \<longrightarrow> i < e \<longrightarrow> i div 2 \<noteq> c \<longrightarrow> R (d (i div 2)) (d i)) \<and>
     (\<forall>i. 1 < c \<longrightarrow> i < e \<longrightarrow> i div 2 = c \<longrightarrow> R (d (c div 2)) (d i))"

definition up_order :: "('a \<Rightarrow> 'a \<Rightarrow> bool) \<Rightarrow> nat \<Rightarrow> (nat \<Rightarrow> 'a) \<Rightarrow> nat \<Rightarrow> bool" where
  "up_order R e d c \<longleftrightarrow> (\<forall>i. 1 < i \<longrightarrow> i < e \<longrightarrow> i \<noteq> c \<longrightarrow> i div 2 \<noteq> c \<longrightarrow> R (d (i div 2)) (d i)) \<and>
     (\<forall>i. 1 < c \<longrightarrow> i < e \<longrightarrow> i div 2 = c \<longrightarrow> R (d (c div 2)) (d i))"

lemma up_down: "up_order R e d c \<Longrightarrow> c \<le> 1 \<or> R (d (c div 2)) (d c) \<Longrightarrow> down_order R e d c"
  unfolding up_order_def down_order_def by auto

lemma up_step:
  assumes u: "up_order R e d c" and c: "1 < c" "c < e" and n: "\<not> R (d (c div 2)) (d c)" and tr: "transp R"
  shows "up_order R e (d(c div 2 := d c, c := d (c div 2))) (c div 2)"
proof -
  let ?p = "c div 2" and ?d = "d(c div 2 := d c, c := d (c div 2))"
  have p: "?p < c" "?p \<noteq> c" "0 < ?p" using c by auto
  have edge: "R (d (i div 2)) (d i)" if "1 < i" "i < e" "i \<noteq> c" "i div 2 \<noteq> c" for i
    using u that unfolding up_order_def by blast
  have bridge: "R (d ?p) (d i)" if "i < e" "i div 2 = c" for i using u that c unfolding up_order_def by blast
  have top: "R (d (?p div 2)) (d ?p)" if "1 < ?p" using edge [of ?p] that p c by simp
  show ?thesis
    unfolding up_order_def
  proof (intro conjI allI impI)
    fix i assume i: "1 < i" "i < e" "i \<noteq> ?p" "i div 2 \<noteq> ?p"
    then have "i \<noteq> c" by auto
    then show "R (?d (i div 2)) (?d i)" using i bridge [of i] edge [of i] by (cases "i div 2 = c") auto
  next
    fix i assume i: "1 < ?p" "i < e" "i div 2 = ?p"
    have pp: "?p div 2 < ?p" using i(1) by simp
    then have pp2: "?p div 2 \<noteq> ?p" "?p div 2 \<noteq> c" using p by auto
    show "R (?d (?p div 2)) (?d i)"
    proof (cases "i = c")
      case True
      then show ?thesis using top i(1) pp2 by simp
    next
      case False
      have "1 < i" "i \<noteq> ?p" using i p by auto
      moreover have "R (d ?p) (d i)" using edge [of i] i \<open>1 < i\<close> False p by simp
      ultimately show ?thesis using top i(1) pp2 False transpD [OF tr] by (metis fun_upd_other)
    qed
  qed
qed

lemma down_step:
  assumes d: "down_order R e d c" and n: "n = 2 * c \<or> n = 2 * c + 1" "0 < c" "n < e"
    and best: "\<And>i. i < e \<Longrightarrow> i div 2 = c \<Longrightarrow> i \<noteq> n \<Longrightarrow> R (d n) (d i)" and up: "R (d n) (d c)"
  shows "down_order R e (d(n := d c, c := d n)) n"
proof -
  have c: "n div 2 = c" "c < n" "1 < n" using n by auto
  have edge: "R (d (i div 2)) (d i)" if "1 < i" "i < e" "i div 2 \<noteq> c" for i using d that unfolding down_order_def by blast
  have bridge: "R (d (c div 2)) (d i)" if "1 < c" "i < e" "i div 2 = c" for i using d that unfolding down_order_def by blast
  show ?thesis
    unfolding down_order_def
  proof (intro conjI allI impI)
    fix i assume i: "1 < i" "i < e" "i div 2 \<noteq> n"
    consider (n) "i = n" | (c) "i = c" | (s) "i \<noteq> n" "i \<noteq> c" "i div 2 = c" | (o) "i \<noteq> n" "i \<noteq> c" "i div 2 \<noteq> c" by blast
    then show "R ((d(n := d c, c := d n)) (i div 2)) ((d(n := d c, c := d n)) i)"
    proof cases
      case c': c
      have "c div 2 \<noteq> c" "c div 2 \<noteq> n" using c n(2) by auto
      then show ?thesis using c' bridge [of n] i(1) n(3) c by auto
    qed (use c up best [of i] edge [of i] i in auto)
  next
    fix i assume i: "1 < n" "i < e" "i div 2 = n"
    then have "i \<noteq> n" "i \<noteq> c" "1 < i" using c by auto
    then show "R ((d(n := d c, c := d n)) (n div 2)) ((d(n := d c, c := d n)) i)" using c i edge [of i] by auto
  qed
qed

lemma down_done:
  assumes "down_order R e d c" "\<And>i. i < e \<Longrightarrow> 1 < i \<Longrightarrow> i div 2 = c \<Longrightarrow> R (d c) (d i)"
  shows "heap_order R e d"
  using assms unfolding down_order_def heap_order_def by blast

lemma order_replace:
  assumes o: "heap_order R e d" and tr: "transp R" and c: "c < e" and e: "e' \<le> e"
  shows "up_order R e' (d(c := x)) c"
proof -
  have edge: "R (d (i div 2)) (d i)" if "1 < i" "i < e" for i using o that unfolding heap_order_def by blast
  have "R (d (c div 2)) (d i)" if "1 < c" "i < e'" "i div 2 = c" for i
    using edge [of c] edge [of i] that c e transpD [OF tr, of "d (c div 2)" "d c" "d i"] by simp
  then show ?thesis unfolding up_order_def using edge e by fastforce
qed

lemma order_highest:
  assumes "heap_order R e d" "reflp R" "transp R"
  shows "1 \<le> i \<Longrightarrow> i < e \<Longrightarrow> R (d 1) (d i)"
proof (induction i rule: less_induct)
  case (less i)
  show ?case
  proof (cases "i = 1")
    case False
    then have "R (d 1) (d (i div 2))" using less.IH [of "i div 2"] less.prems by auto
    moreover have "R (d (i div 2)) (d i)" using assms(1) less.prems False unfolding heap_order_def by auto
    ultimately show ?thesis using assms(3) by (blast dest: transpD)
  qed (use assms(2) in \<open>simp add: reflpD\<close>)
qed

section \<open>What the operations keep\<close>

definition slots :: "('a, 'w) heap \<Rightarrow> 'a list" where
  "slots h = drop 1 (take (he h) (arr h))"

definition bag :: "('a, 'w) heap \<Rightarrow> 'a multiset" where
  "bag h = mset (slots h)"

text \<open>
  What the client has to provide: a total preorder, and a callback that stores the position of an
  entry and nothing the comparison depends on.
\<close>

locale heap_client =
  fixes c :: "'a \<Rightarrow> 'a \<Rightarrow> 'w \<Rightarrow> bool" and u :: "'a \<Rightarrow> nat \<Rightarrow> 'w \<Rightarrow> 'w" and pos :: "'w \<Rightarrow> 'a \<Rightarrow> nat"
  assumes c_total: "c a b w \<or> c b a w"
    and c_trans: "c a b w \<Longrightarrow> c b d w \<Longrightarrow> c a d w"
    and c_u: "c a b (u x i w) = c a b w"
    and pos_u: "pos (u x i w) = (pos w)(x := i)"

text \<open>The entries know their positions; and the operation only moves entries.\<close>

definition shape :: "('a \<Rightarrow> 'a \<Rightarrow> 'w \<Rightarrow> bool) \<Rightarrow> ('a \<Rightarrow> nat \<Rightarrow> 'w \<Rightarrow> 'w) \<Rightarrow> ('w \<Rightarrow> 'a \<Rightarrow> nat) \<Rightarrow> ('a, 'w) heap \<Rightarrow> bool" where
  "shape c u pos h \<longleftrightarrow> cmp h = c \<and> upd h = u \<and> 1 \<le> he h \<and> he h \<le> max_sz h \<and> length (arr h) = max_sz h \<and>
     (\<forall>i. 1 \<le> i \<longrightarrow> i < he h \<longrightarrow> pos (wrld h) (arr h ! i) = i)"

definition moved :: "('a \<Rightarrow> 'a \<Rightarrow> 'w \<Rightarrow> bool) \<Rightarrow> ('w \<Rightarrow> 'a \<Rightarrow> nat) \<Rightarrow> ('a, 'w) heap \<Rightarrow> ('a, 'w) heap \<Rightarrow> bool" where
  "moved c pos h h' \<longleftrightarrow> he h' = he h \<and> max_sz h' = max_sz h \<and> bag h' = bag h \<and>
     (\<forall>a b. c a b (wrld h') = c a b (wrld h)) \<and> (\<forall>x. x \<notin># bag h \<longrightarrow> pos (wrld h') x = pos (wrld h) x)"

definition ordered :: "('a \<Rightarrow> 'a \<Rightarrow> 'w \<Rightarrow> bool) \<Rightarrow> ('a, 'w) heap \<Rightarrow> bool" where
  "ordered c h \<longleftrightarrow> heap_order (\<lambda>a b. c a b (wrld h)) (he h) ((!) (arr h))"

definition heap_ok :: "('a \<Rightarrow> 'a \<Rightarrow> 'w \<Rightarrow> bool) \<Rightarrow> ('a \<Rightarrow> nat \<Rightarrow> 'w \<Rightarrow> 'w) \<Rightarrow> ('w \<Rightarrow> 'a \<Rightarrow> nat) \<Rightarrow> ('a, 'w) heap \<Rightarrow> bool" where
  "heap_ok c u pos h \<longleftrightarrow> shape c u pos h \<and> ordered c h"

lemma moved_refl [simp]: "moved c pos h h"
  by (simp add: moved_def)

lemma moved_trans: "moved c pos h h' \<Longrightarrow> moved c pos h' h'' \<Longrightarrow> moved c pos h h''"
  by (simp add: moved_def)

lemma moved_cmp: "moved c pos h h' \<Longrightarrow> (\<lambda>a b. c a b (wrld h')) = (\<lambda>a b. c a b (wrld h))"
  by (simp add: moved_def)

lemma slots_nth: "he h \<le> length (arr h) \<Longrightarrow> 1 \<le> i \<Longrightarrow> i < he h \<Longrightarrow> slots h ! (i - 1) = arr h ! i"
  by (simp add: slots_def)

lemma length_slots: "he h \<le> length (arr h) \<Longrightarrow> length (slots h) = he h - 1"
  by (simp add: slots_def)

lemma slots_update: "1 \<le> i \<Longrightarrow> slots (h\<lparr>arr := (arr h)[i := x]\<rparr>) = (slots h)[i - 1 := x]"
  by (simp add: slots_def take_update_swap drop_update_swap)

lemma slots_wrld [simp]: "slots (h\<lparr>wrld := w\<rparr>) = slots h" "bag (h\<lparr>wrld := w\<rparr>) = bag h"
  by (simp_all add: slots_def bag_def)

lemma in_bag_iff:
  assumes "he h \<le> length (arr h)"
  shows "x \<in># bag h \<longleftrightarrow> (\<exists>i. 1 \<le> i \<and> i < he h \<and> x = arr h ! i)"
proof -
  have "x \<in># bag h \<longleftrightarrow> (\<exists>j < he h - 1. x = slots h ! j)"
    by (auto simp: bag_def in_set_conv_nth length_slots [OF assms])
  also have "\<dots> \<longleftrightarrow> (\<exists>i. 1 \<le> i \<and> i < he h \<and> x = arr h ! i)"
  proof
    assume "\<exists>j < he h - 1. x = slots h ! j"
    then obtain j where "j < he h - 1" "x = slots h ! j" by blast
    then show "\<exists>i. 1 \<le> i \<and> i < he h \<and> x = arr h ! i" using slots_nth [OF assms, of "Suc j"] by (intro exI [of _ "Suc j"]) auto
  next
    assume "\<exists>i. 1 \<le> i \<and> i < he h \<and> x = arr h ! i"
    then obtain i where "1 \<le> i" "i < he h" "x = arr h ! i" by blast
    then show "\<exists>j < he h - 1. x = slots h ! j" using slots_nth [OF assms, of i] by (intro exI [of _ "i - 1"]) auto
  qed
  finally show ?thesis .
qed

lemma tell_simps [simp]:
  "he (tell i h) = he h" "max_sz (tell i h) = max_sz h" "cmp (tell i h) = cmp h" "upd (tell i h) = upd h"
  "arr (tell i h) = arr h" "wrld (tell i h) = upd h (arr h ! i) i (wrld h)" "slots (tell i h) = slots h" "bag (tell i h) = bag h"
  by (simp_all add: tell_def)

lemma shapeD:
  assumes "shape c u pos h"
  shows "cmp h = c" "upd h = u" "1 \<le> he h" "he h \<le> max_sz h" "length (arr h) = max_sz h" "he h \<le> length (arr h)"
    and "1 \<le> i \<Longrightarrow> i < he h \<Longrightarrow> pos (wrld h) (arr h ! i) = i"
  using assms by (simp_all add: shape_def)

text \<open>As each entry knows its position, no entry is in two slots.\<close>

lemma shape_inj:
  assumes "shape c u pos h" "1 \<le> i" "i < he h" "1 \<le> j" "j < he h" "arr h ! i = arr h ! j"
  shows "i = j"
proof -
  have "i = pos (wrld h) (arr h ! i)" by (rule shapeD(7) [OF assms(1-3), symmetric])
  also have "\<dots> = pos (wrld h) (arr h ! j)" by (simp only: assms(6))
  also have "\<dots> = j" by (rule shapeD(7) [OF assms(1,4,5)])
  finally show ?thesis .
qed

context heap_client begin

lemma c_refl: "c a a w"
  using c_total by blast

lemma c_transp: "transp (\<lambda>a b. c a b w)" and c_reflp: "reflp (\<lambda>a b. c a b w)"
  using c_trans c_refl by (auto intro!: transpI reflpI)

lemma swap_ok:
  assumes sh: "shape c u pos h" and i: "1 \<le> i" "i < he h" "1 \<le> j" "j < he h" "i \<noteq> j"
  shows "\<exists>h'. swap_entries i j h = Some h' \<and> shape c u pos h' \<and> moved c pos h h' \<and>
    (!) (arr h') = ((!) (arr h))(i := arr h ! j, j := arr h ! i)"
proof -
  note s = shapeD [OF sh]
  have b: "i < length (arr h)" "j < length (arr h)" using i s(6) by auto
  let ?a = "(arr h)[i := arr h ! j, j := arr h ! i]"
  let ?h = "tell j (tell i (h\<lparr>arr := ?a\<rparr>))"
  have e: "swap_entries i j h = Some ?h" using b by (simp add: swap_entries_def Let_def)
  have a: "(!) ?a = ((!) (arr h))(i := arr h ! j, j := arr h ! i)" using b by (auto simp: fun_eq_iff nth_list_update)
  have w: "pos (wrld ?h) = (pos (wrld h))(arr h ! j := i, arr h ! i := j)" using b i(5) s(2) by (simp add: pos_u)
  have sl: "slots ?h = (slots h)[i - 1 := slots h ! (j - 1), j - 1 := slots h ! (i - 1)]"
    using slots_update [of j "h\<lparr>arr := (arr h)[i := arr h ! j]\<rparr>" "arr h ! i"] slots_update [of i h "arr h ! j"]
      i slots_nth [OF s(6) i(1,2)] slots_nth [OF s(6) i(3,4)] by simp
  have bag: "bag ?h = bag h"
    unfolding bag_def sl by (rule mset_swap) (use i s(6) in \<open>auto simp: length_slots\<close>)
  have "shape c u pos ?h"
    unfolding shape_def
  proof (intro conjI allI impI)
    fix k assume k: "1 \<le> k" "k < he ?h"
    have ne: "arr h ! k \<noteq> arr h ! i" if "k \<noteq> i" using shape_inj [OF sh, of k i] k i that by auto
    have ne2: "arr h ! k \<noteq> arr h ! j" if "k \<noteq> j" using shape_inj [OF sh, of k j] k i that by auto
    have ne3: "arr h ! i \<noteq> arr h ! j" using shape_inj [OF sh, of i j] i by auto
    have "arr ?h ! k = (((!) (arr h))(i := arr h ! j, j := arr h ! i)) k" using a by simp
    then show "pos (wrld ?h) (arr ?h ! k) = k" using w ne ne2 ne3 s(7) [of k] k by (auto split: if_splits)
  qed (use s in simp_all)
  moreover have "moved c pos h ?h"
    unfolding moved_def
  proof (intro conjI allI impI)
    fix x assume "x \<notin># bag h"
    then have "x \<noteq> arr h ! i" "x \<noteq> arr h ! j" using in_bag_iff [OF s(6), of x] i by auto
    then show "pos (wrld ?h) x = pos (wrld h) x" using w by simp
  qed (use bag s(1,2) in \<open>simp_all add: c_u\<close>)
  ultimately show ?thesis using e a by auto
qed

lemma swap_up_loop_ok:
  assumes "shape c u pos h" "1 \<le> k" "k < he h" "up_order (\<lambda>a b. c a b (wrld h)) (he h) ((!) (arr h)) k"
  shows "\<exists>k' h'. swap_up_loop h k = Some (k', h') \<and> shape c u pos h' \<and> moved c pos h h' \<and> 1 \<le> k' \<and> k' \<le> k \<and>
    down_order (\<lambda>a b. c a b (wrld h')) (he h') ((!) (arr h')) k'"
  using assms
proof (induction k arbitrary: h rule: less_induct)
  case (less k)
  note s = shapeD [OF less.prems(1)]
  show ?case
  proof (cases "k > 1 \<and> \<not> c (arr h ! (k div 2)) (arr h ! k) (wrld h)")
    case True
    let ?p = "k div 2"
    have p: "1 \<le> ?p" "?p < he h" "?p < k" using True less.prems(3) by auto
    obtain h1 where h1: "swap_entries ?p k h = Some h1" "shape c u pos h1" "moved c pos h h1"
      "(!) (arr h1) = ((!) (arr h))(?p := arr h ! k, k := arr h ! ?p)"
      using swap_ok [OF less.prems(1) p(1,2) less.prems(2,3)] p(3) by auto
    have e: "he h1 = he h" using h1(3) by (simp add: moved_def)
    have "up_order (\<lambda>a b. c a b (wrld h1)) (he h1) ((!) (arr h1)) ?p"
      using up_step [OF less.prems(4) _ less.prems(3) _ c_transp] True h1(4) e moved_cmp [OF h1(3)] by simp
    then obtain k' h' where r: "swap_up_loop h1 ?p = Some (k', h')" "shape c u pos h'" "moved c pos h1 h'" "1 \<le> k'" "k' \<le> ?p"
      "down_order (\<lambda>a b. c a b (wrld h')) (he h') ((!) (arr h')) k'"
      using less.IH [OF p(3) h1(2) p(1)] p(2) e by auto
    have "swap_up_loop h k = swap_up_loop h1 ?p" using True s(1) h1(1) p(1) by (simp add: swap_up_loop.simps [of h] Let_def)
    then show ?thesis using r moved_trans [OF h1(3) r(3)] p(3) by (intro exI [of _ k'] exI [of _ h']) auto
  next
    case False
    then have "swap_up_loop h k = Some (k, h)" using s(1) by (auto simp: swap_up_loop.simps [of h] Let_def)
    then show ?thesis using False less.prems up_down [OF less.prems(4)] by fastforce
  qed
qed

end
definition larger_child :: "nat \<Rightarrow> ('a, 'w) heap \<Rightarrow> nat \<Rightarrow> nat" where
  "larger_child l h k = (if 2 * k + 1 > l then 2 * k
     else if cmp h (arr h ! (2 * k)) (arr h ! (2 * k + 1)) (wrld h) then 2 * k else 2 * k + 1)"

lemma swap_down_loop_step:
  assumes "k \<le> l div 2" "larger_child l h k < he h"
  shows "swap_down_loop l h k = (if cmp h (arr h ! k) (arr h ! larger_child l h k) (wrld h) then Some (k, h)
    else swap_entries (larger_child l h k) k h \<bind> (\<lambda>h'. swap_down_loop l h' (larger_child l h k)))"
  using assms(2) by (subst swap_down_loop.simps) (simp only: assms(1) if_True Let_def larger_child_def [symmetric] assert_that_True bind.bind_lunit)

context heap_client begin

lemma swap_down_loop_ok:
  assumes "shape c u pos h" "1 \<le> k" "down_order (\<lambda>a b. c a b (wrld h)) (he h) ((!) (arr h)) k"
  shows "\<exists>k' h'. swap_down_loop (he h - 1) h k = Some (k', h') \<and> moved c pos h h' \<and> heap_ok c u pos h'"
  using assms
proof (induction "he h - k" arbitrary: h k rule: less_induct)
  case less
  note s = shapeD [OF less.prems(1)]
  let ?R = "\<lambda>a b. c a b (wrld h)"
  show ?case
  proof (cases "k \<le> (he h - 1) div 2")
    case leaf: False
    then have r: "swap_down_loop (he h - 1) h k = Some (k, h)" by (simp add: swap_down_loop.simps [of _ h])
    have "heap_order ?R (he h) ((!) (arr h))" by (rule down_done [OF less.prems(3)]) (use leaf in auto)
    then show ?thesis using r less.prems(1) by (auto simp: heap_ok_def ordered_def)
  next
    case True
    define n where "n = larger_child (he h - 1) h k"
    let ?l = "arr h ! (2 * k)" and ?r = "arr h ! (2 * k + 1)"
    have nc: "n = 2 * k \<and> (he h \<le> 2 * k + 1 \<or> ?R ?l ?r) \<or> n = 2 * k + 1 \<and> 2 * k + 1 < he h \<and> \<not> ?R ?l ?r"
      using s(3) by (simp add: n_def larger_child_def s(1)) linarith
    have n: "n = 2 * k \<or> n = 2 * k + 1" "n < he h" "1 \<le> n" "k < n" "k < he h" using nc True less.prems(2) by linarith+
    have best: "?R (arr h ! n) (arr h ! i)" if "i < he h" "i div 2 = k" "i \<noteq> n" for i
    proof -
      have "i = 2 * k \<or> i = 2 * k + 1" using that(2) by auto
      then show ?thesis using that(1,3) nc c_total [of ?l ?r "wrld h"] by (elim disjE) simp_all
    qed
    show ?thesis
    proof (cases "c (arr h ! k) (arr h ! n) (wrld h)")
      case stop: True
      have r: "swap_down_loop (he h - 1) h k = Some (k, h)"
        by (simp only: swap_down_loop_step [of k "he h - 1" h, folded n_def, OF True n(2)] s(1) stop if_True)
      have "heap_order ?R (he h) ((!) (arr h))"
      proof (rule down_done [OF less.prems(3)])
        fix i assume i: "i < he h" "1 < i" "i div 2 = k"
        show "?R (arr h ! k) (arr h ! i)" using best [OF i(1,3)] stop c_trans by (cases "i = n") auto
      qed
      then show ?thesis using r less.prems(1) by (auto simp: heap_ok_def ordered_def)
    next
      case go: False
      obtain h1 where h1: "swap_entries n k h = Some h1" "shape c u pos h1" "moved c pos h h1"
        "(!) (arr h1) = ((!) (arr h))(n := arr h ! k, k := arr h ! n)"
        using swap_ok [OF less.prems(1) n(3,2) less.prems(2) n(5)] n(4) by auto
      have e: "he h1 = he h" using h1(3) by (simp add: moved_def)
      have up: "?R (arr h ! n) (arr h ! k)" using go c_total by blast
      have "down_order ?R (he h) (((!) (arr h))(n := arr h ! k, k := arr h ! n)) n"
        by (rule down_step [OF less.prems(3) n(1) _ n(2) best up]) (use less.prems(2) in simp_all)
      then have d: "down_order (\<lambda>a b. c a b (wrld h1)) (he h1) ((!) (arr h1)) n" using h1(4) e moved_cmp [OF h1(3)] by simp
      have "he h1 - n < he h - k" using n(2,4) e by simp
      from less.hyps [OF this h1(2) n(3) d]
      obtain k' h' where r: "swap_down_loop (he h - 1) h1 n = Some (k', h')" "moved c pos h1 h'" "heap_ok c u pos h'"
        unfolding e by blast
      have "swap_down_loop (he h - 1) h k = swap_down_loop (he h - 1) h1 n"
        by (simp only: swap_down_loop_step [of k "he h - 1" h, folded n_def, OF True n(2)] s(1) go if_False h1(1) bind.bind_lunit)
      from trans [OF this r(1)] moved_trans [OF h1(3) r(2)] r(3) show ?thesis by blast
    qed
  qed
qed

lemma swap_down_ok:
  assumes "shape c u pos h" "1 \<le> k" "k \<le> he h" "down_order (\<lambda>a b. c a b (wrld h)) (he h) ((!) (arr h)) k"
  shows "\<exists>k' h'. swap_down h k = Some (k', h') \<and> moved c pos h h' \<and> heap_ok c u pos h'"
  using swap_down_loop_ok [OF assms(1,2,4)] assms(2,3) by (simp add: swap_down_def)

lemma heapify_ok:
  assumes "shape c u pos h" "1 \<le> k" "k < he h" "up_order (\<lambda>a b. c a b (wrld h)) (he h) ((!) (arr h)) k"
  shows "\<exists>k' h'. heapify h k = Some (k', h') \<and> moved c pos h h' \<and> heap_ok c u pos h'"
proof -
  obtain k1 h1 where h1: "swap_up_loop h k = Some (k1, h1)" "shape c u pos h1" "moved c pos h h1" "1 \<le> k1" "k1 \<le> k"
    "down_order (\<lambda>a b. c a b (wrld h1)) (he h1) ((!) (arr h1)) k1" using swap_up_loop_ok [OF assms] by blast
  have "k1 \<le> he h1" using h1(3,5) assms(3) by (simp add: moved_def)
  then obtain k' h' where h': "swap_down h1 k1 = Some (k', h')" "moved c pos h1 h'" "heap_ok c u pos h'"
    using swap_down_ok [OF h1(2,4) _ h1(6)] by blast
  have "swap_up h k = Some (k1, h1)" using h1(1,4) assms(2,3) by (simp add: swap_up_def)
  then show ?thesis using h' moved_trans [OF h1(3) h'(2)] by (simp add: heapify_def)
qed

lemma heap_okD:
  assumes "heap_ok c u pos h"
  shows "shape c u pos h" "heap_order (\<lambda>a b. c a b (wrld h)) (he h) ((!) (arr h))"
  using assms by (simp_all add: heap_ok_def ordered_def)

lemma add_ok:
  assumes ok: "heap_ok c u pos h" and x: "x \<notin># bag h" and room: "he h \<noteq> max_sz h"
  shows "\<exists>h'. heap_add h x = Some (0, h') \<and> heap_ok c u pos h' \<and> bag h' = add_mset x (bag h) \<and> max_sz h' = max_sz h \<and>
    (\<forall>a b. c a b (wrld h') = c a b (wrld h))"
proof -
  note s = shapeD [OF heap_okD(1) [OF ok]]
  have e: "he h < length (arr h)" "he h < max_sz h" "1 \<le> he h" using room s by auto
  let ?h = "(tell (he h) (h\<lparr>arr := (arr h)[he h := x]\<rparr>))\<lparr>he := he h + 1\<rparr>"
  have sl: "slots ?h = slots h @ [x]"
    using e by (simp add: slots_def take_Suc_conv_app_nth)
  have ne: "arr h ! i \<noteq> x" if "1 \<le> i" "i < he h" for i using x that in_bag_iff [OF s(6), of x] by auto
  have sh: "shape c u pos ?h"
    unfolding shape_def
  proof (intro conjI allI impI)
    fix i assume i: "1 \<le> i" "i < he ?h"
    show "pos (wrld ?h) (arr ?h ! i) = i" using s(2) s(7) [of i] ne [of i] i e by (cases "i = he h") (auto simp: pos_u)
  qed (use s e in simp_all)
  have R: "(\<lambda>a b. c a b (wrld ?h)) = (\<lambda>a b. c a b (wrld h))" using s(2) by (simp add: c_u)
  have "up_order (\<lambda>a b. c a b (wrld ?h)) (he ?h) ((!) (arr ?h)) (he h)"
  proof -
    have a: "(!) (arr ?h) = ((!) (arr h))(he h := x)" using e(1) by (auto simp: fun_eq_iff nth_list_update)
    show ?thesis
      unfolding R a using heap_okD(2) [OF ok] unfolding heap_order_def up_order_def by auto
  qed
  then obtain k' h' where h': "heapify ?h (he h) = Some (k', h')" "moved c pos ?h h'" "heap_ok c u pos h'"
    using heapify_ok [OF sh s(3)] by auto
  have "heap_add h x = Some (0, h')" using h'(1) e room by (simp add: heap_add_def Let_def)
  moreover have "bag h' = add_mset x (bag h)" using h'(2) sl by (simp add: moved_def bag_def)
  moreover have "max_sz h' = max_sz h" "\<forall>a b. c a b (wrld h') = c a b (wrld h)" using h'(2) s(2) by (simp_all add: moved_def c_u)
  ultimately show ?thesis using h'(3) by blast
qed

end
lemma slots_cut: "he h \<le> length (arr h) \<Longrightarrow> 1 < he h \<Longrightarrow> slots h = slots (h\<lparr>he := he h - 1\<rparr>) @ [arr h ! (he h - 1)]"
  by (cases "he h") (simp_all add: slots_def take_Suc_conv_app_nth)

text \<open>The last entry is put in the place of the one in the slot \<open>k\<close>.\<close>

lemma bag_replace:
  assumes l: "he h \<le> length (arr h)" and k: "1 \<le> k" "k < he h"
  shows "add_mset (arr h ! k) (bag (h\<lparr>he := he h - 1, arr := (arr h)[k := arr h ! (he h - 1)]\<rparr>)) = bag h"
proof -
  let ?g = "h\<lparr>he := he h - 1\<rparr>"
  have b: "bag h = add_mset (arr h ! (he h - 1)) (mset (slots ?g))" using slots_cut [OF l] k by (simp add: bag_def)
  have s: "slots (h\<lparr>he := he h - 1, arr := (arr h)[k := arr h ! (he h - 1)]\<rparr>) = (slots ?g)[k - 1 := arr h ! (he h - 1)]"
    using slots_update [of k ?g] k by simp
  show ?thesis
  proof (cases "k = he h - 1")
    case True
    then have "length (slots ?g) \<le> k - 1" using l by (simp add: length_slots)
    then show ?thesis using b s True by (simp add: bag_def)
  next
    case False
    then have "k - 1 < length (slots ?g)" "slots ?g ! (k - 1) = arr h ! k"
      using l k length_slots [of ?g] slots_nth [of ?g k] by auto
    moreover from this have "arr h ! k \<in># mset (slots ?g)" by (metis nth_mem set_mset_mset)
    ultimately show ?thesis using b s by (simp add: bag_def mset_update)
  qed
qed

context heap_client begin

text \<open>The heap with the last entry in the slot \<open>k\<close> in place of the entry there, told so.\<close>

lemma shape_replace:
  assumes sh: "shape c u pos h" and k: "1 \<le> k" "k < he h"
    and w: "\<And>x. x \<noteq> arr h ! k \<Longrightarrow> pos w x = pos (wrld h) x"
  shows "k < he h - 1 \<Longrightarrow> shape c u pos (tell k (h\<lparr>he := he h - 1, wrld := w, arr := (arr h)[k := arr h ! (he h - 1)]\<rparr>))"
proof -
  assume k2: "k < he h - 1"
  let ?g = "tell k (h\<lparr>he := he h - 1, wrld := w, arr := (arr h)[k := arr h ! (he h - 1)]\<rparr>)"
  note s = shapeD [OF sh]
  have inj: "arr h ! i \<noteq> arr h ! j" if "1 \<le> i" "i < he h" "1 \<le> j" "j < he h" "i \<noteq> j" for i j
    using shape_inj [OF sh that(1-4)] that(5) by blast
  show "shape c u pos ?g"
    unfolding shape_def
  proof (intro conjI allI impI)
    fix i assume i: "1 \<le> i" "i < he ?g"
    show "pos (wrld ?g) (arr ?g ! i) = i"
    proof (cases "i = k")
      case True
      then show ?thesis using s(2,6) k by (simp add: pos_u)
    next
      case False
      then have "arr h ! i \<noteq> arr h ! (he h - 1)" "arr h ! i \<noteq> arr h ! k"
        using inj [of i "he h - 1"] inj [of i k] i k k2 by auto
      then show ?thesis using s(2,6) s(7) [of i] w [of "arr h ! i"] False i k by (simp add: pos_u)
    qed
  qed (use s k k2 in auto)
qed

lemma highest_ok:
  assumes ok: "heap_ok c u pos h" and ne: "he h \<noteq> 1"
  shows "\<exists>h'. heap_highest h = Some (Some (arr h ! 1), h') \<and> heap_ok c u pos h' \<and> bag h = add_mset (arr h ! 1) (bag h') \<and>
    max_sz h' = max_sz h \<and> (\<forall>a b. c a b (wrld h') = c a b (wrld h)) \<and> pos (wrld h') (arr h ! 1) = 0"
proof -
  note s = shapeD [OF heap_okD(1) [OF ok]]
  have e: "1 < he h" using ne s(3) by simp
  let ?r = "arr h ! 1"
  let ?g = "tell 1 (h\<lparr>he := he h - 1, arr := (arr h)[1 := arr h ! (he h - 1)]\<rparr>)"
  have R: "(\<lambda>a b. c a b (wrld ?g)) = (\<lambda>a b. c a b (wrld h))" using s(2) by (simp add: c_u)
  have b: "bag h = add_mset ?r (bag ?g)" using bag_replace [OF s(6), of 1] e by simp
  have sh: "shape c u pos ?g"
  proof (cases "1 < he h - 1")
    case True
    then show ?thesis using shape_replace [OF heap_okD(1) [OF ok], of 1 "wrld h"] e by simp
  next
    case False
    then show ?thesis using s e by (auto simp: shape_def)
  qed
  have a: "(!) (arr ?g) = ((!) (arr h))(1 := arr h ! (he h - 1))" using e s(6) by (auto simp: fun_eq_iff nth_list_update)
  have "up_order (\<lambda>a b. c a b (wrld ?g)) (he ?g) ((!) (arr ?g)) 1"
    unfolding R a by (rule order_replace [OF heap_okD(2) [OF ok] c_transp]) (use e in auto)
  then have d: "down_order (\<lambda>a b. c a b (wrld ?g)) (he ?g) ((!) (arr ?g)) 1" by (rule up_down) simp
  have le: "1 \<le> he ?g" using e by simp
  obtain k' h1 where h1: "swap_down ?g 1 = Some (k', h1)" "moved c pos ?g h1" "heap_ok c u pos h1"
    using swap_down_ok [OF sh order.refl le d] by blast
  let ?h = "h1\<lparr>wrld := u ?r 0 (wrld h1)\<rparr>"
  note s1 = shapeD [OF heap_okD(1) [OF h1(3)]]
  have out: "?r \<notin># bag h1"
  proof
    assume "?r \<in># bag h1"
    then have "?r \<in># bag ?g" using h1(2) by (simp add: moved_def)
    then obtain i where i: "1 \<le> i" "i < he ?g" "?r = arr ?g ! i" using in_bag_iff [OF shapeD(6) [OF sh]] by blast
    from i(2) have "i < he h" by simp
    with i show False using shape_inj [OF heap_okD(1) [OF ok], of 1 i] shape_inj [OF heap_okD(1) [OF ok], of 1 "he h - 1"] e s(6) by (cases "i = 1") auto
  qed
  have "heap_highest h = Some (Some ?r, ?h)" using h1(1) ne s1(2) by (simp add: heap_highest_def Let_def)
  moreover have "heap_ok c u pos ?h"
  proof -
    have "arr h1 ! i \<noteq> ?r" if "1 \<le> i" "i < he h1" for i using out in_bag_iff [OF s1(6)] that by auto
    then show ?thesis using s1 heap_okD(2) [OF h1(3)] by (auto simp: heap_ok_def shape_def ordered_def pos_u c_u)
  qed
  moreover have "bag h = add_mset ?r (bag ?h)" using b h1(2) by (simp add: moved_def)
  moreover have "max_sz ?h = max_sz h" "\<forall>a b. c a b (wrld ?h) = c a b (wrld h)"
    using h1(2) R by (auto simp: moved_def c_u fun_eq_iff)
  ultimately show ?thesis by (auto simp: pos_u)
qed

lemma highest_max:
  assumes "heap_ok c u pos h" "x \<in># bag h"
  shows "c (arr h ! 1) x (wrld h)"
proof -
  obtain i where "1 \<le> i" "i < he h" "x = arr h ! i" using in_bag_iff [OF shapeD(6) [OF heap_okD(1) [OF assms(1)]]] assms(2) by blast
  then show ?thesis using order_highest [OF heap_okD(2) [OF assms(1)] c_reflp c_transp] by blast
qed

lemma adjust_ok:
  assumes "shape c u pos h" "1 \<le> k" "k < he h" "up_order (\<lambda>a b. c a b (wrld h)) (he h) ((!) (arr h)) k"
  shows "\<exists>h'. heap_adjust h k = Some h' \<and> moved c pos h h' \<and> heap_ok c u pos h'"
  using heapify_ok [OF assms] assms(2,3) by (auto simp: heap_adjust_def)

text \<open>The client has changed the entry in the slot \<open>k\<close>.\<close>

lemma changed_order:
  assumes ok: "heap_ok c u pos h" and k: "1 \<le> k" "k < he h"
    and same: "\<And>a b. a \<noteq> arr h ! k \<Longrightarrow> b \<noteq> arr h ! k \<Longrightarrow> c a b w = c a b (wrld h)"
  shows "up_order (\<lambda>a b. c a b w) (he h) ((!) (arr h)) k"
proof -
  have ne: "arr h ! i \<noteq> arr h ! k" if "1 \<le> i" "i < he h" "i \<noteq> k" for i
    using shape_inj [OF heap_okD(1) [OF ok] that(1,2) k] that(3) by blast
  have edge: "c (arr h ! (i div 2)) (arr h ! i) (wrld h)" if "1 < i" "i < he h" for i
    using heap_okD(2) [OF ok] that unfolding heap_order_def by blast
  show ?thesis
    unfolding up_order_def
  proof (intro conjI allI impI)
    fix i assume i: "1 < i" "i < he h" "i \<noteq> k" "i div 2 \<noteq> k"
    have "c (arr h ! (i div 2)) (arr h ! i) w = c (arr h ! (i div 2)) (arr h ! i) (wrld h)"
      by (rule same; rule ne) (use i in auto)
    then show "c (arr h ! (i div 2)) (arr h ! i) w" using edge [OF i(1,2)] by simp
  next
    fix i assume i: "1 < k" "i < he h" "i div 2 = k"
    have "c (arr h ! (k div 2)) (arr h ! i) w = c (arr h ! (k div 2)) (arr h ! i) (wrld h)"
      by (rule same; rule ne) (use i k in auto)
    moreover have "c (arr h ! k) (arr h ! i) (wrld h)" using edge [of i] i by simp
    ultimately show "c (arr h ! (k div 2)) (arr h ! i) w" using edge [OF i(1) k(2)] c_trans by blast
  qed
qed

lemma remove_ok:
  assumes ok: "heap_ok c u pos h" and k: "1 \<le> k" "k < he h"
  shows "\<exists>h'. heap_remove h k = Some (Some (arr h ! k), h') \<and> heap_ok c u pos h' \<and> bag h = add_mset (arr h ! k) (bag h') \<and>
    max_sz h' = max_sz h \<and> (\<forall>a b. c a b (wrld h') = c a b (wrld h)) \<and> pos (wrld h') (arr h ! k) = 0"
proof -
  note sh = heap_okD(1) [OF ok]
  note s = shapeD [OF sh]
  let ?r = "arr h ! k"
  let ?w = "u ?r 0 (wrld h)"
  have ne: "arr h ! i \<noteq> ?r" if "1 \<le> i" "i < he h" "i \<noteq> k" for i using shape_inj [OF sh that(1,2) k] that(3) by blast
  show ?thesis
  proof (cases "k = he h - 1")
    case True
    let ?h = "h\<lparr>he := he h - 1, wrld := ?w\<rparr>"
    have "heap_remove h k = Some (Some ?r, ?h)" using k s(2) True by (auto simp: heap_remove_def Let_def)
    moreover have "heap_ok c u pos ?h"
      using s ne k True heap_okD(2) [OF ok] by (auto simp: heap_ok_def shape_def ordered_def heap_order_def pos_u c_u)
    moreover have "bag h = add_mset ?r (bag ?h)" using slots_cut [OF s(6)] k True by (simp add: bag_def)
    ultimately show ?thesis by (auto simp: pos_u c_u)
  next
    case False
    then have k2: "k < he h - 1" using k by simp
    let ?g = "tell k (h\<lparr>he := he h - 1, wrld := ?w, arr := (arr h)[k := arr h ! (he h - 1)]\<rparr>)"
    have g: "shape c u pos ?g" by (rule shape_replace [OF sh k _ k2]) (simp add: pos_u)
    have R: "(\<lambda>a b. c a b (wrld ?g)) = (\<lambda>a b. c a b (wrld h))" using s(2) by (simp add: c_u)
    have a: "(!) (arr ?g) = ((!) (arr h))(k := arr h ! (he h - 1))" using k s(6) by (auto simp: fun_eq_iff nth_list_update)
    have "up_order (\<lambda>a b. c a b (wrld ?g)) (he ?g) ((!) (arr ?g)) k"
      unfolding R a by (rule order_replace [OF heap_okD(2) [OF ok] c_transp]) (use k in auto)
    then obtain h' where h': "heap_adjust ?g k = Some h'" "moved c pos ?g h'" "heap_ok c u pos h'"
      using adjust_ok [OF g k(1)] k2 by auto
    have "heap_remove h k = Some (Some ?r, h')" using h'(1) k k2 s(2) by (simp add: heap_remove_def Let_def)
    moreover have b: "bag h = add_mset ?r (bag ?g)" using bag_replace [OF s(6) k] by (simp add: bag_def slots_def)
    moreover have "bag h' = bag ?g" "max_sz h' = max_sz h" "\<forall>a b. c a b (wrld h') = c a b (wrld h)"
      using h'(2) R by (auto simp: moved_def fun_eq_iff)
    moreover have "pos (wrld h') ?r = 0"
    proof -
      have "?r \<notin># bag ?g"
      proof
        assume "?r \<in># bag ?g"
        then obtain i where i: "1 \<le> i" "i < he ?g" "?r = arr ?g ! i" using in_bag_iff [OF shapeD(6) [OF g]] by blast
        from i(2) have "i < he h" by simp
        with i show False using ne [of i] ne [of "he h - 1"] k k2 s(6) by (cases "i = k") auto
      qed
      then have "pos (wrld h') ?r = pos (wrld ?g) ?r" using h'(2) by (simp add: moved_def)
      also have "\<dots> = 0" using ne [of "he h - 1"] k k2 s(2,6) by (simp add: pos_u)
      finally show ?thesis .
    qed
    ultimately show ?thesis using h'(3) by auto
  qed
qed

end
section \<open>The entries of the test program\<close>

text \<open>The comparison and the callback of the test in \<^verbatim>\<open>heap.c\<close>; a world gives the entry behind each pointer.\<close>

record hentry =
  hindex :: nat
  hvalue :: int

definition hentry_c :: "'p \<Rightarrow> 'p \<Rightarrow> ('p \<Rightarrow> hentry) \<Rightarrow> bool" where
  "hentry_c a b w \<longleftrightarrow> hvalue (w a) \<ge> hvalue (w b)"

definition hentry_u :: "'p \<Rightarrow> nat \<Rightarrow> ('p \<Rightarrow> hentry) \<Rightarrow> 'p \<Rightarrow> hentry" where
  "hentry_u e i w = w(e := (w e)\<lparr>hindex := i\<rparr>)"

interpretation hentry: heap_client hentry_c hentry_u "\<lambda>w x. hindex (w x)"
  by unfold_locales (auto simp: hentry_c_def hentry_u_def fun_eq_iff)

text \<open>The loops of the test: fill the heap, and take out the highest entry until it is empty.\<close>

fun heap_fill :: "('a, 'w) heap \<Rightarrow> 'a list \<Rightarrow> ('a, 'w) heap option" where
  "heap_fill h [] = Some h"
| "heap_fill h (x # xs) = do {
     (r, h) \<leftarrow> heap_add h x;
     assert_that (r = 0);
     heap_fill h xs }"

fun heap_drain :: "nat \<Rightarrow> ('a, 'w) heap \<Rightarrow> ('a option list \<times> ('a, 'w) heap) option" where
  "heap_drain 0 h = Some ([], h)"
| "heap_drain (Suc n) h = do {
     (r, h) \<leftarrow> heap_highest h;
     (rs, h) \<leftarrow> heap_drain n h;
     Some (r # rs, h) }"

section \<open>Properties\<close>

text \<open>
  A bag with a limit, from which a highest entry can be taken. Entries are removed by position, and
  the client may change one entry and have the heap put in order again.
\<close>

datatype ('a, 'w) heap_op = Add 'a | Highest | Peek | Remove nat | Adjust nat 'w

fun heap_do :: "('a, 'w) heap_op \<Rightarrow> ('a, 'w) heap \<Rightarrow> ((int + 'a option) \<times> ('a, 'w) heap) option" where
  "heap_do (Add x) h = do { (r, h) \<leftarrow> heap_add h x; Some (Inl r, h) }"
| "heap_do Highest h = do { (r, h) \<leftarrow> heap_highest h; Some (Inr r, h) }"
| "heap_do Peek h = Some (Inr (heap_peek h), h)"
| "heap_do (Remove k) h = do { (r, h) \<leftarrow> heap_remove h k; Some (Inr r, h) }"
| "heap_do (Adjust k w) h = do { h \<leftarrow> heap_adjust (h\<lparr>wrld := w\<rparr>) k; Some (Inl 0, h) }"

fun heap_pre :: "('w \<Rightarrow> 'a \<Rightarrow> nat) \<Rightarrow> ('a, 'w) heap_op \<Rightarrow> ('a, 'w) heap \<Rightarrow> bool" where
  "heap_pre pos (Add x) h = (x \<notin># bag h)"
| "heap_pre pos (Remove k) h = (1 \<le> k \<and> k < he h)"
| "heap_pre pos (Adjust k w) h = (1 \<le> k \<and> k < he h \<and> pos w = pos (wrld h) \<and>
     (\<forall>a b. a \<noteq> arr h ! k \<longrightarrow> b \<noteq> arr h ! k \<longrightarrow> cmp h a b w = cmp h a b (wrld h)))"
| "heap_pre pos _ h = True"

fun bag_step :: "nat \<Rightarrow> ('a \<Rightarrow> 'a \<Rightarrow> bool) \<Rightarrow> ('a \<Rightarrow> nat) \<Rightarrow> ('a, 'w) heap_op \<Rightarrow> 'a multiset \<Rightarrow> int + 'a option \<Rightarrow> 'a multiset \<Rightarrow> bool" where
  "bag_step limit R p (Add x) b r b' = (if size b = limit then r = Inl (-1) \<and> b' = b else r = Inl 0 \<and> b' = add_mset x b)"
| "bag_step limit R p Highest b r b' = (if b = {#} then r = Inr None \<and> b' = b
     else (\<exists>x. r = Inr (Some x) \<and> b = add_mset x b' \<and> (\<forall>y. y \<in># b \<longrightarrow> R x y)))"
| "bag_step limit R p Peek b r b' = (b' = b \<and> (if b = {#} then r = Inr None
     else (\<exists>x. r = Inr (Some x) \<and> x \<in># b \<and> (\<forall>y. y \<in># b \<longrightarrow> R x y))))"
| "bag_step limit R p (Remove k) b r b' = (\<exists>x. r = Inr (Some x) \<and> p x = k \<and> b = add_mset x b')"
| "bag_step limit R p (Adjust k w) b r b' = (r = Inl 0 \<and> b' = b)"

context heap_client begin

lemma size_bag: "shape c u pos h \<Longrightarrow> size (bag h) = he h - 1"
  using shapeD(6) [of c u pos h] by (simp add: bag_def length_slots)

lemma bag_empty: "shape c u pos h \<Longrightarrow> bag h = {#} \<longleftrightarrow> he h = 1"
  using size_bag [of h] shapeD(3) [of c u pos h] by (metis diff_is_0_eq le_antisym le_numeral_extra(4) size_eq_0_iff_empty)

lemma peek_in_bag: "shape c u pos h \<Longrightarrow> he h \<noteq> 1 \<Longrightarrow> arr h ! 1 \<in># bag h"
  using in_bag_iff [of h "arr h ! 1"] shapeD(3,6) [of c u pos h] by fastforce

lemma do_refines:
  assumes ok: "heap_ok c u pos h" and pre: "heap_pre pos op h"
  shows "\<exists>r h'. heap_do op h = Some (r, h') \<and> heap_ok c u pos h' \<and> max_sz h' = max_sz h \<and>
    bag_step (max_sz h - 1) (\<lambda>a b. c a b (wrld h)) (pos (wrld h)) op (bag h) r (bag h')"
proof (cases op)
  case (Add x)
  note s = shapeD [OF heap_okD(1) [OF ok]] and sz = size_bag [OF heap_okD(1) [OF ok]]
  show ?thesis
  proof (cases "he h = max_sz h")
    case True
    then show ?thesis using ok Add sz by (auto simp: heap_add_def)
  next
    case False
    then have "he h - 1 \<noteq> max_sz h - 1" using s(3,4) by linarith
    then show ?thesis using add_ok [OF ok _ False, of x] pre Add sz by auto
  qed
next
  case Highest
  then show ?thesis
    using highest_ok [OF ok] highest_max [OF ok] bag_empty [OF heap_okD(1) [OF ok]] ok
    by (cases "he h = 1") (auto simp: heap_highest_def)
next
  case Peek
  then show ?thesis
    using highest_max [OF ok] bag_empty [OF heap_okD(1) [OF ok]] peek_in_bag [OF heap_okD(1) [OF ok]] ok
    by (auto simp: heap_peek_def)
next
  case (Remove k)
  then show ?thesis
    using remove_ok [OF ok, of k] pre shapeD(7) [OF heap_okD(1) [OF ok], of k] by auto
next
  case (Adjust k w)
  note s = shapeD [OF heap_okD(1) [OF ok]]
  have k: "1 \<le> k" "k < he h" and p: "pos w = pos (wrld h)"
    and same: "\<And>a b. a \<noteq> arr h ! k \<Longrightarrow> b \<noteq> arr h ! k \<Longrightarrow> c a b w = c a b (wrld h)" using pre Adjust s(1) by auto
  have "shape c u pos (h\<lparr>wrld := w\<rparr>)" using heap_okD(1) [OF ok] p by (simp add: shape_def)
  then obtain h' where "heap_adjust (h\<lparr>wrld := w\<rparr>) k = Some h'" "moved c pos (h\<lparr>wrld := w\<rparr>) h'" "heap_ok c u pos h'"
    using adjust_ok [of "h\<lparr>wrld := w\<rparr>" k] changed_order [OF ok k same] k by auto
  then show ?thesis using Adjust by (auto simp: moved_def)
qed

lemma alloc_ok: "length block = sz + 1 \<Longrightarrow> heap_alloc (Some block) sz c u w = Some h \<Longrightarrow> heap_ok c u pos h \<and> bag h = {#} \<and> max_sz h = sz + 1 \<and> wrld h = w"
  by (auto simp: heap_alloc_def heap_ok_def shape_def ordered_def heap_order_def bag_def slots_def)

lemma fill_ok:
  assumes "heap_ok c u pos h" "distinct xs" "set xs \<inter> set_mset (bag h) = {}" "length xs + size (bag h) < max_sz h"
  shows "\<exists>h'. heap_fill h xs = Some h' \<and> heap_ok c u pos h' \<and> bag h' = bag h + mset xs \<and> (\<forall>a b. c a b (wrld h') = c a b (wrld h))"
  using assms
proof (induction xs arbitrary: h)
  case (Cons x xs)
  have room: "he h \<noteq> max_sz h" using Cons.prems(4) size_bag [OF heap_okD(1) [OF Cons.prems(1)]] shapeD(3) [OF heap_okD(1) [OF Cons.prems(1)]] by simp
  have x: "x \<notin># bag h" using Cons.prems(3) by auto
  obtain h1 where h1: "heap_add h x = Some (0, h1)" "heap_ok c u pos h1" "bag h1 = add_mset x (bag h)" "max_sz h1 = max_sz h"
    "\<forall>a b. c a b (wrld h1) = c a b (wrld h)" using add_ok [OF Cons.prems(1) x room] by blast
  obtain h' where h': "heap_fill h1 xs = Some h'" "heap_ok c u pos h'" "bag h' = bag h1 + mset xs" "\<forall>a b. c a b (wrld h') = c a b (wrld h1)"
    using Cons.IH [OF h1(2)] Cons.prems(2-4) h1(3,4) by auto
  show ?case using h1 h' by (intro exI [of _ h']) auto
qed simp

lemma drain_ok:
  assumes "heap_ok c u pos h" "n = size (bag h)"
  shows "\<exists>ys h'. heap_drain n h = Some (map Some ys, h') \<and> mset ys = bag h \<and> sorted_wrt (\<lambda>a b. c a b (wrld h)) ys \<and>
    heap_ok c u pos h' \<and> bag h' = {#}"
  using assms
proof (induction n arbitrary: h)
  case (Suc n)
  then have "he h \<noteq> 1" using bag_empty [OF heap_okD(1) [OF Suc.prems(1)]] by auto
  then obtain h1 where h1: "heap_highest h = Some (Some (arr h ! 1), h1)" "heap_ok c u pos h1" "bag h = add_mset (arr h ! 1) (bag h1)"
    "\<forall>a b. c a b (wrld h1) = c a b (wrld h)" using highest_ok [OF Suc.prems(1)] by blast
  obtain ys h' where h': "heap_drain n h1 = Some (map Some ys, h')" "mset ys = bag h1" "sorted_wrt (\<lambda>a b. c a b (wrld h1)) ys"
    "heap_ok c u pos h'" "bag h' = {#}" using Suc.IH [OF h1(2)] h1(3) Suc.prems(2) by auto
  have "c (arr h ! 1) y (wrld h)" if "y \<in> set ys" for y
    using highest_max [OF Suc.prems(1), of y] h1(3) h'(2) that by (metis insert_iff set_mset_add_mset_insert set_mset_mset)
  then show ?case using h1 h' by (intro exI [of _ "arr h ! 1 # ys"] exI [of _ h']) simp
qed simp

end

text \<open>
  C25: refinement of the bag. From a heap in order every operation comes back (no assertion fails
  and no loop goes on), leaves a heap in order whose entries know their positions, and does what the
  bag does.
\<close>

theorem heap_refines_bag:
  assumes "heap_client c u pos" "heap_ok c u pos h" "heap_pre pos op h"
  shows "\<exists>r h'. heap_do op h = Some (r, h') \<and> heap_ok c u pos h' \<and> max_sz h' = max_sz h \<and>
    bag_step (max_sz h - 1) (\<lambda>a b. c a b (wrld h)) (pos (wrld h)) op (bag h) r (bag h')"
  by (rule heap_client.do_refines [OF assms])

text \<open>A heap of three entries with the values 7, 5 and 6.\<close>

definition three_heap :: "(nat, nat \<Rightarrow> hentry) heap" where
  "three_heap = \<lparr>he = 4, max_sz = 5, cmp = hentry_c, upd = hentry_u, arr = [0, 20, 21, 22, 0],
     wrld = (\<lambda>x. if x = 20 then \<lparr>hindex = 1, hvalue = 7\<rparr> else if x = 21 then \<lparr>hindex = 2, hvalue = 5\<rparr>
       else if x = 22 then \<lparr>hindex = 3, hvalue = 6\<rparr> else \<lparr>hindex = 0, hvalue = 9\<rparr>)\<rparr>"

lemma below_4: "1 \<le> i \<Longrightarrow> i < 4 \<Longrightarrow> i = 1 \<or> i = 2 \<or> i = (3 :: nat)"
  by auto

lemma three_heap_ok: "heap_ok hentry_c hentry_u (\<lambda>w x. hindex (w x)) three_heap"
proof -
  have "hindex (wrld three_heap (arr three_heap ! i)) = i" if "1 \<le> i" "i < 4" for i
    using below_4 [OF that] by (auto simp: three_heap_def)
  moreover have "hentry_c (arr three_heap ! (i div 2)) (arr three_heap ! i) (wrld three_heap)" if "1 < i" "i < 4" for i
    using below_4 [of i] that by (auto simp: three_heap_def hentry_c_def)
  moreover have "he three_heap = 4" "max_sz three_heap = 5" "cmp three_heap = hentry_c" "upd three_heap = hentry_u" "length (arr three_heap) = 5"
    by (simp_all add: three_heap_def)
  ultimately show ?thesis by (simp add: heap_ok_def shape_def ordered_def heap_order_def)
qed

theorem heap_refines_bag_witness:
  "\<exists>r h'. heap_do (Add 23) three_heap = Some (r, h') \<and> heap_ok hentry_c hentry_u (\<lambda>w x. hindex (w x)) h' \<and> r = Inl 0 \<and> bag h' = {#20, 21, 22, 23#}"
proof -
  have b: "bag three_heap = {#20, 21, 22#}" "max_sz three_heap = 5" by (simp_all add: bag_def slots_def three_heap_def numeral_eq_Suc)
  have "heap_pre (\<lambda>w x. hindex (w x)) (Add 23) three_heap" using b by simp
  from heap_refines_bag [OF hentry.heap_client_axioms three_heap_ok this] b show ?thesis by auto
qed



text \<open>
  The block \<^verbatim>\<open>heap_alloc\<close> asks for, with 20 bytes for the structure and 4 for a pointer, ends before
  the last slot does: the slots are numbered from 1, and the added 1 is a byte, not a slot.
\<close>

definition heap_block_bytes :: "nat \<Rightarrow> nat" where
  "heap_block_bytes sz = 20 + sz * 4 + 1"

definition heap_slot_end :: "nat \<Rightarrow> nat" where
  "heap_slot_end i = 20 + i * 4 + 4"

lemma heap_alloc_too_small: "heap_alloc (Some block) sz c u w = Some h \<Longrightarrow> heap_block_bytes sz < heap_slot_end (max_sz h - 1)"
  by (auto simp: heap_alloc_def heap_block_bytes_def heap_slot_end_def)

end
