(* ===== verification/KernelFault.thy ===== *)
theory KernelFault
  imports Prelude
begin

text \<open>
  How the kernel tells clients of a fault. Every component has a fault counter, every capability and
  every frame of a thread's invocation stack a copy of the counter of the component it leads to
  (\<^verbatim>\<open>kernel/include/recovery.h\<close>). An invocation through a capability whose copy is behind is not
  delivered but redirected to the fault handler (\<^verbatim>\<open>ipc_walk_static_cap\<close> and \<^verbatim>\<open>pop\<close> in
  \<^verbatim>\<open>kernel/__inv_rec\<close>); the handler (\<^verbatim>\<open>components/implementation/pgfault/recov_poc/__pgfault_rec\<close>)
  takes the failed component off the invocation stack and moves the return address of the client 8
  bytes back, to the instruction that sets the fault flag of \<^verbatim>\<open>CSTUB_INVOKE\<close>.

  Components and threads are the indices of their structures. Page tables, the reference counts of
  protection domains, measurements and messages are left out. \<^term>\<open>None\<close> is a failed assertion, an
  access through \<^verbatim>\<open>NULL\<close> or beyond the invocation stack, or a chain of failed fault handlers longer
  than the bound.
\<close>

abbreviation (input) MAX_SERVICE_DEPTH :: int where
  "MAX_SERVICE_DEPTH \<equiv> 31"

abbreviation (input) MAX_NUM_THREADS :: int where
  "MAX_NUM_THREADS \<equiv> 128"

abbreviation (input) MAX_NUM_SPDS :: int where
  "MAX_NUM_SPDS \<equiv> 64"

abbreviation (input) MAX_STATIC_CAP :: nat where
  "MAX_STATIC_CAP \<equiv> 256"

section \<open>State\<close>

record invocation_cap =
  destination :: "nat option"
  invocation_cnt :: "30 word"
  dest_entry_instruction :: u32
  cap_fault :: u32

record spd =
  spd_fault :: u32
  spd_reflection :: u32
  ncaps :: nat
  caps :: "nat \<Rightarrow> invocation_cap"
  fault_handler :: "nat \<Rightarrow> u32"
  composite_spd :: nat
  upcall_entry :: u32

record thd_invocation_frame =
  current_composite_spd :: nat
  fr_spd :: nat
  fr_sp :: u32
  fr_ip :: u32
  fr_fault :: u32

record pt_regs =
  ax :: u32
  bx :: u32
  cx :: u32
  dx :: u32
  si :: u32
  di :: u32
  bp :: u32
  sp :: u32
  ip :: u32

record thread =
  thread_id :: nat
  stack_ptr :: int
  stack_base :: "nat \<Rightarrow> thd_invocation_frame"
  regs :: pt_regs
  fault_regs :: pt_regs
  flags :: "16 word"
  clear_pending_upcall :: u32

record kernel =
  spds :: "nat \<Rightarrow> spd"
  spd_is_free :: "nat \<Rightarrow> bool"
  threads :: "nat \<Rightarrow> thread"
  curr_thd :: nat                      \<comment> \<open>the index of the current thread\<close>
  trap_regs :: pt_regs                 \<comment> \<open>the registers an exception has saved\<close>

abbreviation (input) THD_STATE_PREEMPTED :: "16 word" where
  "THD_STATE_PREEMPTED \<equiv> 0x1"

abbreviation (input) THD_STATE_CYC_CNT :: "16 word" where
  "THD_STATE_CYC_CNT \<equiv> 0x80"

definition preempted :: "thread \<Rightarrow> bool" where
  "preempted t \<longleftrightarrow> flags t AND THD_STATE_PREEMPTED \<noteq> 0"

text \<open>What the kernel gets from its platform and from code that is not modelled.\<close>

record platform =
  virtual_namespace_query :: "u32 \<Rightarrow> nat option"
  spd_composite_member :: "nat \<Rightarrow> nat \<Rightarrow> bool"
  get_cpuid_fast :: u32
  spd_mpd_ipc_take :: "nat \<Rightarrow> kernel \<Rightarrow> kernel"      \<comment> \<open>counts a use of a composite component\<close>
  upcall_unhandled_fault :: "kernel \<Rightarrow> kernel"     \<comment> \<open>\<^verbatim>\<open>thd_ret_upcall_type\<close>, when no component handles a fault\<close>

definition put_spd :: "nat \<Rightarrow> (spd \<Rightarrow> spd) \<Rightarrow> kernel \<Rightarrow> kernel" where
  "put_spd s f K = K\<lparr>spds := (spds K)(s := f (spds K s))\<rparr>"

definition put_cap :: "nat \<Rightarrow> (invocation_cap \<Rightarrow> invocation_cap) \<Rightarrow> spd \<Rightarrow> spd" where
  "put_cap c f s = s\<lparr>caps := (caps s)(c := f (caps s c))\<rparr>"

definition put_thd :: "nat \<Rightarrow> (thread \<Rightarrow> thread) \<Rightarrow> kernel \<Rightarrow> kernel" where
  "put_thd t f K = K\<lparr>threads := (threads K)(t := f (threads K t))\<rparr>"

definition put_frame :: "nat \<Rightarrow> (thd_invocation_frame \<Rightarrow> thd_invocation_frame) \<Rightarrow> thread \<Rightarrow> thread" where
  "put_frame i f t = t\<lparr>stack_base := (stack_base t)(i := f (stack_base t i))\<rparr>"

definition spd_get_by_index :: "int \<Rightarrow> kernel \<Rightarrow> nat option" where
  "spd_get_by_index idx K =
     (if idx \<ge> MAX_NUM_SPDS \<or> idx < 0 then None else if spd_is_free K (nat idx) then None else Some (nat idx))"

definition thd_get_by_id :: "int \<Rightarrow> nat option" where
  "thd_get_by_id i = (let adjusted = i - 1 in if adjusted \<ge> MAX_NUM_THREADS \<or> adjusted < 0 then None else Some (nat adjusted))"

section \<open>The invocation stack\<close>

definition thd_invocation_push :: "(nat \<Rightarrow> spd) \<Rightarrow> nat \<Rightarrow> u32 \<Rightarrow> u32 \<Rightarrow> thread \<Rightarrow> thread option" where
  "thd_invocation_push ss s sp' ip' t = do {
     let t = t\<lparr>stack_ptr := stack_ptr t + 1\<rparr>;
     assert_that (0 \<le> stack_ptr t \<and> stack_ptr t < MAX_SERVICE_DEPTH);
     Some (put_frame (nat (stack_ptr t)) (\<lambda>_. \<lparr>current_composite_spd = composite_spd (ss s), fr_spd = s, fr_sp = sp', fr_ip = ip',
       fr_fault = spd_fault (ss s)\<rparr>) t) }"

definition thd_invocation_pop :: "thread \<Rightarrow> thd_invocation_frame option \<times> thread" where
  "thd_invocation_pop t =
     (if stack_ptr t \<le> 0 then (None, t)
      else (Some (stack_base t (nat (stack_ptr t))), t\<lparr>stack_ptr := stack_ptr t - 1\<rparr>))"

definition thd_invstk_top :: "thread \<Rightarrow> nat option" where
  "thd_invstk_top t = (if stack_ptr t < 0 then None else Some (nat (stack_ptr t)))"

definition thd_invstk_nth :: "thread \<Rightarrow> int \<Rightarrow> nat option" where
  "thd_invstk_nth t n = (let idx = stack_ptr t - n in if idx < 0 then None else Some (nat idx))"

definition thd_invstk_move_nth :: "int \<Rightarrow> bool \<Rightarrow> thread \<Rightarrow> thread option" where
  "thd_invstk_move_nth n rem t = do {
     assert_that (n \<noteq> 0);
     assert_that (n < stack_ptr t);
     let if_keep = stack_base t (nat (n + 1));
     if rem then Some (put_frame (nat n) (\<lambda>fr. fr\<lparr>fr_spd := fr_spd if_keep, current_composite_spd := current_composite_spd if_keep\<rparr>) t)
     else Some (put_frame (nat n) (\<lambda>_. if_keep) t) }"

fun move_down :: "int list \<Rightarrow> bool \<Rightarrow> thread \<Rightarrow> thread option" where
  "move_down [] first t = Some t"
| "move_down (i # js) first t = do { t \<leftarrow> thd_invstk_move_nth i first t; move_down js False t }"

definition thd_invstk_rem_nth :: "int \<Rightarrow> thread \<Rightarrow> (int \<times> thread) option" where
  "thd_invstk_rem_nth n t =
     (let idx = stack_ptr t - n in
      if n < 0 \<or> n \<ge> stack_ptr t then Some (-1, t)
      else do {
        t \<leftarrow> move_down [idx..stack_ptr t - 1] True t;
        Some (0, t\<lparr>stack_ptr := stack_ptr t - 1\<rparr>) })"

definition thd_curr_spd_thd :: "thread \<Rightarrow> nat option" where
  "thd_curr_spd_thd t = (if 0 \<le> stack_ptr t \<and> stack_ptr t < MAX_SERVICE_DEPTH then Some (fr_spd (stack_base t (nat (stack_ptr t)))) else None)"

text \<open>The address at which a frame is left is kept in the frame above it.\<close>

definition thd_get_frame_ip :: "thread \<Rightarrow> int \<Rightarrow> u32" where
  "thd_get_frame_ip t frame_offset =
     (if frame_offset > stack_ptr t \<or> frame_offset < 0 then 0
      else let off = stack_ptr t - frame_offset in
        if off = stack_ptr t then (if preempted t then ip (regs t) else 0)
        else fr_ip (stack_base t (nat (off + 1))))"

definition thd_set_frame_ip :: "thread \<Rightarrow> int \<Rightarrow> u32 \<Rightarrow> int \<times> thread" where
  "thd_set_frame_ip t frame_offset new_ip =
     (if frame_offset > stack_ptr t \<or> frame_offset < 0 then (-1, t)
      else let off = stack_ptr t - frame_offset in
        if off = stack_ptr t then (0, if preempted t then t\<lparr>regs := (regs t)\<lparr>ip := new_ip\<rparr>\<rparr> else t)
        else (0, put_frame (nat (off + 1)) (\<lambda>fr. fr\<lparr>fr_ip := new_ip\<rparr>) t))"

definition thd_get_frame_sp :: "thread \<Rightarrow> int \<Rightarrow> u32" where
  "thd_get_frame_sp t frame_offset =
     (if frame_offset > stack_ptr t \<or> frame_offset < 0 then 0
      else let off = stack_ptr t - frame_offset in
        if off = stack_ptr t then (if preempted t then sp (regs t) else 0)
        else fr_sp (stack_base t (nat (off + 1))))"

definition thd_set_frame_sp :: "thread \<Rightarrow> int \<Rightarrow> u32 \<Rightarrow> int \<times> thread" where
  "thd_set_frame_sp t frame_offset new_sp =
     (if frame_offset > stack_ptr t \<or> frame_offset < 0 then (1, t)
      else let off = stack_ptr t - frame_offset in
        if off = stack_ptr t then (0, if preempted t then t\<lparr>regs := (regs t)\<lparr>sp := new_sp\<rparr>\<rparr> else t)
        else (0, put_frame (nat (off + 1)) (\<lambda>fr. fr\<lparr>fr_sp := new_sp\<rparr>) t))"

definition thd_spd_in_composite :: "platform \<Rightarrow> nat \<Rightarrow> nat \<Rightarrow> kernel \<Rightarrow> bool" where
  "thd_spd_in_composite P cs s K \<longleftrightarrow> composite_spd (spds K s) = cs \<or> spd_composite_member P s cs"

definition thd_validate_get_current_spd :: "platform \<Rightarrow> int \<Rightarrow> kernel \<Rightarrow> nat option" where
  "thd_validate_get_current_spd P spd_id K = (let t = threads K (curr_thd K) in
     case spd_get_by_index spd_id K of
       None \<Rightarrow> None
     | Some s \<Rightarrow> if thd_spd_in_composite P (current_composite_spd (stack_base t (nat (stack_ptr t)))) s K then Some s else None)"

section \<open>Fault counters\<close>

definition ipc_fault_detect :: "invocation_cap \<Rightarrow> spd \<Rightarrow> bool" where
  "ipc_fault_detect cap dest \<longleftrightarrow> cap_fault cap < spd_fault dest"

text \<open>The three tests on a frame are given the component of the frame and bring the frame up to date.\<close>

definition frame_fault_detect :: "spd \<Rightarrow> thd_invocation_frame \<Rightarrow> bool \<times> thd_invocation_frame" where
  "frame_fault_detect s fr = (if fr_fault fr < spd_fault s then (True, fr\<lparr>fr_fault := spd_fault s\<rparr>) else (False, fr))"

definition pop_fault_detect :: "(nat \<Rightarrow> spd) \<Rightarrow> thd_invocation_frame \<Rightarrow> bool \<times> thd_invocation_frame" where
  "pop_fault_detect ss fr = (if fr_spd fr = 21 \<or> fr_spd fr = 1 then (False, fr) else frame_fault_detect (ss (fr_spd fr)) fr)"

definition switch_thd_fault_detect :: "(nat \<Rightarrow> spd) \<Rightarrow> thread \<Rightarrow> (bool \<times> thread) option" where
  "switch_thd_fault_detect ss t = (case thd_invstk_top t of
     None \<Rightarrow> None
   | Some i \<Rightarrow> (case frame_fault_detect (ss (fr_spd (stack_base t i))) (stack_base t i) of (r, fr) \<Rightarrow> Some (r, put_frame i (\<lambda>_. fr) t)))"

definition inv_frame_fault_cnt_update :: "spd \<Rightarrow> thd_invocation_frame \<Rightarrow> thd_invocation_frame" where
  "inv_frame_fault_cnt_update s fr = fr\<lparr>fr_fault := spd_fault s\<rparr>"

definition ipc_fault_update :: "spd \<Rightarrow> invocation_cap \<Rightarrow> invocation_cap" where
  "ipc_fault_update dest cap = cap\<lparr>cap_fault := spd_fault dest\<rparr>"

definition switch_thd_fault_update :: "(nat \<Rightarrow> spd) \<Rightarrow> thread \<Rightarrow> thread option" where
  "switch_thd_fault_update ss t = (case thd_invstk_top t of
     None \<Rightarrow> None
   | Some i \<Rightarrow> Some (put_frame i (inv_frame_fault_cnt_update (ss (fr_spd (stack_base t i)))) t))"

definition interrupt_fault_detect :: "(nat \<Rightarrow> spd) \<Rightarrow> thread \<Rightarrow> (bool \<times> thread) option" where
  "interrupt_fault_detect ss t = switch_thd_fault_detect ss t"

definition pop_fault_update :: "(nat \<Rightarrow> spd) \<Rightarrow> thd_invocation_frame \<Rightarrow> thd_invocation_frame" where
  "pop_fault_update ss fr = fr\<lparr>fr_fault := spd_fault (ss (fr_spd fr))\<rparr>"

definition interrupt_fault_update :: "(nat \<Rightarrow> spd) \<Rightarrow> thread \<Rightarrow> thread option" where
  "interrupt_fault_update ss t = switch_thd_fault_update ss t"

text \<open>A new component, and the fault counter of a capability when its destination is set.\<close>

definition init_spd_fault_cnt :: "spd \<Rightarrow> spd" where
  "init_spd_fault_cnt s = s\<lparr>spd_fault := 0\<rparr>"

definition init_spd_reflect_cnt :: "spd \<Rightarrow> spd" where
  "init_spd_reflect_cnt s = s\<lparr>spd_reflection := 0\<rparr>"

definition spd_cap_set_dest :: "nat \<Rightarrow> nat \<Rightarrow> nat \<Rightarrow> kernel \<Rightarrow> int \<times> kernel" where
  "spd_cap_set_dest s cap d K = (let c = cap + 1 in
     if c \<ge> ncaps (spds K s) then (-1, K)
     else (0, put_spd s (put_cap c (\<lambda>cp. ipc_fault_update (spds K d) (cp\<lparr>destination := Some d\<rparr>))) K))"

datatype fault_op = COS_SPD_FAULT_TRIGGER | COS_CAP_REFLECT_UPDATE | COS_CAP_FAULT_UPDATE | COS_SPD_FAULT_UPDATE_FRAME

text \<open>The loop over all capabilities of a component that lead to the same destination.\<close>

fun update_caps :: "nat \<Rightarrow> u32 \<Rightarrow> nat list \<Rightarrow> spd \<Rightarrow> spd" where
  "update_caps d cnt [] s = s"
| "update_caps d cnt (i # js) s =
     update_caps d cnt js (if destination (caps s i) = Some d then put_cap i (\<lambda>c. c\<lparr>cap_fault := cnt\<rparr>) s else s)"

definition fault_cnt_syscall_helper :: "int \<Rightarrow> fault_op \<Rightarrow> int \<Rightarrow> u32 \<Rightarrow> kernel \<Rightarrow> (int \<times> kernel) option" where
  "fault_cnt_syscall_helper spdid option d_spdid cap_no K =
     (case (spd_get_by_index spdid K, spd_get_by_index d_spdid K) of
        (Some this, Some d) \<Rightarrow>
          if option = COS_SPD_FAULT_UPDATE_FRAME then
            (let t = threads K (curr_thd K) in do {
               assert_that (d_spdid = int (fr_spd (stack_base t 0)));
               Some (0, put_thd (curr_thd K) (put_frame 0 (inv_frame_fault_cnt_update (spds K d))) K) })
          else let cap_no = unat (drop_bit 20 cap_no) in
            if cap_no \<ge> MAX_STATIC_CAP then Some (-1, K)
            else let cap_entry = caps (spds K d) cap_no in
              (case option of
                 COS_SPD_FAULT_TRIGGER \<Rightarrow>
                   Some (0, put_spd d (\<lambda>s. s\<lparr>spd_fault := spd_fault s + 1, spd_reflection := spd_fault s + 1\<rparr>) K)
               | COS_CAP_FAULT_UPDATE \<Rightarrow> do {
                   dest \<leftarrow> destination cap_entry;
                   let cnt = spd_fault (spds K dest);
                   if cap_fault cap_entry = cnt then Some (sint cnt, K)
                   else Some (sint cnt, put_spd d (update_caps dest cnt [1..<ncaps (spds K d)]) K) }
               | _ \<Rightarrow>
                   if spd_fault (spds K d) = 0 then Some (0, K)
                   else if spd_reflection (spds K d) = spd_fault (spds K d) then
                     Some (1, put_spd d (\<lambda>s. s\<lparr>spd_reflection := spd_reflection s + 1\<rparr>) K)
                   else Some (0, K))
      | _ \<Rightarrow> Some (-1, K))"

section \<open>Invocation and return\<close>

datatype regs_at = Thd_regs | Trap_regs

definition get_regs :: "regs_at \<Rightarrow> kernel \<Rightarrow> pt_regs" where
  "get_regs a K = (case a of Thd_regs \<Rightarrow> regs (threads K (curr_thd K)) | Trap_regs \<Rightarrow> trap_regs K)"

definition put_regs :: "regs_at \<Rightarrow> (pt_regs \<Rightarrow> pt_regs) \<Rightarrow> kernel \<Rightarrow> kernel" where
  "put_regs a f K = (case a of Thd_regs \<Rightarrow> put_thd (curr_thd K) (\<lambda>t. t\<lparr>regs := f (regs t)\<rparr>) K
     | Trap_regs \<Rightarrow> K\<lparr>trap_regs := f (trap_regs K)\<rparr>)"

abbreviation (input) COS_FLT_PGFLT :: nat where
  "COS_FLT_PGFLT \<equiv> 0"

abbreviation (input) COS_FLT_FLT_NOTIF :: nat where
  "COS_FLT_FLT_NOTIF \<equiv> 8"

abbreviation (input) COS_FLT_MAX :: nat where
  "COS_FLT_MAX \<equiv> 9"

text \<open>
  \<^verbatim>\<open>__fault_ipc_invoke\<close>, for the current thread; \<open>walk\<close> is \<^verbatim>\<open>ipc_walk_static_cap\<close>, and \<open>r\<close> what is in
  the structure \<^verbatim>\<open>inv_ret_struct\<close> before the call.
\<close>

type_synonym walk = "u32 \<Rightarrow> u32 \<Rightarrow> u32 \<Rightarrow> u32 \<times> u32 \<Rightarrow> kernel \<Rightarrow> (u32 \<times> (u32 \<times> u32) \<times> kernel) option"

definition fault_ipc_invoke :: "walk \<Rightarrow> platform \<Rightarrow> u32 \<times> u32 \<Rightarrow> u32 \<Rightarrow> u32 \<Rightarrow> regs_at \<Rightarrow> nat \<Rightarrow> nat option \<Rightarrow> kernel \<Rightarrow> (u32 \<times> kernel) option" where
  "fault_ipc_invoke walk P r fault_addr fault_flags at fault_num dest_spd K = do {
     s \<leftarrow> (case dest_spd of
             Some d \<Rightarrow> Some d
           | None \<Rightarrow> (case virtual_namespace_query P (ip (get_regs at K)) of
                 Some s \<Rightarrow> Some s
               | None \<Rightarrow> (let t = threads K (curr_thd K) in
                   map_option (\<lambda>i. fr_spd (stack_base t i)) (thd_invstk_top t))));
     assert_that (fault_num < COS_FLT_MAX);
     let fault_cap = fault_handler (spds K s) fault_num;
     if fault_cap = 0 then Some (0, upcall_unhandled_fault P K)
     else do {
       let fault_cap = fault_cap + 1;
       let K = put_thd (curr_thd K) (\<lambda>t. t\<lparr>fault_regs := get_regs at K\<rparr>) K;
       (a, r, K) \<leftarrow> walk (push_bit 20 fault_cap) (sp (get_regs at K)) (ip (get_regs at K)) r K;
       Some (a, put_regs at (\<lambda>rg. rg\<lparr>ax := fst r, bx := snd r, cx := snd r, sp := 0, si := fault_addr, di := fault_flags,
         bp := ip rg, dx := a, ip := a\<rparr>) K) } }"

definition walk_static_cap :: "walk \<Rightarrow> platform \<Rightarrow> walk" where
  "walk_static_cap walk P capability sp' ip' ret K =
     (let t = curr_thd K; capability = unat (drop_bit 20 capability) in
      case thd_curr_spd_thd (threads K t) of
        None \<Rightarrow> Some (0, ret, K)
      | Some curr_spd \<Rightarrow>
          if capability \<ge> ncaps (spds K curr_spd) then Some (0, ret, K)
          else let cap_entry = caps (spds K curr_spd) capability in
          (case destination cap_entry of
             None \<Rightarrow> Some (0, ret, K)
           | Some dest_spd \<Rightarrow>
               if \<not> thd_spd_in_composite P (current_composite_spd (stack_base (threads K t) (nat (stack_ptr (threads K t))))) curr_spd K
               then Some (0, ret, K)
               else do {
                 let ret = (of_nat (thread_id (threads K t)) OR push_bit 16 (get_cpuid_fast P), of_nat curr_spd);
                 pushed \<leftarrow> thd_invocation_push (spds K) dest_spd sp' ip' (threads K t);
                 let pushed = put_frame (nat (stack_ptr pushed - 1)) (inv_frame_fault_cnt_update (spds K curr_spd)) pushed;
                 let K = put_thd t (\<lambda>_. pushed) K;
                 let K = put_spd curr_spd (put_cap capability (\<lambda>c. c\<lparr>invocation_cnt := invocation_cnt c + 1\<rparr>)) K;
                 if ipc_fault_detect (caps (spds K curr_spd) capability) (spds K dest_spd) then do {
                   (a, K) \<leftarrow> fault_ipc_invoke walk P ret 0 0 Thd_regs COS_FLT_FLT_NOTIF (Some dest_spd) K;
                   Some (a, ret, K) }
                 else Some (dest_entry_instruction cap_entry, ret, K) }))"

text \<open>
  The handler of a fault is invoked the same way and may itself have failed; \<open>n\<close> bounds how often.
\<close>

primrec ipc_walk_static_cap :: "nat \<Rightarrow> platform \<Rightarrow> walk" where
  "ipc_walk_static_cap 0 P = (\<lambda>capability sp' ip' ret K. None)"
| "ipc_walk_static_cap (Suc n) P = walk_static_cap (ipc_walk_static_cap n P) P"

datatype pop_result = Pop_terminates | Pop_fault_regs | Pop_notified | Pop_frame thd_invocation_frame

definition pop :: "nat \<Rightarrow> platform \<Rightarrow> u32 \<times> u32 \<Rightarrow> kernel \<Rightarrow> (pop_result \<times> kernel) option" where
  "pop n P r K =
     (let t = curr_thd K in
      case thd_invocation_pop (threads K t) of
        (None, _) \<Rightarrow> Some (Pop_terminates, K)
      | (Some inv_frame, popped) \<Rightarrow> do {
          let K = put_thd t (\<lambda>_. popped) K;
          curr_frame \<leftarrow> thd_invstk_top popped;
          if fr_ip inv_frame = 0 then Some (Pop_fault_regs, K)
          else (case pop_fault_detect (spds K) (stack_base popped curr_frame) of (fault_ret, fr) \<Rightarrow>
            let K = put_thd t (put_frame curr_frame (\<lambda>_. fr)) K in
            if fault_ret then do {
              (a, K) \<leftarrow> fault_ipc_invoke (ipc_walk_static_cap n P) P r 0 0 Thd_regs COS_FLT_FLT_NOTIF (Some (fr_spd fr)) K;
              Some (Pop_notified, K) }
            else Some (Pop_frame inv_frame, K)) })"

section \<open>The fault handlers\<close>

datatype thd_reg = Reg_IP | Reg_SP | Reg_FP | Reg_1 | Reg_2 | Reg_3 | Reg_4 | Reg_5 | Reg_6

fun reg_get :: "thd_reg \<Rightarrow> pt_regs \<Rightarrow> u32" where
  "reg_get Reg_IP r = ip r"
| "reg_get Reg_SP r = sp r"
| "reg_get Reg_FP r = bp r"
| "reg_get Reg_1 r = ax r"
| "reg_get Reg_2 r = bx r"
| "reg_get Reg_3 r = cx r"
| "reg_get Reg_4 r = dx r"
| "reg_get Reg_5 r = di r"
| "reg_get Reg_6 r = si r"

fun reg_set :: "thd_reg \<Rightarrow> u32 \<Rightarrow> pt_regs \<Rightarrow> pt_regs" where
  "reg_set Reg_IP v r = r\<lparr>ip := v\<rparr>"
| "reg_set Reg_SP v r = r\<lparr>sp := v\<rparr>"
| "reg_set Reg_FP v r = r\<lparr>bp := v\<rparr>"
| "reg_set Reg_1 v r = r\<lparr>ax := v\<rparr>"
| "reg_set Reg_2 v r = r\<lparr>bx := v\<rparr>"
| "reg_set Reg_3 v r = r\<lparr>cx := v\<rparr>"
| "reg_set Reg_4 v r = r\<lparr>dx := v\<rparr>"
| "reg_set Reg_5 v r = r\<lparr>di := v\<rparr>"
| "reg_set Reg_6 v r = r\<lparr>si := v\<rparr>"

datatype thd_op = COS_THD_INV_FRAME int | COS_THD_INV_FRAME_REM int | COS_THD_INV_SPD int | COS_THD_HOME_SPD
  | COS_THD_RESET_HOME_SPD int | COS_THD_CLEAR_PENDING_UPCALL u32 | COS_THD_FIND_SPD_TO_FLIP int
  | COS_THD_INVFRM_IP int | COS_THD_INVFRM_SET_IP int u32 | COS_THD_INVFRM_SP int | COS_THD_INVFRM_SET_SP int u32
  | COS_THD_GET thd_reg bool | COS_THD_SET thd_reg u32 bool | COS_THD_STATUS | COS_THD_undefined

text \<open>A thread starts again in a component, on an empty stack.\<close>

definition reset_home :: "platform \<Rightarrow> nat \<Rightarrow> nat \<Rightarrow> kernel \<Rightarrow> kernel" where
  "reset_home P s t K = (let
     K = put_thd t (\<lambda>thd. put_frame 0 (\<lambda>fr. fr\<lparr>current_composite_spd := composite_spd (spds K s), fr_spd := s\<rparr>) (thd\<lparr>stack_ptr := 0\<rparr>)) K;
     K = spd_mpd_ipc_take P (composite_spd (spds K s)) K
   in put_thd t (\<lambda>thd. thd\<lparr>regs := (regs thd)\<lparr>cx := 1, dx := upcall_entry (spds K s), bx := 0, di := 0, si := 0,
          ax := of_nat (thread_id thd) OR push_bit 16 (get_cpuid_fast P)\<rparr>,
        flags := flags thd OR THD_STATE_CYC_CNT\<rparr>) K)"

definition cos_syscall_thd_cntl :: "platform \<Rightarrow> int \<Rightarrow> thd_op \<Rightarrow> int \<Rightarrow> kernel \<Rightarrow> (int \<times> kernel) option" where
  "cos_syscall_thd_cntl P spd_id op thdid K = (case thd_validate_get_current_spd P spd_id K of
     None \<Rightarrow> Some (-1, K)
   | Some curr_spd \<Rightarrow>
       (case op of
          COS_THD_INV_FRAME frame_offset \<Rightarrow> do {
            t \<leftarrow> thd_get_by_id thdid;
            (case thd_invstk_nth (threads K t) frame_offset of
               None \<Rightarrow> Some (0, K)
             | Some i \<Rightarrow> Some (int (fr_spd (stack_base (threads K t) i)), K)) }
        | COS_THD_INV_FRAME_REM frame_offset \<Rightarrow>
            if frame_offset < 1 then Some (-1, K)
            else do {
              t \<leftarrow> thd_get_by_id thdid;
              (r, thd) \<leftarrow> thd_invstk_rem_nth frame_offset (threads K t);
              Some (if r \<noteq> 0 then -1 else 0, put_thd t (\<lambda>_. thd) K) }
        | COS_THD_INV_SPD spd \<Rightarrow> do {
            t \<leftarrow> thd_get_by_id thdid;
            let thd = threads K t;
            (case find (\<lambda>i. spd = int (fr_spd (stack_base thd (nat (stack_ptr thd - i))))) [0..stack_ptr thd] of
               None \<Rightarrow> Some (-1, K)
             | Some i \<Rightarrow> Some (i, K)) }
        | COS_THD_HOME_SPD \<Rightarrow> do {
            t \<leftarrow> thd_get_by_id thdid;
            Some (int (fr_spd (stack_base (threads K t) 0)), K) }
        | COS_THD_RESET_HOME_SPD spd \<Rightarrow>
            (case (spd_get_by_index spd K, thd_get_by_id thdid) of
               (Some s, Some t) \<Rightarrow> Some (0, reset_home P s t K)
             | _ \<Rightarrow> Some (-1, K))
        | COS_THD_CLEAR_PENDING_UPCALL v \<Rightarrow> Some (0, put_thd (curr_thd K) (\<lambda>thd. thd\<lparr>clear_pending_upcall := v\<rparr>) K)
        | COS_THD_FIND_SPD_TO_FLIP spd \<Rightarrow> do {
            t \<leftarrow> thd_get_by_id thdid;
            i \<leftarrow> thd_invstk_top (threads K t);
            Some (if spd = int (fr_spd (stack_base (threads K t) i)) \<and> preempted (threads K t) then spd else -1, K) }
        | COS_THD_INVFRM_IP frame_offset \<Rightarrow> do {
            t \<leftarrow> thd_get_by_id thdid;
            Some (sint (thd_get_frame_ip (threads K t) frame_offset), K) }
        | COS_THD_INVFRM_SET_IP frame_offset new_ip \<Rightarrow> do {
            t \<leftarrow> thd_get_by_id thdid;
            let (r, thd) = thd_set_frame_ip (threads K t) frame_offset new_ip;
            Some (r, put_thd t (\<lambda>_. thd) K) }
        | COS_THD_INVFRM_SP frame_offset \<Rightarrow> do {
            t \<leftarrow> thd_get_by_id thdid;
            Some (sint (thd_get_frame_sp (threads K t) frame_offset), K) }
        | COS_THD_INVFRM_SET_SP frame_offset new_sp \<Rightarrow> do {
            t \<leftarrow> thd_get_by_id thdid;
            let (r, thd) = thd_set_frame_sp (threads K t) frame_offset new_sp;
            Some (r, put_thd t (\<lambda>_. thd) K) }
        | COS_THD_GET reg fault \<Rightarrow> do {
            t \<leftarrow> thd_get_by_id thdid;
            let thd = threads K t;
            Some (if fault then sint (reg_get reg (fault_regs thd)) else if \<not> preempted thd then 0 else sint (reg_get reg (regs thd)), K) }
        | COS_THD_SET reg v fault \<Rightarrow> do {
            t \<leftarrow> thd_get_by_id thdid;
            if fault then Some (0, put_thd t (\<lambda>thd. thd\<lparr>fault_regs := reg_set reg v (fault_regs thd)\<rparr>) K)
            else if preempted (threads K t) then Some (0, put_thd t (\<lambda>thd. thd\<lparr>regs := reg_set reg v (regs thd)\<rparr>) K)
            else Some (-1, K) }
        | COS_THD_STATUS \<Rightarrow> do {
            t \<leftarrow> thd_get_by_id thdid;
            Some (uint (flags (threads K t)), K) }
        | COS_THD_undefined \<Rightarrow> Some (-1, K)))"

text \<open>
  The part the two handlers share: the failed component is taken off the stack and the return
  address moved back. Both run as the current thread in the component \<open>this\<close>.
\<close>

definition redirect_to_fault_label :: "platform \<Rightarrow> int \<Rightarrow> int \<Rightarrow> kernel \<Rightarrow> kernel option" where
  "redirect_to_fault_label P this tid K = do {
     (r_ip, K) \<leftarrow> cos_syscall_thd_cntl P this (COS_THD_INVFRM_IP 1) tid K;
     let r_ip = (word_of_int r_ip :: u32);
     assert_that (r_ip \<noteq> 0);
     (r, K) \<leftarrow> cos_syscall_thd_cntl P this (COS_THD_INVFRM_SET_IP 1 (r_ip - 8)) tid K;
     assert_that (r = 0);
     Some K }"

datatype handler_result = Handled | Upcalls_home

definition fault_flt_notif_handler :: "platform \<Rightarrow> int \<Rightarrow> int \<Rightarrow> kernel \<Rightarrow> (handler_result \<times> kernel) option" where
  "fault_flt_notif_handler P this spdid K = do {
     let tid = int (thread_id (threads K (curr_thd K)));
     (r, K) \<leftarrow> cos_syscall_thd_cntl P this (COS_THD_INV_FRAME_REM 1) tid K;
     if r = 0 then do { K \<leftarrow> redirect_to_fault_label P this tid K; Some (Handled, K) }
     else do {
       (home_spd, K) \<leftarrow> cos_syscall_thd_cntl P this COS_THD_HOME_SPD tid K;
       if home_spd = spdid then Some (Upcalls_home, K) else None } }"

text \<open>
  \<open>failed\<close> counts the calls; the handler gives up at the tenth. \<open>notif\<close> is the call into the booter,
  which reboots the component.
\<close>

definition fault_page_fault_handler :: "platform \<Rightarrow> (kernel \<Rightarrow> kernel) \<Rightarrow> int \<Rightarrow> int \<Rightarrow> nat \<Rightarrow> kernel \<Rightarrow> (handler_result \<times> nat \<times> kernel) option" where
  "fault_page_fault_handler P notif this spdid failed K = do {
     let tid = int (thread_id (threads K (curr_thd K)));
     let failed = failed + 1;
     assert_that (failed \<noteq> 10);
     (home_spd, K) \<leftarrow> cos_syscall_thd_cntl P this COS_THD_HOME_SPD tid K;
     assert_that (home_spd \<noteq> 0);
     K \<leftarrow> (if home_spd \<noteq> spdid then do {
             (r, K) \<leftarrow> cos_syscall_thd_cntl P this (COS_THD_INV_FRAME_REM 1) tid K;
             assert_that (r = 0);
             redirect_to_fault_label P this tid K }
           else Some K);
     (r, K) \<leftarrow> fault_cnt_syscall_helper this COS_SPD_FAULT_TRIGGER spdid 0 K;
     assert_that (r = 0);
     let K = notif K;
     Some (if home_spd = spdid then Upcalls_home else Handled, failed, K) }"

section \<open>Taking a failed component off the stack\<close>

lemma put_simps [simp]:
  "spds (put_thd t f K) = spds K" "spd_is_free (put_thd t f K) = spd_is_free K" "curr_thd (put_thd t f K) = curr_thd K"
  "trap_regs (put_thd t f K) = trap_regs K" "threads (put_thd t f K) = (threads K)(t := f (threads K t))"
  "threads (put_spd s g K) = threads K" "spd_is_free (put_spd s g K) = spd_is_free K" "curr_thd (put_spd s g K) = curr_thd K"
  "trap_regs (put_spd s g K) = trap_regs K" "spds (put_spd s g K) = (spds K)(s := g (spds K s))"
  by (simp_all add: put_thd_def put_spd_def)

lemma put_frame_simps [simp]:
  "stack_ptr (put_frame i f t) = stack_ptr t" "thread_id (put_frame i f t) = thread_id t" "regs (put_frame i f t) = regs t"
  "flags (put_frame i f t) = flags t" "stack_base (put_frame i f t) = (stack_base t)(i := f (stack_base t i))"
  by (simp_all add: put_frame_def)

lemma put_cap_simps [simp]:
  "spd_fault (put_cap c f s) = spd_fault s" "spd_reflection (put_cap c f s) = spd_reflection s" "ncaps (put_cap c f s) = ncaps s"
  "fault_handler (put_cap c f s) = fault_handler s" "composite_spd (put_cap c f s) = composite_spd s"
  "caps (put_cap c f s) = (caps s)(c := f (caps s c))"
  by (simp_all add: put_cap_def)

text \<open>Components that differ in the counts of invocations only.\<close>

definition same_spd :: "spd \<Rightarrow> spd \<Rightarrow> bool" where
  "same_spd s s' \<longleftrightarrow> spd_fault s' = spd_fault s \<and> spd_reflection s' = spd_reflection s \<and> ncaps s' = ncaps s \<and>
     fault_handler s' = fault_handler s \<and> composite_spd s' = composite_spd s \<and>
     (\<forall>c. destination (caps s' c) = destination (caps s c) \<and> cap_fault (caps s' c) = cap_fault (caps s c) \<and>
        dest_entry_instruction (caps s' c) = dest_entry_instruction (caps s c))"

definition same_spds :: "kernel \<Rightarrow> kernel \<Rightarrow> bool" where
  "same_spds K K' \<longleftrightarrow> (\<forall>s. same_spd (spds K s) (spds K' s)) \<and> spd_is_free K' = spd_is_free K \<and> curr_thd K' = curr_thd K"

lemma same_spds_refl [simp]: "same_spds K K"
  by (simp add: same_spds_def same_spd_def)

lemma same_spds_trans: "same_spds K K' \<Longrightarrow> same_spds K' K'' \<Longrightarrow> same_spds K K''"
  by (simp add: same_spds_def same_spd_def)

lemma same_spds_thd [simp]: "same_spds K (put_thd t f K)"
  by (simp add: same_spds_def same_spd_def)

lemma same_spdsD:
  assumes "same_spds K K'"
  shows "spd_fault (spds K' s) = spd_fault (spds K s)" "ncaps (spds K' s) = ncaps (spds K s)"
    "fault_handler (spds K' s) = fault_handler (spds K s)" "composite_spd (spds K' s) = composite_spd (spds K s)"
    "destination (caps (spds K' s) c) = destination (caps (spds K s) c)" "cap_fault (caps (spds K' s) c) = cap_fault (caps (spds K s) c)"
    "dest_entry_instruction (caps (spds K' s) c) = dest_entry_instruction (caps (spds K s) c)"
    "spd_is_free K' = spd_is_free K" "curr_thd K' = curr_thd K"
  using assms by (simp_all add: same_spds_def same_spd_def)

lemma cap_shift:
  assumes "unat (w :: u32) < MAX_STATIC_CAP"
  shows "unat (drop_bit 20 (push_bit 20 w)) = unat w"
  using assms
  by (simp only: unsigned_drop_bit_eq unsigned_push_bit_eq) (simp add: take_bit_eq_mod push_bit_eq_mult drop_bit_eq_div)

lemma nat_index [simp]:
  "nat (int k + 1) = Suc k" "nat (1 + int k) = Suc k" "nat (int k + 2) = Suc (Suc k)" "nat (2 + int k) = Suc (Suc k)"
  by auto

text \<open>One frame below the top is removed: the frame of \<open>i\<close> takes over the component above it.\<close>

definition removed :: "nat \<Rightarrow> thread \<Rightarrow> thread" where
  "removed i t = t\<lparr>stack_base := (stack_base t)(i := (stack_base t i)\<lparr>fr_spd := fr_spd (stack_base t (i + 1)),
     current_composite_spd := current_composite_spd (stack_base t (i + 1))\<rparr>), stack_ptr := stack_ptr t - 1\<rparr>"

lemma rem_one:
  assumes "stack_ptr t = int k + 2"
  shows "thd_invstk_rem_nth 1 t = Some (0, removed (k + 1) t)"
  using assms by (simp add: thd_invstk_rem_nth_def thd_invstk_move_nth_def removed_def put_frame_def Let_def add.commute)

text \<open>What the redirection leaves of a thread whose stack was \<open>k + 3\<close> frames high.\<close>

definition redirected :: "nat \<Rightarrow> thread \<Rightarrow> thread" where
  "redirected k t = put_frame (k + 1) (\<lambda>fr. fr\<lparr>fr_ip := fr_ip fr - 8\<rparr>) (removed (k + 1) t)"

lemma redirect_ok:
  assumes sp: "stack_ptr t = int k + 1" and t: "t = threads K (curr_thd K)" "thread_id t = curr_thd K + 1" "int (curr_thd K) < MAX_NUM_THREADS"
    and me: "thd_validate_get_current_spd P this K = Some h"
    and ip: "fr_ip (stack_base t (k + 1)) \<noteq> 0"
  shows "redirect_to_fault_label P this (int (thread_id t)) K =
    Some (put_thd (curr_thd K) (\<lambda>_. put_frame (k + 1) (\<lambda>fr. fr\<lparr>fr_ip := fr_ip fr - 8\<rparr>) t) K)"
proof -
  have id: "thd_get_by_id (int (thread_id t)) = Some (curr_thd K)" using t by (simp add: thd_get_by_id_def)
  have "thd_get_frame_ip t 1 = fr_ip (stack_base t (k + 1))" using sp by (simp add: thd_get_frame_ip_def Let_def)
  moreover have "thd_set_frame_ip t 1 v = (0, put_frame (k + 1) (\<lambda>fr. fr\<lparr>fr_ip := v\<rparr>) t)" for v
    using sp by (simp add: thd_set_frame_ip_def Let_def)
  ultimately show ?thesis
    using me id ip t(1) by (simp add: redirect_to_fault_label_def cos_syscall_thd_cntl_def put_frame_def)
qed

lemma remove_and_redirect:
  assumes sp: "stack_ptr t = int k + 2" and t: "t = threads K (curr_thd K)" "thread_id t = curr_thd K + 1" "int (curr_thd K) < MAX_NUM_THREADS"
    and h: "fr_spd (stack_base t (k + 2)) = h" "current_composite_spd (stack_base t (k + 2)) = composite_spd (spds K h)"
    "spd_get_by_index (int h) K = Some h"
    and ip: "fr_ip (stack_base t (k + 1)) \<noteq> 0"
  shows "cos_syscall_thd_cntl P (int h) (COS_THD_INV_FRAME_REM 1) (int (thread_id t)) K = Some (0, put_thd (curr_thd K) (\<lambda>_. removed (k + 1) t) K)"
    and "redirect_to_fault_label P (int h) (int (thread_id t)) (put_thd (curr_thd K) (\<lambda>_. removed (k + 1) t) K) =
      Some (put_thd (curr_thd K) (\<lambda>_. redirected k t) K)"
    and "thd_validate_get_current_spd P (int h) K = Some h"
proof -
  have id: "thd_get_by_id (int (thread_id t)) = Some (curr_thd K)" using t by (simp add: thd_get_by_id_def)
  show v: "thd_validate_get_current_spd P (int h) K = Some h"
    using h sp t(1) by (simp add: thd_validate_get_current_spd_def thd_spd_in_composite_def Let_def)
  show "cos_syscall_thd_cntl P (int h) (COS_THD_INV_FRAME_REM 1) (int (thread_id t)) K = Some (0, put_thd (curr_thd K) (\<lambda>_. removed (k + 1) t) K)"
    using v id rem_one [OF sp] t(1) by (simp add: cos_syscall_thd_cntl_def)
  let ?K = "put_thd (curr_thd K) (\<lambda>_. removed (k + 1) t) K"
  have "thd_validate_get_current_spd P (int h) ?K = Some h"
    using h sp by (simp add: thd_validate_get_current_spd_def thd_spd_in_composite_def Let_def removed_def spd_get_by_index_def split: if_splits)
  then show "redirect_to_fault_label P (int h) (int (thread_id t)) ?K = Some (put_thd (curr_thd K) (\<lambda>_. redirected k t) K)"
    using redirect_ok [of "removed (k + 1) t" k ?K P "int h" h] sp t ip by (simp add: removed_def redirected_def put_thd_def)
qed

section \<open>Invocations\<close>

text \<open>A thread in the component \<open>c\<close>, at the slot \<open>k\<close> of its stack, that enters the component \<open>d\<close>.\<close>

definition pushed :: "(nat \<Rightarrow> spd) \<Rightarrow> nat \<Rightarrow> nat \<Rightarrow> nat \<Rightarrow> u32 \<Rightarrow> u32 \<Rightarrow> thread \<Rightarrow> thread" where
  "pushed ss k c d sp' ip' t = put_frame k (inv_frame_fault_cnt_update (ss c))
     (put_frame (k + 1) (\<lambda>_. \<lparr>current_composite_spd = composite_spd (ss d), fr_spd = d, fr_sp = sp', fr_ip = ip', fr_fault = spd_fault (ss d)\<rparr>)
       (t\<lparr>stack_ptr := int k + 1\<rparr>))"

definition entered :: "nat \<Rightarrow> nat \<Rightarrow> nat \<Rightarrow> nat \<Rightarrow> u32 \<Rightarrow> u32 \<Rightarrow> kernel \<Rightarrow> kernel" where
  "entered k c cap d sp' ip' K = put_spd c (put_cap cap (\<lambda>cp. cp\<lparr>invocation_cnt := invocation_cnt cp + 1\<rparr>))
     (put_thd (curr_thd K) (\<lambda>_. pushed (spds K) k c d sp' ip' (threads K (curr_thd K))) K)"

definition in_component :: "kernel \<Rightarrow> nat \<Rightarrow> nat \<Rightarrow> bool" where
  "in_component K k c \<longleftrightarrow> (let t = threads K (curr_thd K) in stack_ptr t = int k \<and> int k + 1 < MAX_SERVICE_DEPTH \<and>
     fr_spd (stack_base t k) = c \<and> current_composite_spd (stack_base t k) = composite_spd (spds K c))"

lemma pushed_simps [simp]:
  "stack_ptr (pushed ss k c d sp' ip' t) = int k + 1" "thread_id (pushed ss k c d sp' ip' t) = thread_id t"
  "regs (pushed ss k c d sp' ip' t) = regs t"
  by (simp_all add: pushed_def)

lemma pushed_frames:
  "stack_base (pushed ss k c d sp' ip' t) (Suc k) = \<lparr>current_composite_spd = composite_spd (ss d), fr_spd = d, fr_sp = sp', fr_ip = ip', fr_fault = spd_fault (ss d)\<rparr>"
  "stack_base (pushed ss k c d sp' ip' t) k = (stack_base t k)\<lparr>fr_fault := spd_fault (ss c)\<rparr>"
  "i < k \<Longrightarrow> stack_base (pushed ss k c d sp' ip' t) i = stack_base t i"
  by (simp_all add: pushed_def inv_frame_fault_cnt_update_def)

lemma entered_simps [simp]:
  "curr_thd (entered k c cap d sp' ip' K) = curr_thd K"
  "threads (entered k c cap d sp' ip' K) = (threads K)(curr_thd K := pushed (spds K) k c d sp' ip' (threads K (curr_thd K)))"
  "trap_regs (entered k c cap d sp' ip' K) = trap_regs K"
  by (simp_all add: entered_def)

lemma same_spds_entered [simp]: "same_spds K (entered k c cap d sp' ip' K)"
  by (simp add: same_spds_def same_spd_def entered_def)

definition inv_ret :: "platform \<Rightarrow> kernel \<Rightarrow> nat \<Rightarrow> u32 \<times> u32" where
  "inv_ret P K c = (of_nat (thread_id (threads K (curr_thd K))) OR push_bit 16 (get_cpuid_fast P), of_nat c)"

lemma walk_ok:
  assumes c: "in_component K k c" and cap: "cap = unat (drop_bit 20 capw)" "cap < ncaps (spds K c)" "destination (caps (spds K c) cap) = Some d"
  shows "walk_static_cap walk P capw sp' ip' r K =
    (if cap_fault (caps (spds K c) cap) < spd_fault (spds K d) then do {
       (a, K') \<leftarrow> fault_ipc_invoke walk P (inv_ret P K c) 0 0 Thd_regs COS_FLT_FLT_NOTIF (Some d) (entered k c cap d sp' ip' K);
       Some (a, inv_ret P K c, K') }
     else Some (dest_entry_instruction (caps (spds K c) cap), inv_ret P K c, entered k c cap d sp' ip' K))"
proof -
  let ?t = "threads K (curr_thd K)"
  have t: "stack_ptr ?t = int k" "int k + 1 < MAX_SERVICE_DEPTH" "fr_spd (stack_base ?t k) = c"
    "current_composite_spd (stack_base ?t k) = composite_spd (spds K c)" using c by (simp_all add: in_component_def Let_def)
  have cur: "thd_curr_spd_thd ?t = Some c" using t by (simp add: thd_curr_spd_thd_def)
  have push: "thd_invocation_push (spds K) d sp' ip' ?t = Some (put_frame (k + 1) (\<lambda>_. \<lparr>current_composite_spd = composite_spd (spds K d),
      fr_spd = d, fr_sp = sp', fr_ip = ip', fr_fault = spd_fault (spds K d)\<rparr>) (?t\<lparr>stack_ptr := int k + 1\<rparr>))"
    using t by (simp add: thd_invocation_push_def Let_def)
  have comps: "thd_spd_in_composite P (composite_spd (spds K c)) c K" by (simp add: thd_spd_in_composite_def)
  show ?thesis
    using t cap cur push comps by (simp add: walk_static_cap_def Let_def inv_ret_def pushed_def entered_def ipc_fault_detect_def)
qed

text \<open>A fault in \<open>d\<close> is handled by the component \<open>h\<close>, which the capability for it does not know as failed.\<close>

definition handled_by :: "kernel \<Rightarrow> nat \<Rightarrow> nat \<Rightarrow> nat \<Rightarrow> bool" where
  "handled_by K fault_num d h \<longleftrightarrow> (let hc = fault_handler (spds K d) fault_num; cap = unat hc + 1 in
     hc \<noteq> 0 \<and> cap < ncaps (spds K d) \<and> ncaps (spds K d) \<le> MAX_STATIC_CAP \<and> destination (caps (spds K d) cap) = Some h \<and>
     spd_fault (spds K h) \<le> cap_fault (caps (spds K d) cap) \<and> spd_get_by_index (int h) K = Some h)"

lemma handled_same: "same_spds K K' \<Longrightarrow> handled_by K' fault_num d h = handled_by K fault_num d h"
  by (simp add: handled_by_def same_spdsD spd_get_by_index_def)

lemma handler_cap:
  assumes "unat (w :: u32) + 1 < n" "n \<le> MAX_STATIC_CAP"
  shows "unat (drop_bit 20 (push_bit 20 (w + 1))) = unat w + 1"
proof -
  have "unat (w + 1) = unat w + 1" using assms by (simp add: unat_word_ariths)
  then show ?thesis using cap_shift [of "w + 1"] assms by simp
qed

lemma fault_ipc_invoke_ok:
  assumes d: "in_component K (k + 1) d" and h: "handled_by K fault_num d h" "fault_num < COS_FLT_MAX"
    and dest: "dest = Some d \<or> dest = None \<and> virtual_namespace_query P (ip (get_regs at K)) = Some d"
  shows "\<exists>a K' t'. fault_ipc_invoke (ipc_walk_static_cap (Suc n) P) P r fault_addr fault_flags at fault_num dest K = Some (a, K') \<and>
    same_spds K K' \<and> threads K' = (threads K)(curr_thd K := t') \<and> stack_ptr t' = int k + 2 \<and> thread_id t' = thread_id (threads K (curr_thd K)) \<and>
    (\<forall>i \<le> k. stack_base t' i = stack_base (threads K (curr_thd K)) i) \<and>
    fr_ip (stack_base t' (k + 1)) = fr_ip (stack_base (threads K (curr_thd K)) (k + 1)) \<and>
    fr_sp (stack_base t' (k + 1)) = fr_sp (stack_base (threads K (curr_thd K)) (k + 1)) \<and>
    fr_spd (stack_base t' (k + 2)) = h \<and> current_composite_spd (stack_base t' (k + 2)) = composite_spd (spds K h)"
proof -
  let ?hc = "fault_handler (spds K d) fault_num"
  let ?cap = "unat ?hc + 1"
  have hd: "?hc \<noteq> 0" "?cap < ncaps (spds K d)" "ncaps (spds K d) \<le> MAX_STATIC_CAP" "destination (caps (spds K d) ?cap) = Some h"
    "\<not> cap_fault (caps (spds K d) ?cap) < spd_fault (spds K h)" using h(1) by (simp_all add: handled_by_def Let_def not_less)
  let ?K1 = "put_thd (curr_thd K) (\<lambda>t. t\<lparr>fault_regs := get_regs at K\<rparr>) K"
  let ?sp = "sp (get_regs at ?K1)" and ?ip = "ip (get_regs at ?K1)"
  let ?K2 = "entered (k + 1) d ?cap h ?sp ?ip ?K1"
  have d1: "in_component ?K1 (k + 1) d" using d by (simp add: in_component_def Let_def)
  have w: "\<exists>a ret. ipc_walk_static_cap (Suc n) P (push_bit 20 (?hc + 1)) ?sp ?ip r ?K1 = Some (a, ret, ?K2)"
    using walk_ok [OF d1 handler_cap [OF hd(2,3), symmetric]] hd by simp
  have s: "(case dest of Some d \<Rightarrow> Some d | None \<Rightarrow> (case virtual_namespace_query P (ip (get_regs at K)) of Some s \<Rightarrow> Some s
      | None \<Rightarrow> (let t = threads K (curr_thd K) in map_option (\<lambda>i. fr_spd (stack_base t i)) (thd_invstk_top t)))) = Some d"
    using dest by auto
  obtain a ret where r: "ipc_walk_static_cap (Suc n) P (push_bit 20 (?hc + 1)) ?sp ?ip r ?K1 = Some (a, ret, ?K2)" using w by blast
  let ?f = "\<lambda>rg. rg\<lparr>ax := fst ret, bx := snd ret, cx := snd ret, sp := 0, si := fault_addr, di := fault_flags, bp := ip rg, dx := a, ip := a\<rparr>"
  let ?K3 = "put_regs at ?f ?K2"
  have inv: "fault_ipc_invoke (ipc_walk_static_cap (Suc n) P) P r fault_addr fault_flags at fault_num dest K = Some (a, ?K3)"
    unfolding fault_ipc_invoke_def s using h(2) hd(1) r by (simp add: Let_def)
  have same: "same_spds K ?K3"
  proof -
    have "same_spds ?K2 ?K3" by (cases "at") (simp_all add: put_regs_def same_spds_def same_spd_def)
    then show ?thesis using same_spds_trans [OF same_spds_trans [OF same_spds_thd same_spds_entered]] by blast
  qed
  let ?p = "pushed (spds K) (k + 1) d h ?sp ?ip ((threads K (curr_thd K))\<lparr>fault_regs := get_regs at K\<rparr>)"
  have t': "\<exists>t'. threads ?K3 = (threads K)(curr_thd K := t') \<and> stack_ptr t' = stack_ptr ?p \<and> thread_id t' = thread_id ?p \<and> stack_base t' = stack_base ?p"
    by (cases "at") (auto simp: put_regs_def)
  then obtain t' where t': "threads ?K3 = (threads K)(curr_thd K := t')" "stack_ptr t' = int k + 2" "thread_id t' = thread_id (threads K (curr_thd K))"
    "stack_base t' = stack_base ?p" by auto
  have fr: "stack_base t' (Suc (k + 1)) = \<lparr>current_composite_spd = composite_spd (spds K h), fr_spd = h, fr_sp = ?sp, fr_ip = ?ip, fr_fault = spd_fault (spds K h)\<rparr>"
    "stack_base t' (k + 1) = (stack_base (threads K (curr_thd K)) (k + 1))\<lparr>fr_fault := spd_fault (spds K d)\<rparr>"
    "i < k + 1 \<Longrightarrow> stack_base t' i = stack_base (threads K (curr_thd K)) i" for i
    unfolding t'(4) by (simp_all only: pushed_frames) simp_all
  show ?thesis
    by (rule exI [of _ a], rule exI [of _ ?K3], rule exI [of _ t']) (use inv same t'(1-3) fr in auto)
qed

lemma handled_index: "handled_by K fault_num d h \<Longrightarrow> same_spds K K' \<Longrightarrow> spd_get_by_index (int h) K' = Some h"
  by (auto simp: handled_by_def Let_def spd_get_by_index_def same_spdsD split: if_splits)

lemma pop_ok:
  assumes t: "t = threads K (curr_thd K)" "stack_ptr t = int k + 1" "fr_ip (stack_base t (k + 1)) \<noteq> 0"
    and up: "spd_fault (spds K (fr_spd (stack_base t k))) \<le> fr_fault (stack_base t k)"
  shows "pop n P r K = Some (Pop_frame (stack_base t (k + 1)), put_thd (curr_thd K) (\<lambda>_. t\<lparr>stack_ptr := int k\<rparr>) K)"
proof -
  have p: "thd_invocation_pop t = (Some (stack_base t (k + 1)), t\<lparr>stack_ptr := int k\<rparr>)" using t(2) by (simp add: thd_invocation_pop_def)
  have d: "pop_fault_detect (spds K) (stack_base t k) = (False, stack_base t k)"
    using up by (auto simp: pop_fault_detect_def frame_fault_detect_def dest: leD)
  have f: "put_frame k (\<lambda>_. stack_base t k) (t\<lparr>stack_ptr := int k\<rparr>) = t\<lparr>stack_ptr := int k\<rparr>" by (simp add: put_frame_def)
  show ?thesis
    using p d f t(1,3) by (simp add: pop_def thd_invstk_top_def Let_def put_thd_def)
qed

text \<open>The thread is the one its number says.\<close>

definition thread_ok :: "kernel \<Rightarrow> bool" where
  "thread_ok K \<longleftrightarrow> thread_id (threads K (curr_thd K)) = curr_thd K + 1 \<and> int (curr_thd K) < MAX_NUM_THREADS"

lemma redirected_frames:
  "stack_ptr (redirected k t) = stack_ptr t - 1" "thread_id (redirected k t) = thread_id t"
  "i \<noteq> k + 1 \<Longrightarrow> stack_base (redirected k t) i = stack_base t i"
  "fr_ip (stack_base (redirected k t) (k + 1)) = fr_ip (stack_base t (k + 1)) - 8"
  "fr_sp (stack_base (redirected k t) (k + 1)) = fr_sp (stack_base t (k + 1))"
  by (simp_all add: redirected_def removed_def)

lemma spd_get_same: "spd_is_free K' = spd_is_free K \<Longrightarrow> spd_get_by_index i K' = spd_get_by_index i K"
  by (simp add: spd_get_by_index_def)

text \<open>
  The handler is entered with the failed component \<open>d\<close> below it on the stack, and what both handlers
  do there works: the thread becomes \<open>t2\<close>, from which \<^verbatim>\<open>pop\<close> returns to the client.
\<close>

lemma handler_entered:
  assumes ok: "thread_ok K" and d: "in_component K (k + 1) d" and h: "handled_by K fault_num d h" "fault_num < COS_FLT_MAX"
    and dest: "dest = Some d \<or> dest = None \<and> virtual_namespace_query P (ip (get_regs at K)) = Some d"
    and fr: "stack_base (threads K (curr_thd K)) (k + 1) = fr" "fr_ip fr \<noteq> 0"
  obtains a K1 Kr t2 where "fault_ipc_invoke (ipc_walk_static_cap (Suc n) P) P r fault_addr fault_flags at fault_num dest K = Some (a, K1)"
    "same_spds K K1" "thread_id (threads K1 (curr_thd K)) = thread_id (threads K (curr_thd K))"
    "cos_syscall_thd_cntl P (int h) (COS_THD_INV_FRAME_REM 1) (int (thread_id (threads K (curr_thd K)))) K1 = Some (0, Kr)"
    "redirect_to_fault_label P (int h) (int (thread_id (threads K (curr_thd K)))) Kr = Some (put_thd (curr_thd K) (\<lambda>_. t2) K1)"
    "cos_syscall_thd_cntl P (int h) COS_THD_HOME_SPD (int (thread_id (threads K (curr_thd K)))) K1 = Some (int (fr_spd (stack_base (threads K (curr_thd K)) 0)), K1)"
    "stack_ptr t2 = int k + 1" "fr_ip (stack_base t2 (k + 1)) = fr_ip fr - 8" "fr_sp (stack_base t2 (k + 1)) = fr_sp fr"
    "\<And>i. i \<le> k \<Longrightarrow> stack_base t2 i = stack_base (threads K (curr_thd K)) i"
proof -
  let ?t = "threads K (curr_thd K)"
  obtain a K1 t1 where K1: "fault_ipc_invoke (ipc_walk_static_cap (Suc n) P) P r fault_addr fault_flags at fault_num dest K = Some (a, K1)"
    "same_spds K K1" "threads K1 = (threads K)(curr_thd K := t1)" "stack_ptr t1 = int k + 2" "thread_id t1 = thread_id ?t"
    "\<forall>i \<le> k. stack_base t1 i = stack_base ?t i" "fr_ip (stack_base t1 (k + 1)) = fr_ip fr" "fr_sp (stack_base t1 (k + 1)) = fr_sp fr"
    "fr_spd (stack_base t1 (k + 2)) = h" "current_composite_spd (stack_base t1 (k + 2)) = composite_spd (spds K h)"
    using fault_ipc_invoke_ok [OF d h dest, of n r fault_addr fault_flags] fr(1) by blast
  have cur: "curr_thd K1 = curr_thd K" "t1 = threads K1 (curr_thd K1)" using same_spdsD(9) [OF K1(2)] K1(3) by simp_all
  have id: "thread_id t1 = curr_thd K1 + 1" "int (curr_thd K1) < MAX_NUM_THREADS" using ok K1(5) cur(1) by (simp_all add: thread_ok_def)
  have hh: "current_composite_spd (stack_base t1 (k + 2)) = composite_spd (spds K1 h)" "spd_get_by_index (int h) K1 = Some h"
    using K1(10) same_spdsD(4) [OF K1(2)] handled_index [OF h(1) K1(2)] by simp_all
  have ip: "fr_ip (stack_base t1 (k + 1)) \<noteq> 0" using K1(7) fr(2) by simp
  note rr = remove_and_redirect [OF K1(4) cur(2) id K1(9) hh ip, unfolded cur(1) K1(5)]
  have "thd_get_by_id (int (thread_id ?t)) = Some (curr_thd K)" using id cur(1) K1(5) by (simp add: thd_get_by_id_def)
  then have home: "cos_syscall_thd_cntl P (int h) COS_THD_HOME_SPD (int (thread_id ?t)) K1 = Some (int (fr_spd (stack_base ?t 0)), K1)"
    using rr(3) K1(3,6) by (simp add: cos_syscall_thd_cntl_def)
  show thesis
    by (rule that [OF K1(1,2) _ rr(1,2) home]) (use K1(3-8) in \<open>simp_all only: redirected_frames\<close>, auto)
qed

section \<open>Properties\<close>

text \<open>
  C2: an invocation of a component that has failed since the client last looked comes back at the
  fault label. The kernel sends the thread to the fault handler, the handler takes the failed
  component off the stack, and the return from the handler gives the client the return address of
  its invocation less 8 and its own stack pointer, with the invocation stack as it was before.
\<close>

theorem stale_invocation_reaches_fault_label:
  assumes "thread_ok K" "in_component K k c" "int k + 2 < MAX_SERVICE_DEPTH"
    and "cap = unat (drop_bit 20 capw)" "cap < ncaps (spds K c)" "destination (caps (spds K c) cap) = Some d"
    and "cap_fault (caps (spds K c) cap) < spd_fault (spds K d)" "handled_by K COS_FLT_FLT_NOTIF d h" "ret_ip \<noteq> 0" "ret_ip \<noteq> 8"
  shows "\<exists>a ret K1 K2 fr K3. ipc_walk_static_cap (Suc (Suc n)) P capw ret_sp ret_ip r K = Some (a, ret, K1) \<and>
    fault_flt_notif_handler P (int h) spdid K1 = Some (Handled, K2) \<and> pop m P r' K2 = Some (Pop_frame fr, K3) \<and>
    fr_ip fr = ret_ip - 8 \<and> fr_sp fr = ret_sp \<and> in_component K3 k c \<and> same_spds K K3 \<and>
    (\<forall>i. i < k \<longrightarrow> stack_base (threads K3 (curr_thd K)) i = stack_base (threads K (curr_thd K)) i)"
proof -
  let ?t = "threads K (curr_thd K)"
  let ?E = "entered k c cap d ret_sp ret_ip K"
  note E = same_spds_entered [of K k c cap d ret_sp ret_ip]
  have c: "fr_spd (stack_base ?t k) = c" "current_composite_spd (stack_base ?t k) = composite_spd (spds K c)" "int k + 1 < MAX_SERVICE_DEPTH"
    using assms(2) by (simp_all add: in_component_def Let_def)
  have ok: "thread_ok ?E" "in_component ?E (k + 1) d" "handled_by ?E COS_FLT_FLT_NOTIF d h"
    using assms(1,3,8) same_spdsD(4) [OF E] handled_same [OF E] by (simp_all add: thread_ok_def in_component_def Let_def pushed_frames)
  obtain a K1 Kr t2 where K1: "fault_ipc_invoke (ipc_walk_static_cap (Suc n) P) P (inv_ret P K c) 0 0 Thd_regs COS_FLT_FLT_NOTIF (Some d) ?E = Some (a, K1)"
    "same_spds ?E K1" "thread_id (threads K1 (curr_thd ?E)) = thread_id (threads ?E (curr_thd ?E))"
    "cos_syscall_thd_cntl P (int h) (COS_THD_INV_FRAME_REM 1) (int (thread_id (threads ?E (curr_thd ?E)))) K1 = Some (0, Kr)"
    "redirect_to_fault_label P (int h) (int (thread_id (threads ?E (curr_thd ?E)))) Kr = Some (put_thd (curr_thd ?E) (\<lambda>_. t2) K1)"
    "stack_ptr t2 = int k + 1" "fr_ip (stack_base t2 (k + 1)) = ret_ip - 8" "fr_sp (stack_base t2 (k + 1)) = ret_sp"
    "\<And>i. i \<le> k \<Longrightarrow> stack_base t2 i = stack_base (threads ?E (curr_thd ?E)) i"
    using handler_entered [OF ok _ disjI1 [OF refl] refl, of n P "inv_ret P K c" 0 0 Thd_regs thesis] assms(9) by (simp add: pushed_frames)
  note S1 = same_spds_trans [OF E K1(2)]
  let ?K2 = "put_thd (curr_thd K) (\<lambda>_. t2) K1" and ?K3 = "put_thd (curr_thd K) (\<lambda>_. t2\<lparr>stack_ptr := int k\<rparr>) (put_thd (curr_thd K) (\<lambda>_. t2) K1)"
  have walk: "ipc_walk_static_cap (Suc (Suc n)) P capw ret_sp ret_ip r K = Some (a, inv_ret P K c, K1)"
    using walk_ok [OF assms(2,4-6), of "ipc_walk_static_cap (Suc n) P"] K1(1) assms(7) by simp
  have handler: "fault_flt_notif_handler P (int h) spdid K1 = Some (Handled, ?K2)"
    unfolding fault_flt_notif_handler_def using K1(3-5) same_spdsD(9) [OF S1] by (simp add: Let_def)
  have low: "stack_base t2 k = (stack_base ?t k)\<lparr>fr_fault := spd_fault (spds K c)\<rparr>" "i < k \<Longrightarrow> stack_base t2 i = stack_base ?t i" for i
    using K1(9) [of k] K1(9) [of i] by (simp_all add: pushed_frames)
  have "pop m P r' ?K2 = Some (Pop_frame (stack_base t2 (k + 1)), put_thd (curr_thd ?K2) (\<lambda>_. t2\<lparr>stack_ptr := int k\<rparr>) ?K2)"
    by (rule pop_ok) (use K1(6,7) assms(10) low(1) c(1) same_spdsD(1,9) [OF S1] in simp_all)
  then have pop: "pop m P r' ?K2 = Some (Pop_frame (stack_base t2 (k + 1)), ?K3)" using same_spdsD(9) [OF S1] by simp
  moreover have "in_component ?K3 k c" using c low(1) same_spdsD(4,9) [OF S1] by (simp add: in_component_def Let_def)
  moreover have "same_spds K ?K3" using same_spds_trans [OF same_spds_trans [OF S1 same_spds_thd] same_spds_thd] .
  moreover have "\<forall>i. i < k \<longrightarrow> stack_base (threads ?K3 (curr_thd K)) i = stack_base ?t i" using low(2) by simp
  ultimately show ?thesis using walk handler K1(7,8) by blast
qed

lemma word_less_Suc: "(w :: u32) \<noteq> -1 \<Longrightarrow> w < w + 1"
proof -
  assume "w \<noteq> -1"
  then have "w + 1 \<noteq> 0" by (metis add.commute add_left_cancel add.right_inverse)
  then have ne: "unat (w + 1) \<noteq> 0" by (simp add: unat_eq_0)
  have m: "unat (w + 1) = (unat w + 1) mod 2 ^ 32" by (simp add: unat_word_ariths)
  have "unat w + 1 \<noteq> 2 ^ 32" using ne m by (metis mod_self)
  then have "unat w + 1 < 2 ^ 32" using unsigned_less [of w, where ?'a = nat] by simp
  then show ?thesis using m by (simp add: word_less_nat_alt)
qed

lemma trigger_ok:
  assumes "spd_get_by_index spdid K = Some s" "spd_get_by_index d_spdid K = Some d"
  shows "fault_cnt_syscall_helper spdid COS_SPD_FAULT_TRIGGER d_spdid 0 K =
    Some (0, put_spd d (\<lambda>s. s\<lparr>spd_fault := spd_fault s + 1, spd_reflection := spd_fault s + 1\<rparr>) K)"
  using assms by (simp add: fault_cnt_syscall_helper_def Let_def)

text \<open>What the booter does leaves the stacks of the threads and the fault counters of the components alone.\<close>

definition reboots :: "(kernel \<Rightarrow> kernel) \<Rightarrow> bool" where
  "reboots notif \<longleftrightarrow> (\<forall>K. threads (notif K) = threads K \<and> curr_thd (notif K) = curr_thd K \<and> (\<forall>s. spd_fault (spds (notif K) s) = spd_fault (spds K s)))"

text \<open>
  C6: a component that fails is taken off the stack at once, and its fault counter moves on. The
  thread that has run into the fault comes back to the client at the fault label, and every
  capability that was up to date before, or behind, is behind now.
\<close>

theorem page_fault_reaches_fault_label:
  assumes "thread_ok K" "in_component K (k + 1) d" "handled_by K COS_FLT_PGFLT d h" "spd_get_by_index (int d) K = Some d"
    and "virtual_namespace_query P (ip (trap_regs K)) = Some d"
    and fr: "stack_base (threads K (curr_thd K)) (k + 1) = fr" "fr_ip fr \<noteq> 0" "fr_ip fr \<noteq> 8"
    and cl: "stack_base (threads K (curr_thd K)) k = cl" "fr_spd cl \<noteq> d" "spd_fault (spds K (fr_spd cl)) \<le> fr_fault cl"
    and home: "fr_spd (stack_base (threads K (curr_thd K)) 0) \<noteq> 0" "fr_spd (stack_base (threads K (curr_thd K)) 0) \<noteq> d"
    and "reboots notif" "failed \<noteq> 9"
  shows "\<exists>a K1 K2 fr' K3. fault_ipc_invoke (ipc_walk_static_cap (Suc n) P) P r fault_addr 0 Trap_regs COS_FLT_PGFLT None K = Some (a, K1) \<and>
    fault_page_fault_handler P notif (int h) (int d) failed K1 = Some (Handled, failed + 1, K2) \<and> pop m P r' K2 = Some (Pop_frame fr', K3) \<and>
    fr_ip fr' = fr_ip fr - 8 \<and> fr_sp fr' = fr_sp fr \<and> stack_ptr (threads K3 (curr_thd K)) = int k \<and>
    (\<forall>i. i \<le> k \<longrightarrow> stack_base (threads K3 (curr_thd K)) i = stack_base (threads K (curr_thd K)) i) \<and>
    (\<forall>cap. cap_fault cap \<le> spd_fault (spds K d) \<longrightarrow> spd_fault (spds K d) \<noteq> -1 \<longrightarrow> ipc_fault_detect cap (spds K3 d))"
proof -
  let ?t = "threads K (curr_thd K)"
  obtain a K1 Kr t2 where K1: "fault_ipc_invoke (ipc_walk_static_cap (Suc n) P) P r fault_addr 0 Trap_regs COS_FLT_PGFLT None K = Some (a, K1)"
    "same_spds K K1" "thread_id (threads K1 (curr_thd K)) = thread_id ?t"
    "cos_syscall_thd_cntl P (int h) (COS_THD_INV_FRAME_REM 1) (int (thread_id ?t)) K1 = Some (0, Kr)"
    "redirect_to_fault_label P (int h) (int (thread_id ?t)) Kr = Some (put_thd (curr_thd K) (\<lambda>_. t2) K1)"
    "cos_syscall_thd_cntl P (int h) COS_THD_HOME_SPD (int (thread_id ?t)) K1 = Some (int (fr_spd (stack_base ?t 0)), K1)"
    "stack_ptr t2 = int k + 1" "fr_ip (stack_base t2 (k + 1)) = fr_ip fr - 8" "fr_sp (stack_base t2 (k + 1)) = fr_sp fr"
    "\<And>i. i \<le> k \<Longrightarrow> stack_base t2 i = stack_base ?t i"
    using handler_entered [OF assms(1-3) _ disjI2 [OF conjI [OF refl]] fr(1,2), of P Trap_regs n r fault_addr 0 thesis] assms(5)
    by (simp add: get_regs_def)
  let ?Kr = "put_thd (curr_thd K) (\<lambda>_. t2) K1"
  let ?Kt = "put_spd d (\<lambda>s. s\<lparr>spd_fault := spd_fault s + 1, spd_reflection := spd_fault s + 1\<rparr>) ?Kr"
  let ?K2 = "notif ?Kt"
  have gd: "spd_get_by_index (int h) ?Kr = Some h" "spd_get_by_index (int d) ?Kr = Some d"
    using handled_index [OF assms(3) K1(2)] assms(4) spd_get_same [of K1 K] spd_get_same [of ?Kr K1] same_spdsD(8) [OF K1(2)] by simp_all
  have handler: "fault_page_fault_handler P notif (int h) (int d) failed K1 = Some (Handled, failed + 1, ?K2)"
    unfolding fault_page_fault_handler_def
    using K1(3-6) trigger_ok [OF gd] home assms(15) same_spdsD(9) [OF K1(2)] by (simp add: Let_def)
  have nt: "threads ?K2 = threads ?Kt" "curr_thd ?K2 = curr_thd K" "spd_fault (spds ?K2 s) = spd_fault (spds ?Kt s)" for s
    using assms(14) same_spdsD(9) [OF K1(2)] by (simp_all add: reboots_def)
  let ?K3 = "put_thd (curr_thd ?K2) (\<lambda>_. t2\<lparr>stack_ptr := int k\<rparr>) ?K2"
  have "pop m P r' ?K2 = Some (Pop_frame (stack_base t2 (k + 1)), ?K3)"
    by (rule pop_ok) (use nt K1(7,8) fr(3) K1(10) [of k] cl same_spdsD(1) [OF K1(2)] in simp_all)
  moreover have "\<forall>cap. cap_fault cap \<le> spd_fault (spds K d) \<longrightarrow> spd_fault (spds K d) \<noteq> -1 \<longrightarrow> ipc_fault_detect cap (spds ?K3 d)"
  proof (intro allI impI)
    fix cap :: invocation_cap
    assume a: "cap_fault cap \<le> spd_fault (spds K d)" "spd_fault (spds K d) \<noteq> -1"
    have "spd_fault (spds ?K3 d) = spd_fault (spds K d) + 1" using nt(3) same_spdsD(1) [OF K1(2)] by simp
    moreover have "spd_fault (spds K d) < spd_fault (spds K d) + 1" by (rule word_less_Suc [OF a(2)])
    ultimately show "ipc_fault_detect cap (spds ?K3 d)" using a(1) by (simp add: ipc_fault_detect_def)
  qed
  moreover have "stack_ptr (threads ?K3 (curr_thd K)) = int k" "\<forall>i. i \<le> k \<longrightarrow> stack_base (threads ?K3 (curr_thd K)) i = stack_base ?t i"
    using nt(2) K1(10) by simp_all
  ultimately show ?thesis using K1(1,8,9) handler by blast
qed

lemma sint_pos: "(w :: u32) \<noteq> 0 \<Longrightarrow> w < 2 ^ 31 \<Longrightarrow> 0 < sint w"
proof -
  assume w: "w \<noteq> 0" "w < 2 ^ 31"
  have u: "uint w < 2 ^ 31" using w(2) by (simp add: word_less_def)
  moreover have "0 < uint w" using w(1) by (simp add: word_neq_0_conv word_less_def)
  moreover have "sint w = signed_take_bit 31 (uint w)" by (simp add: sint_uint)
  ultimately show ?thesis by (simp add: signed_take_bit_int_eq_self)
qed

lemma update_caps_simps:
  "caps (update_caps d cnt js s) i = (if i \<in> set js \<and> destination (caps s i) = Some d then (caps s i)\<lparr>cap_fault := cnt\<rparr> else caps s i)"
  "spd_fault (update_caps d cnt js s) = spd_fault s" "ncaps (update_caps d cnt js s) = ncaps s"
  "composite_spd (update_caps d cnt js s) = composite_spd s"
  by (induction js arbitrary: s) auto

text \<open>
  C7: the update of the fault counter by one call of a stub brings the whole interface up to date.
  After an invocation through a capability has been turned back, the call returns a positive number
  (which the stub asserts), no capability of the client for that server is behind any more, nothing
  else changes, and the same invocation now enters the server.
\<close>

theorem fault_update_reaches_server:
  assumes "in_component K k c" "spd_get_by_index spdid K = Some s" "spd_get_by_index (int c) K = Some c"
    and cap: "cap = unat (drop_bit 20 capw)" "1 \<le> cap" "cap < ncaps (spds K c)" "ncaps (spds K c) \<le> MAX_STATIC_CAP"
      "destination (caps (spds K c) cap) = Some d" "ipc_fault_detect (caps (spds K c) cap) (spds K d)" "spd_fault (spds K d) < 2 ^ 31"
  shows "\<exists>ret K' ret' K''. fault_cnt_syscall_helper spdid COS_CAP_FAULT_UPDATE (int c) capw K = Some (ret, K') \<and> 0 < ret \<and>
    (\<forall>i. 1 \<le> i \<longrightarrow> i < ncaps (spds K c) \<longrightarrow> destination (caps (spds K c) i) = Some d \<longrightarrow> \<not> ipc_fault_detect (caps (spds K' c) i) (spds K' d)) \<and>
    (\<forall>i. destination (caps (spds K c) i) \<noteq> Some d \<longrightarrow> caps (spds K' c) i = caps (spds K c) i) \<and>
    (\<forall>s. s \<noteq> c \<longrightarrow> spds K' s = spds K s) \<and> threads K' = threads K \<and>
    ipc_walk_static_cap (Suc n) P capw ret_sp ret_ip r K' = Some (dest_entry_instruction (caps (spds K c) cap), ret', K'')"
proof -
  let ?cnt = "spd_fault (spds K d)"
  let ?K = "put_spd c (update_caps d ?cnt [1..<ncaps (spds K c)]) K"
  have stale: "cap_fault (caps (spds K c) cap) < ?cnt" using cap(6) by (simp add: ipc_fault_detect_def)
  have pos: "0 < sint ?cnt" by (rule sint_pos [OF _ cap(7)]) (use stale in auto)
  have call: "fault_cnt_syscall_helper spdid COS_CAP_FAULT_UPDATE (int c) capw K = Some (sint ?cnt, ?K)"
    using assms(2,3) cap(1,3-5) stale by (auto simp: fault_cnt_syscall_helper_def Let_def)
  have cnt: "spd_fault (spds ?K s) = spd_fault (spds K s)" for s by (simp add: update_caps_simps)
  have fresh: "\<not> ipc_fault_detect (caps (spds ?K c) i) (spds ?K d)" if "1 \<le> i" "i < ncaps (spds K c)" "destination (caps (spds K c) i) = Some d" for i
    using that by (simp add: ipc_fault_detect_def update_caps_simps)
  have "in_component ?K k c" using assms(1) by (simp add: in_component_def Let_def update_caps_simps)
  then have "ipc_walk_static_cap (Suc n) P capw ret_sp ret_ip r ?K = Some (dest_entry_instruction (caps (spds K c) cap), inv_ret P ?K c, entered k c cap d ret_sp ret_ip ?K)"
    using walk_ok [of ?K k c cap capw d "ipc_walk_static_cap n P"] cap(1,2,3,5) fresh [of cap] by (simp add: update_caps_simps ipc_fault_detect_def)
  moreover have "caps (spds ?K c) i = caps (spds K c) i" if "destination (caps (spds K c) i) \<noteq> Some d" for i
    using that by (simp add: update_caps_simps)
  moreover have "spds ?K s = spds K s" if "s \<noteq> c" for s using that by simp
  moreover have "threads ?K = threads K" by simp
  ultimately show ?thesis using call pos fresh by blast
qed

text \<open>Between two faults a component is told once, and only once, to recover by itself.\<close>

lemma one_reflection_per_fault:
  assumes "spd_get_by_index spdid K = Some s" "spd_get_by_index (int d) K = Some d" "spd_fault (spds K d) \<noteq> -1"
  shows "\<exists>K1 K2. fault_cnt_syscall_helper spdid COS_SPD_FAULT_TRIGGER (int d) 0 K = Some (0, K1) \<and>
    fault_cnt_syscall_helper spdid COS_CAP_REFLECT_UPDATE (int d) 0 K1 = Some (1, K2) \<and>
    fault_cnt_syscall_helper spdid COS_CAP_REFLECT_UPDATE (int d) 0 K2 = Some (0, K2)"
proof -
  let ?K1 = "put_spd d (\<lambda>s. s\<lparr>spd_fault := spd_fault s + 1, spd_reflection := spd_fault s + 1\<rparr>) K"
  let ?K2 = "put_spd d (\<lambda>s. s\<lparr>spd_reflection := spd_reflection s + 1\<rparr>) ?K1"
  have nz: "spd_fault (spds K d) + 1 \<noteq> 0" using word_less_Suc [OF assms(3)] by (metis word_zero_le not_less)
  have g: "spd_get_by_index spdid ?K1 = Some s" "spd_get_by_index (int d) ?K1 = Some d" "spd_get_by_index spdid ?K2 = Some s" "spd_get_by_index (int d) ?K2 = Some d"
    using assms(1,2) spd_get_same [of ?K1 K] spd_get_same [of ?K2 K] by simp_all
  have "fault_cnt_syscall_helper spdid COS_CAP_REFLECT_UPDATE (int d) 0 ?K1 = Some (1, ?K2)"
    using g nz by (simp add: fault_cnt_syscall_helper_def Let_def)
  moreover have "fault_cnt_syscall_helper spdid COS_CAP_REFLECT_UPDATE (int d) 0 ?K2 = Some (0, ?K2)"
    using g nz by (simp add: fault_cnt_syscall_helper_def Let_def)
  ultimately show ?thesis using trigger_ok [OF assms(1,2)] by blast
qed

section \<open>An example\<close>

text \<open>A register that has been set is read back, of a thread that is preempted or in the saved registers of a fault.\<close>

lemma reg_get_set: "reg_get r (reg_set r' v rs) = (if r = r' then v else reg_get r rs)"
  by (cases r; cases r') auto

lemma thd_cntl_set_get:
  assumes "cos_syscall_thd_cntl P spd_id (COS_THD_SET reg v fault) thdid K = Some (0, K')" "thd_validate_get_current_spd P spd_id K \<noteq> None"
  shows "cos_syscall_thd_cntl P spd_id (COS_THD_GET reg fault) thdid K' = Some (sint v, K')"
proof -
  obtain t where t: "thd_get_by_id thdid = Some t" using assms by (cases "thd_get_by_id thdid") (auto simp: cos_syscall_thd_cntl_def split: option.splits)
  have "thd_validate_get_current_spd P spd_id K' = thd_validate_get_current_spd P spd_id K"
    using assms t by (auto simp: cos_syscall_thd_cntl_def thd_validate_get_current_spd_def thd_spd_in_composite_def spd_get_by_index_def Let_def split: option.splits if_splits)
  then show ?thesis using assms t by (auto simp: cos_syscall_thd_cntl_def reg_get_set preempted_def split: option.splits if_splits)
qed

text \<open>
  The component 5 is a client of 6, whose faults the component 7 handles; the server has failed
  \<open>cnt\<close> times, and the thread is in the client (\<open>k = 0\<close>) or has entered the server (\<open>k = 1\<close>).
\<close>

definition ex_spds :: "u32 \<Rightarrow> nat \<Rightarrow> spd" where
  "ex_spds cnt s = \<lparr>spd_fault = (if s = 6 then cnt else 0), spd_reflection = 0, ncaps = 3,
     caps = (\<lambda>i. \<lparr>destination = Some (if s = 5 then 6 else 7), invocation_cnt = 0, dest_entry_instruction = 20480, cap_fault = 0\<rparr>),
     fault_handler = (\<lambda>n. if s = 6 then 1 else 0), composite_spd = s, upcall_entry = 0\<rparr>"

definition ex_regs :: pt_regs where
  "ex_regs = \<lparr>ax = 0, bx = 0, cx = 0, dx = 0, si = 0, di = 0, bp = 0, sp = 0, ip = 0\<rparr>"

definition ex_kernel :: "u32 \<Rightarrow> nat \<Rightarrow> kernel" where
  "ex_kernel cnt k = \<lparr>spds = ex_spds cnt, spd_is_free = (\<lambda>_. False),
     threads = (\<lambda>_. \<lparr>thread_id = 1, stack_ptr = int k,
       stack_base = (\<lambda>i. \<lparr>current_composite_spd = 5 + i, fr_spd = 5 + i, fr_sp = 64, fr_ip = 4096, fr_fault = 0\<rparr>),
       regs = ex_regs, fault_regs = ex_regs, flags = 0, clear_pending_upcall = 0\<rparr>), curr_thd = 0, trap_regs = ex_regs\<rparr>"

definition ex_platform :: platform where
  "ex_platform = \<lparr>virtual_namespace_query = (\<lambda>_. Some 6), spd_composite_member = (\<lambda>_ _. False), get_cpuid_fast = 0, spd_mpd_ipc_take = (\<lambda>_ K. K), upcall_unhandled_fault = (\<lambda>K. K)\<rparr>"

lemma ex_kernel_ok:
  "thread_ok (ex_kernel cnt k)" "in_component (ex_kernel cnt 0) 0 5" "in_component (ex_kernel cnt 1) (0 + 1) 6" "handled_by (ex_kernel cnt k) n 6 7"
  "spd_get_by_index 5 (ex_kernel cnt k) = Some 5" "spd_get_by_index 6 (ex_kernel cnt k) = Some 6"
  by (simp_all add: ex_kernel_def ex_spds_def thread_ok_def in_component_def handled_by_def spd_get_by_index_def Let_def)

lemma ex_capw: "unat (drop_bit 20 (1048576 :: u32)) = 1"
  by (simp add: drop_bit_eq_div)

theorem stale_invocation_reaches_fault_label_witness:
  "\<exists>a ret K1 K2 fr K3. ipc_walk_static_cap (Suc (Suc 0)) ex_platform 1048576 64 4096 (0, 0) (ex_kernel 1 0) = Some (a, ret, K1) \<and>
     fault_flt_notif_handler ex_platform (int 7) 6 K1 = Some (Handled, K2) \<and> pop 2 ex_platform (0, 0) K2 = Some (Pop_frame fr, K3) \<and>
     fr_ip fr = 4096 - 8 \<and> fr_sp fr = 64"
proof -
  have K: "1 < ncaps (spds (ex_kernel 1 0) 5)" "destination (caps (spds (ex_kernel 1 0) 5) 1) = Some 6"
    "cap_fault (caps (spds (ex_kernel 1 0) 5) 1) < spd_fault (spds (ex_kernel 1 0) 6)" by (simp_all add: ex_kernel_def ex_spds_def)
  have ip: "int 0 + 2 < (31 :: int)" "(4096 :: u32) \<noteq> 0" "(4096 :: u32) \<noteq> 8" by simp_all
  from stale_invocation_reaches_fault_label [OF ex_kernel_ok(1,2) ip(1) ex_capw [symmetric] K ex_kernel_ok(4) ip(2,3),
      where n = 0 and P = ex_platform and ret_sp = 64 and r = "(0, 0)" and spdid = 6 and m = 2 and r' = "(0, 0)"]
  show ?thesis by blast
qed

theorem page_fault_reaches_fault_label_witness:
  "\<exists>a K1 K2 fr K3. fault_ipc_invoke (ipc_walk_static_cap (Suc 0) ex_platform) ex_platform (0, 0) 17 0 Trap_regs 0 None (ex_kernel 0 1) = Some (a, K1) \<and>
     fault_page_fault_handler ex_platform (\<lambda>K. K) (int 7) (int 6) 0 K1 = Some (Handled, 0 + 1, K2) \<and> pop 1 ex_platform (0, 0) K2 = Some (Pop_frame fr, K3) \<and>
     fr_ip fr = 4096 - 8 \<and> ipc_fault_detect (caps (ex_spds 0 5) 1) (spds K3 6)"
proof -
  let ?K = "ex_kernel 0 1" and ?st = "stack_base (threads (ex_kernel 0 1) (curr_thd (ex_kernel 0 1)))"
  have f: "cap_fault (caps (ex_spds 0 5) 1) \<le> spd_fault (spds ?K 6)" "spd_fault (spds ?K 6) \<noteq> -1" by (simp_all add: ex_kernel_def ex_spds_def)
  have r: "reboots (\<lambda>K. K)" "(0 :: nat) \<noteq> 9" by (simp_all add: reboots_def)
  have v: "virtual_namespace_query ex_platform (ip (trap_regs ?K)) = Some 6" "spd_get_by_index (int 6) ?K = Some 6"
    using ex_kernel_ok(6) by (simp_all add: ex_platform_def)
  have st: "fr_ip (?st (0 + 1)) \<noteq> 0" "fr_ip (?st (0 + 1)) \<noteq> 8" "fr_spd (?st 0) \<noteq> 6" "spd_fault (spds ?K (fr_spd (?st 0))) \<le> fr_fault (?st 0)" "fr_spd (?st 0) \<noteq> 0"
    "fr_ip (?st (0 + 1)) = 4096"
    by (simp_all add: ex_kernel_def ex_spds_def)
  from page_fault_reaches_fault_label [OF ex_kernel_ok(1,3,4) v(2,1) refl st(1,2) refl st(3,4,5,3) r,
      where n = 0 and r = "(0, 0)" and fault_addr = 17 and m = 1 and r' = "(0, 0)"] f st(6)
  show ?thesis by (auto simp del: ipc_walk_static_cap.simps)
qed

theorem fault_update_reaches_server_witness:
  "\<exists>ret K' ret' K''. fault_cnt_syscall_helper 5 COS_CAP_FAULT_UPDATE 5 1048576 (ex_kernel 1 0) = Some (ret, K') \<and> 0 < ret \<and>
     ipc_walk_static_cap 1 ex_platform 1048576 64 4096 (0, 0) K' = Some (20480, ret', K'')"
proof -
  have K: "ncaps (spds (ex_kernel 1 0) 5) = 3" "destination (caps (spds (ex_kernel 1 0) 5) 1) = Some 6"
    "ipc_fault_detect (caps (spds (ex_kernel 1 0) 5) 1) (spds (ex_kernel 1 0) 6)" "spd_fault (spds (ex_kernel 1 0) 6) < 2 ^ 31"
    "dest_entry_instruction (caps (spds (ex_kernel 1 0) 5) 1) = 20480"
    by (simp_all add: ex_kernel_def ex_spds_def ipc_fault_detect_def)
  have "spd_get_by_index (int 5) (ex_kernel 1 0) = Some 5" using ex_kernel_ok(5) by simp
  from fault_update_reaches_server [OF ex_kernel_ok(2,5) this ex_capw [symmetric] _ _ _ K(2-4), of 0 ex_platform 64 4096 "(0, 0)"] K(1,5)
  show ?thesis by auto
qed

end
