(* ===== verification/SchedTrack.thy ===== *)
theory SchedTrack
  imports KernelFault
begin

text \<open>
  What the kernel remembers of the threads a scheduler below the root has created, so that the
  scheduler can create them again after a fault (the first part of \<^verbatim>\<open>kernel/include/recovery.h\<close>).
\<close>

record thd_sched_info =
  scheduler :: nat
  thread_dest :: int
  thread_metric :: int
  thread_fn :: int
  thread_d :: int
  thread_param :: int
  thread_hrt :: int
  thread_timeout :: int

record sched_kernel =
  kern :: kernel
  sched_depth :: "nat \<Rightarrow> int"                          \<comment> \<open>of a component; negative if it is no scheduler\<close>
  sched_info :: "nat \<Rightarrow> nat \<Rightarrow> thd_sched_info"         \<comment> \<open>of a thread, by depth\<close>

abbreviation (input) MAX_SCHED_HIER_DEPTH :: int where
  "MAX_SCHED_HIER_DEPTH \<equiv> 4"

datatype sched_op = COS_SCHED_THD_DEST | COS_SCHED_THD_METRIC | COS_SCHED_THD_FN | COS_SCHED_THD_D | COS_SCHED_THD_PARAM | COS_SCHED_TIMEOUT_THD
  | Other_operation                            \<comment> \<open>one the code does not expect\<close>

text \<open>The depth is passed as an \<^verbatim>\<open>unsigned short\<close>, so the assertion fails for a negative one.\<close>

definition thd_get_sched_info :: "nat \<Rightarrow> int \<Rightarrow> sched_kernel \<Rightarrow> thd_sched_info option" where
  "thd_get_sched_info t depth S = (if 0 \<le> depth \<and> depth < MAX_SCHED_HIER_DEPTH then Some (sched_info S t (nat depth)) else None)"

definition put_info :: "nat \<Rightarrow> int \<Rightarrow> (thd_sched_info \<Rightarrow> thd_sched_info) \<Rightarrow> sched_kernel \<Rightarrow> sched_kernel" where
  "put_info t depth f S = S\<lparr>sched_info := (sched_info S)(t := (sched_info S t)(nat depth := f (sched_info S t (nat depth))))\<rparr>"

definition tracks :: "nat \<Rightarrow> sched_kernel \<Rightarrow> bool" where
  "tracks spd S \<longleftrightarrow> sched_depth S spd \<ge> 0 \<and> sched_depth S spd \<noteq> 0"

fun info_field :: "sched_op \<Rightarrow> thd_sched_info \<Rightarrow> int option" where
  "info_field COS_SCHED_THD_DEST i = Some (thread_dest i)"
| "info_field COS_SCHED_THD_METRIC i = Some (thread_metric i)"
| "info_field COS_SCHED_THD_FN i = Some (thread_fn i)"
| "info_field COS_SCHED_THD_D i = Some (thread_d i)"
| "info_field COS_SCHED_THD_PARAM i = Some (thread_param i)"
| "info_field COS_SCHED_TIMEOUT_THD i = Some (thread_timeout i)"
| "info_field Other_operation i = None"

fun info_update :: "sched_op \<Rightarrow> int \<Rightarrow> thd_sched_info \<Rightarrow> thd_sched_info option" where
  "info_update COS_SCHED_THD_DEST v i = Some (i\<lparr>thread_dest := v\<rparr>)"
| "info_update COS_SCHED_THD_METRIC v i = Some (i\<lparr>thread_metric := v\<rparr>)"
| "info_update COS_SCHED_THD_FN v i = Some (i\<lparr>thread_fn := v\<rparr>)"
| "info_update COS_SCHED_THD_D v i = Some (i\<lparr>thread_d := v\<rparr>)"
| "info_update COS_SCHED_THD_PARAM v i = Some (i\<lparr>thread_param := v\<rparr>)"
| "info_update COS_SCHED_TIMEOUT_THD v i = Some (i\<lparr>thread_timeout := v\<rparr>)"
| "info_update Other_operation v i = None"

text \<open>The operations that read a field have other numbers than the ones that set it, but the same names here.\<close>

definition sched_thread_lookup :: "nat \<Rightarrow> int \<Rightarrow> sched_op \<Rightarrow> sched_kernel \<Rightarrow> int option" where
  "sched_thread_lookup spd thd_id operation S = (case thd_get_by_id thd_id of
     None \<Rightarrow> Some (-1)
   | Some t \<Rightarrow> do {
       cur_spd \<leftarrow> (if sched_depth S spd = 0 then spd_get_by_index 2 (kern S) else Some spd);
       tsi \<leftarrow> thd_get_sched_info t (sched_depth S cur_spd) S;
       if scheduler tsi \<noteq> cur_spd then Some (-1)
       else if tracks spd S then info_field operation tsi else Some 0 })"

text \<open>
  The number of the first thread from index \<open>thd_id\<close> on that is tracked, or how many are; only
  threads with deadlines (\<open>hrt\<close>) are. An index below the arrays is a fault.
\<close>

definition tracked :: "nat \<Rightarrow> int \<Rightarrow> sched_kernel \<Rightarrow> nat list" where
  "tracked spd thd_id S = filter (\<lambda>i. thread_dest (sched_info S i (nat (sched_depth S spd))) > 0) (map nat [thd_id..MAX_NUM_THREADS - 1])"

definition sched_thread_info :: "nat \<Rightarrow> int \<Rightarrow> bool \<Rightarrow> bool \<Rightarrow> sched_kernel \<Rightarrow> int option" where
  "sched_thread_info spd thd_id first hrt S =
    (if \<not> hrt then Some 0
     else if thd_id < 0 \<or> sched_depth S spd < 0 \<or> sched_depth S spd \<ge> MAX_SCHED_HIER_DEPTH then None
     else (case tracked spd thd_id S of
       [] \<Rightarrow> Some 0
     | i # ts \<Rightarrow> Some (if first then int (thread_id (threads (kern S) i)) else int (length (i # ts)))))"

definition sched_thread_add :: "nat \<Rightarrow> int \<Rightarrow> int \<Rightarrow> sched_op \<Rightarrow> int \<Rightarrow> sched_kernel \<Rightarrow> (int \<times> sched_kernel) option" where
  "sched_thread_add spd thd_id option operation hrt S = (case thd_get_by_id thd_id of
     None \<Rightarrow> Some (-1, S)
   | Some t \<Rightarrow> do {
       tsi \<leftarrow> thd_get_sched_info t (sched_depth S spd) S;
       if scheduler tsi \<noteq> spd then Some (-1, S)
       else if tracks spd S then do {
         tsi \<leftarrow> info_update operation option tsi;
         Some (0, put_info t (sched_depth S spd) (\<lambda>_. tsi\<lparr>thread_hrt := hrt\<rparr>) S) }
       else Some (0, S) })"

definition sched_thread_remove :: "nat \<Rightarrow> int \<Rightarrow> sched_kernel \<Rightarrow> (int \<times> sched_kernel) option" where
  "sched_thread_remove spd thd_id S = (case thd_get_by_id thd_id of
     None \<Rightarrow> Some (-1, S)
   | Some t \<Rightarrow> do {
       tsi \<leftarrow> thd_get_sched_info t (sched_depth S spd) S;
       if scheduler tsi \<noteq> spd then Some (-1, S)
       else if tracks spd S then
         Some (0, put_info t (sched_depth S spd) (\<lambda>i. i\<lparr>thread_dest := 0, thread_metric := 0, thread_fn := 0, thread_d := 0,
           thread_param := 0, thread_hrt := 0, thread_timeout := 0\<rparr>) S)
       else Some (0, S) })"

section \<open>The scheduler's scan after a reboot\<close>

text \<open>
  What the rebooted scheduler reads of one thread (the loop in \<^verbatim>\<open>__cos_sched_base_rec\<close>), with the metric
  taken apart, and the loop itself. What it then does with the thread, in its own tables and by
  system calls, is the argument \<open>restore\<close>.
\<close>

record sched_thd_record =
  rec_id :: int
  rec_type :: int
  rec_init_data :: int
  rec_value :: int
  rec_dest :: int
  rec_fn :: int
  rec_d :: int
  rec_param :: int
  rec_timeout :: int

definition sched_thd_introspect :: "nat \<Rightarrow> int \<Rightarrow> sched_kernel \<Rightarrow> sched_thd_record option" where
  "sched_thd_introspect spd thd_id S = do {
     metric \<leftarrow> sched_thread_lookup spd thd_id COS_SCHED_THD_METRIC S;
     assert_that (metric \<noteq> 0);
     dest \<leftarrow> sched_thread_lookup spd thd_id COS_SCHED_THD_DEST S;
     assert_that (dest \<noteq> 0);
     fn \<leftarrow> sched_thread_lookup spd thd_id COS_SCHED_THD_FN S;
     d \<leftarrow> sched_thread_lookup spd thd_id COS_SCHED_THD_D S;
     param \<leftarrow> sched_thread_lookup spd thd_id COS_SCHED_THD_PARAM S;
     timeout \<leftarrow> sched_thread_lookup spd thd_id COS_SCHED_TIMEOUT_THD S;
     Some \<lparr>rec_id = thd_id, rec_type = metric mod 256, rec_init_data = metric div 256 mod 256, rec_value = metric div 65536 mod 65536,
       rec_dest = dest, rec_fn = fn, rec_d = d, rec_param = param, rec_timeout = timeout\<rparr> }"

partial_function (option) sched_recover_from :: "(sched_thd_record \<Rightarrow> 'w \<Rightarrow> 'w option) \<Rightarrow> nat \<Rightarrow> sched_kernel \<Rightarrow> int \<Rightarrow> 'w \<Rightarrow> 'w option" where
  "sched_recover_from restore spd S thd_id w =
    (if thd_id = 0 then Some w
     else do {
       r \<leftarrow> sched_thd_introspect spd thd_id S;
       w \<leftarrow> restore r w;
       thd_id \<leftarrow> sched_thread_info spd thd_id True True S;
       assert_that (thd_id \<noteq> -1);
       sched_recover_from restore spd S thd_id w })"

definition sched_recover_threads :: "(sched_thd_record \<Rightarrow> 'w \<Rightarrow> 'w option) \<Rightarrow> nat \<Rightarrow> sched_kernel \<Rightarrow> 'w \<Rightarrow> 'w option" where
  "sched_recover_threads restore spd S w = do {
     thd_id \<leftarrow> sched_thread_info spd 0 True True S;
     sched_recover_from restore spd S thd_id w }"

section \<open>Round trips\<close>

text \<open>The scheduler \<open>spd\<close>, below the root, is responsible for the thread with the number \<open>thd_id\<close>.\<close>

definition schedules :: "nat \<Rightarrow> int \<Rightarrow> sched_kernel \<Rightarrow> bool" where
  "schedules spd thd_id S \<longleftrightarrow> 1 \<le> thd_id \<and> thd_id \<le> MAX_NUM_THREADS \<and> 0 < sched_depth S spd \<and> sched_depth S spd < MAX_SCHED_HIER_DEPTH \<and>
     scheduler (sched_info S (nat (thd_id - 1)) (nat (sched_depth S spd))) = spd"

lemma info_updateD: "info_update operation v i = Some j \<Longrightarrow> scheduler j = scheduler i"
  by (cases operation) auto

lemma info_field_update:
  "info_update operation v i = Some j \<Longrightarrow> info_field operation' (j\<lparr>thread_hrt := h\<rparr>) = (if operation' = operation then Some v else info_field operation' i)"
  by (cases operation; cases operation') auto

lemma info_update_total: "operation \<noteq> Other_operation \<Longrightarrow> \<exists>j. info_update operation v i = Some j"
  by (cases operation) auto

lemma put_info_simps [simp]:
  "sched_depth (put_info t d f S) = sched_depth S" "kern (put_info t d f S) = kern S"
  "sched_info (put_info t d f S) t' d' = (if t' = t \<and> d' = nat d then f (sched_info S t' d') else sched_info S t' d')"
  by (simp_all add: put_info_def)

lemma lookup_scheduled:
  assumes "schedules spd i S"
  shows "sched_thread_lookup spd i op' S = info_field op' (sched_info S (nat (i - 1)) (nat (sched_depth S spd)))"
  using assms by (auto simp: schedules_def sched_thread_lookup_def thd_get_by_id_def thd_get_sched_info_def tracks_def Let_def)

lemma scheduledD:
  assumes "schedules spd i S"
  shows "thd_get_by_id i = Some (nat (i - 1))" "tracks spd S"
    "thd_get_sched_info t (sched_depth S spd) S = Some (sched_info S t (nat (sched_depth S spd)))"
    "scheduler (sched_info S (nat (i - 1)) (nat (sched_depth S spd))) = spd" "1 \<le> i"
  using assms by (auto simp: schedules_def thd_get_by_id_def thd_get_sched_info_def tracks_def Let_def)

text \<open>
  What a scheduler has had recorded of a thread is what it finds after it has been rebooted,
  whatever has been recorded of other threads or in other fields since.
\<close>

lemma sched_thread_tracking:
  assumes s: "schedules spd thd_id S" and op: "operation \<noteq> Other_operation"
  shows "\<exists>S'. sched_thread_add spd thd_id v operation hrt S = Some (0, S') \<and> schedules spd thd_id S' \<and>
    sched_thread_lookup spd thd_id operation S' = Some v \<and>
    (\<forall>thd' op'. (thd', op') \<noteq> (thd_id, operation) \<longrightarrow> schedules spd thd' S \<longrightarrow>
       schedules spd thd' S' \<and> sched_thread_lookup spd thd' op' S' = sched_thread_lookup spd thd' op' S)"
proof -
  let ?t = "nat (thd_id - 1)" and ?d = "sched_depth S spd"
  obtain j where j: "info_update operation v (sched_info S ?t (nat ?d)) = Some j" using info_update_total [OF op] by blast
  let ?S = "put_info ?t ?d (\<lambda>_. j\<lparr>thread_hrt := hrt\<rparr>) S"
  have add: "sched_thread_add spd thd_id v operation hrt S = Some (0, ?S)" using scheduledD [OF s] j by (simp add: sched_thread_add_def)
  have keep: "schedules spd i ?S \<longleftrightarrow> schedules spd i S" for i using info_updateD [OF j] by (auto simp: schedules_def)
  have same: "sched_thread_lookup spd i op' ?S = sched_thread_lookup spd i op' S" if "(i, op') \<noteq> (thd_id, operation)" "schedules spd i S" for i op'
  proof -
    have "nat (i - 1) = ?t \<longleftrightarrow> i = thd_id" using scheduledD(5) [OF that(2)] scheduledD(5) [OF s] by auto
    then show ?thesis using lookup_scheduled [of spd i ?S op'] lookup_scheduled [of spd i S op'] that keep [of i] info_field_update [OF j] by auto
  qed
  have "sched_thread_lookup spd thd_id operation ?S = Some v"
    using lookup_scheduled [of spd thd_id ?S operation] keep [of thd_id] s info_field_update [OF j] by simp
  then show ?thesis using add keep same s by blast
qed

text \<open>A thread whose record has been removed is not found any more.\<close>

lemma sched_thread_remove_clears:
  assumes s: "schedules spd thd_id S"
  shows "\<exists>S'. sched_thread_remove spd thd_id S = Some (0, S') \<and> nat (thd_id - 1) \<notin> set (tracked spd 0 S') \<and>
    (\<forall>op'. op' \<noteq> Other_operation \<longrightarrow> sched_thread_lookup spd thd_id op' S' = Some 0)"
proof -
  let ?R = "put_info (nat (thd_id - 1)) (sched_depth S spd) (\<lambda>i. i\<lparr>thread_dest := 0, thread_metric := 0, thread_fn := 0, thread_d := 0,
      thread_param := 0, thread_hrt := 0, thread_timeout := 0\<rparr>) S"
  have "schedules spd thd_id ?R" using s by (auto simp: schedules_def)
  then have "op' \<noteq> Other_operation \<longrightarrow> sched_thread_lookup spd thd_id op' ?R = Some 0" for op'
    using lookup_scheduled [of spd thd_id ?R op'] by (cases op') simp_all
  moreover have "sched_thread_remove spd thd_id S = Some (0, ?R)" using scheduledD [OF s] by (simp add: sched_thread_remove_def)
  moreover have "nat (thd_id - 1) \<notin> set (tracked spd 0 ?R)" by (simp add: tracked_def)
  ultimately show ?thesis by blast
qed

text \<open>
  The rebooted scheduler walks the threads with \<^verbatim>\<open>COS_SCHED_INTRO_THD_FIRST\<close>, each time from the number
  the last call returned. Since thread numbers are one more than indexes, the walk goes on behind
  the thread it found, and one turn finds one of the threads counted.
\<close>

lemma tracked_next:
  assumes "0 \<le> k" "tracked spd k S = i # ts"
  shows "ts = tracked spd (int i + 1) S"
proof -
  let ?P = "\<lambda>i. thread_dest (sched_info S i (nat (sched_depth S spd))) > 0"
  have "filter ?P (map nat [k..m]) = i # ts \<Longrightarrow> ts = filter ?P (map nat [int i + 1..m])" if "0 \<le> k" for k m
    using that by (induction k m rule: upto.induct) (subst (asm) upto.simps, auto split: if_splits)
  from this [OF assms(1)] assms(2) show ?thesis by (simp add: tracked_def)
qed

lemma tracked_bounds: "0 \<le> k \<Longrightarrow> i \<in> set (tracked spd k S) \<Longrightarrow> k \<le> int i \<and> int i < MAX_NUM_THREADS"
  by (auto simp: tracked_def)

definition valid_depth :: "nat \<Rightarrow> sched_kernel \<Rightarrow> bool" where
  "valid_depth spd S \<longleftrightarrow> 0 < sched_depth S spd \<and> sched_depth S spd < MAX_SCHED_HIER_DEPTH"

lemma sched_thread_info_first:
  assumes "valid_depth spd S" "0 \<le> k" "\<And>i. thread_id (threads (kern S) i) = i + 1"
  shows "sched_thread_info spd k True True S = Some (case tracked spd k S of [] \<Rightarrow> 0 | i # _ \<Rightarrow> int i + 1)"
  using assms by (auto simp: sched_thread_info_def valid_depth_def split: list.split)

definition record_of :: "nat \<Rightarrow> sched_kernel \<Rightarrow> nat \<Rightarrow> sched_thd_record" where
  "record_of spd S t = (let i = sched_info S t (nat (sched_depth S spd)) in
     \<lparr>rec_id = int t + 1, rec_type = thread_metric i mod 256, rec_init_data = thread_metric i div 256 mod 256,
      rec_value = thread_metric i div 65536 mod 65536, rec_dest = thread_dest i, rec_fn = thread_fn i, rec_d = thread_d i,
      rec_param = thread_param i, rec_timeout = thread_timeout i\<rparr>)"

fun restore_all :: "(sched_thd_record \<Rightarrow> 'w \<Rightarrow> 'w option) \<Rightarrow> sched_thd_record list \<Rightarrow> 'w \<Rightarrow> 'w option" where
  "restore_all restore [] w = Some w"
| "restore_all restore (r # rs) w = Option.bind (restore r w) (restore_all restore rs)"

lemma sched_thd_introspect_record:
  assumes "schedules spd (int t + 1) S" "thread_metric (sched_info S t (nat (sched_depth S spd))) \<noteq> 0"
    "0 < thread_dest (sched_info S t (nat (sched_depth S spd)))"
  shows "sched_thd_introspect spd (int t + 1) S = Some (record_of spd S t)"
  using assms by (simp add: sched_thd_introspect_def lookup_scheduled record_of_def Let_def)

lemma sched_recover_from_tracked:
  assumes "valid_depth spd S" "0 \<le> k" "\<And>i. thread_id (threads (kern S) i) = i + 1"
    "\<And>t. t \<in> set (tracked spd k S) \<Longrightarrow> schedules spd (int t + 1) S \<and> thread_metric (sched_info S t (nat (sched_depth S spd))) \<noteq> 0"
  shows "sched_recover_from restore spd S (case tracked spd k S of [] \<Rightarrow> 0 | i # _ \<Rightarrow> int i + 1) w =
    restore_all restore (map (record_of spd S) (tracked spd k S)) w"
  using assms(2, 4)
proof (induction "tracked spd k S" arbitrary: k w)
  case Nil
  then show ?case by (simp add: sched_recover_from.simps flip: Nil.hyps)
next
  case (Cons t ts)
  have t: "t \<in> set (tracked spd k S)" by (simp flip: Cons.hyps(2))
  have ts: "ts = tracked spd (int t + 1) S" by (rule tracked_next [OF Cons.prems(1) Cons.hyps(2) [symmetric]])
  have r: "sched_thd_introspect spd (int t + 1) S = Some (record_of spd S t)"
    using Cons.prems(2) [OF t] t by (intro sched_thd_introspect_record) (auto simp: tracked_def)
  have n: "sched_thread_info spd (int t + 1) True True S = Some (case ts of [] \<Rightarrow> 0 | i # _ \<Rightarrow> int i + 1)"
    unfolding ts by (rule sched_thread_info_first [OF assms(1) _ assms(3)]) simp
  have m: "schedules spd (int t' + 1) S \<and> thread_metric (sched_info S t' (nat (sched_depth S spd))) \<noteq> 0" if "t' \<in> set ts" for t'
    using Cons.prems(2) [of t'] that by (simp flip: Cons.hyps(2))
  have IH: "sched_recover_from restore spd S (case ts of [] \<Rightarrow> 0 | i # _ \<Rightarrow> int i + 1) w' = restore_all restore (map (record_of spd S) ts) w'" for w'
    using Cons.hyps(1) [OF ts, of w'] m unfolding ts by simp
  have "(case ts of [] \<Rightarrow> 0 | i # _ \<Rightarrow> int i + 1) \<noteq> (- 1 :: int)" by (simp split: list.split)
  then show ?case
    unfolding Cons.hyps(2) [symmetric] by (subst sched_recover_from.simps) (simp add: r n IH cong: option.case_cong)
qed

text \<open>
  C23: the rebooted scheduler restores every thread that was recorded for it exactly once, in the
  order of the thread numbers, with what was recorded last, and its loop ends.
\<close>

theorem sched_recovery_restores_all:
  assumes "valid_depth spd S" "\<And>i. thread_id (threads (kern S) i) = i + 1"
    "\<And>t. t \<in> set (tracked spd 0 S) \<Longrightarrow> schedules spd (int t + 1) S \<and> thread_metric (sched_info S t (nat (sched_depth S spd))) \<noteq> 0"
  shows "sched_recover_threads restore spd S w = restore_all restore (map (record_of spd S) (tracked spd 0 S)) w \<and>
    sorted_wrt (<) (tracked spd 0 S) \<and>
    (\<forall>t. t \<in> set (tracked spd 0 S) \<longleftrightarrow> int t < MAX_NUM_THREADS \<and> thread_dest (sched_info S t (nat (sched_depth S spd))) > 0)"
proof (intro conjI allI)
  show "sched_recover_threads restore spd S w = restore_all restore (map (record_of spd S) (tracked spd 0 S)) w"
    unfolding sched_recover_threads_def sched_thread_info_first [OF assms(1) order_refl assms(2)]
    using sched_recover_from_tracked [OF assms(1) order_refl assms(2, 3)] by simp
  have "sorted_wrt (<) (map nat [0..m])" for m
    by (simp add: sorted_wrt_map) (rule sorted_wrt_mono_rel [OF _ sorted_wrt_upto], auto)
  then show "sorted_wrt (<) (tracked spd 0 S)" unfolding tracked_def by (rule sorted_wrt_filter)
  show "t \<in> set (tracked spd 0 S) \<longleftrightarrow> int t < MAX_NUM_THREADS \<and> thread_dest (sched_info S t (nat (sched_depth S spd))) > 0" for t
    by (auto simp: tracked_def image_iff intro!: bexI [of _ "int t"])
qed

definition ex_info :: "nat \<Rightarrow> thd_sched_info" where
  "ex_info t = \<lparr>scheduler = 4, thread_dest = (if t = 8 \<or> t = 30 then 6 else 0), thread_metric = (if t = 8 then 0x00050203 else 0x00070001),
     thread_fn = 0, thread_d = 0, thread_param = int t, thread_hrt = 1, thread_timeout = 0\<rparr>"

definition ex_sched :: sched_kernel where
  "ex_sched = \<lparr>kern = (ex_kernel 0 0)\<lparr>threads := (\<lambda>i. (threads (ex_kernel 0 0) i)\<lparr>thread_id := i + 1\<rparr>)\<rparr>,
     sched_depth = (\<lambda>_. 1), sched_info = (\<lambda>t _. ex_info t)\<rparr>"

lemma ex_tracked: "tracked 4 0 ex_sched = [8, 30]"
proof -
  have "filter (\<lambda>i. i = 8 \<or> i = 30) (map nat [0..127]) = [8, 30]" by code_simp
  then show ?thesis by (simp add: tracked_def ex_sched_def ex_info_def)
qed

theorem sched_recovery_restores_all_witness:
  "sched_recover_threads (\<lambda>r w. Some (w @ [(rec_id r, rec_type r, rec_init_data r, rec_value r, rec_dest r, rec_param r)])) 4 ex_sched [] =
    Some [(9, 3, 2, 5, 6, 8), (31, 1, 0, 7, 6, 30)]"
proof -
  let ?restore = "\<lambda>r w. Some (w @ [(rec_id r, rec_type r, rec_init_data r, rec_value r, rec_dest r, rec_param r)])"
  have "valid_depth 4 ex_sched" by (simp add: valid_depth_def ex_sched_def)
  moreover have "thread_id (threads (kern ex_sched) i) = i + 1" for i by (simp add: ex_sched_def)
  moreover have "schedules 4 (int t + 1) ex_sched \<and> thread_metric (sched_info ex_sched t (nat (sched_depth ex_sched 4))) \<noteq> 0"
    if "t \<in> set (tracked 4 0 ex_sched)" for t using that unfolding ex_tracked by (auto simp: schedules_def ex_sched_def ex_info_def)
  ultimately have "sched_recover_threads ?restore 4 ex_sched [] = restore_all ?restore (map (record_of 4 ex_sched) (tracked 4 0 ex_sched)) []"
    using sched_recovery_restores_all [of 4 ex_sched ?restore "[]"] by blast
  then show ?thesis unfolding ex_tracked by (simp add: record_of_def) (simp add: ex_sched_def ex_info_def)
qed

text \<open>
  \<^verbatim>\<open>COS_SCHED_BES_THD\<close>, for threads without a deadline, calls \<^verbatim>\<open>sched_thread_add\<close> with an operation the
  function does not know, which fails its assertion.
\<close>

lemma sched_best_effort_asserts: "schedules spd thd_id S \<Longrightarrow> sched_thread_add spd thd_id 0 Other_operation 0 S = None"
  using scheduledD [of spd thd_id S] by (simp add: sched_thread_add_def)

end
