(* ===== verification/Spec2Isabelle.thy ===== *)
theory Spec2Isabelle
  imports RingBuf LockStub SchedStub PteStub EvtStub MmStub TwoPhaseLock Heap SchedTrack
begin

text \<open>
  \<^bold>\<open>The program.\<close> SuperGlue is a version of the component-based operating system Composite in which
  system services survive faults. Components (\<^verbatim>\<open>src/src/components/implementation\<close>) call each other
  through interfaces (\<^verbatim>\<open>components/interface\<close>). When a service fails, the kernel counts the fault, a
  booter restarts the service, and every client finds out at its next call. The client side of an
  interface is a stub that is generated from a description of the interface: it keeps a descriptor for
  every object the client has at the server, and after a fault it uses the descriptors to bring the
  objects back before it repeats the call.

  A call that meets a fault goes through these parts, all of which are modelled:

  \<^item> the kernel detects that the capability is behind the fault counter of the server, and sends the
    thread to a fault handler (\<^verbatim>\<open>kernel/__inv_rec\<close>, \<^verbatim>\<open>kernel/include/recovery.h\<close>): \<open>KernelFault\<close>;
  \<^item> the handler takes the server off the invocation stack and moves the return address of the client
    to the fault label of its stub (\<^verbatim>\<open>pgfault/recov_poc/__pgfault_rec\<close>): \<open>KernelFault\<close>;
  \<^item> the stub updates the fault counter, recovers the descriptors that are behind and repeats the call
    (\<^verbatim>\<open>components/include/cstub.h\<close>, the files \<^verbatim>\<open>__IDL_c_stub.c\<close>): \<open>Cstub\<close> and the stub theories;
  \<^item> the descriptors are in slabs and are found through vectors and maps
    (\<^verbatim>\<open>cslab.h\<close>, \<^verbatim>\<open>cvect.h\<close>, \<^verbatim>\<open>cos_vect.h\<close>, \<^verbatim>\<open>cos_map.h\<close>, \<^verbatim>\<open>cos_alloc.c\<close>): \<open>Slab\<close>, \<open>Cvect\<close>, \<open>CosVect\<close>,
    \<open>CosMap\<close>, \<open>PagePool\<close>, \<open>DescTable\<close>.

  \<^bold>\<open>Conventions.\<close> A definition has the name of the function it models, with a prefix where several files
  have a function of the same name (\<open>lock_call_desc_alloc\<close>, \<open>evt_call_desc_alloc\<close>). State is a record
  that is passed along. The result \<open>None\<close> stands for a failed assertion, \<^verbatim>\<open>BUG()\<close>, a read through \<^verbatim>\<open>NULL\<close>
  or a loop that has used up its turns; error codes are integers, as in C. Addresses are integers.
  Counters and bit sets are words of their width, so that they wrap as in C. A loop \<^verbatim>\<open>redo:\<close> of a stub
  is \<open>redo n\<close>, which makes at most \<open>n\<close> turns; the C loop has no bound. Other loops that may run on are
  \<^verbatim>\<open>partial_function (option)\<close> or have a number of turns as an argument.

  \<^bold>\<open>Theories.\<close>

  \<^item> \<open>Prelude\<close>: assertions, the loop \<open>redo\<close> with its rules for total and partial correctness and for
    simulation, error codes.
  \<^item> \<open>Bitmap\<close>: \<^verbatim>\<open>components/include/bitmap.h\<close>. Bits, first set bit, contiguous runs; the correctness of
    each search, and a run of exactly the length asked for that is missed.
  \<^item> \<open>DList\<close>: \<^verbatim>\<open>cos_list.h\<close> and \<^verbatim>\<open>clist.h\<close>. Circular lists over explicit links; the locale \<open>ring_ops\<close> has
    what their clients use and is interpreted on both sets of macros.
  \<^item> \<open>PagePool\<close>: \<^verbatim>\<open>cpage_alloc.h\<close>, \<^verbatim>\<open>cos_alloc.c\<close> and \<^verbatim>\<open>kernel/page_pool.c\<close>. Pages are handed out once.
  \<^item> \<open>Cvect\<close>, \<open>CosVect\<close>, \<open>CosMap\<close>: the radix vectors and the id map. What a lookup returns after an add or
    a delete, that no page is lost or shared, that an id that is handed out was free.
  \<^item> \<open>Slab\<close>: \<^verbatim>\<open>cslab.h\<close>. An object is handed out once, objects do not overlap, an object that is freed can
    be had again; the invariant ties bitmaps, the list of slabs with free objects and the page pool.
  \<^item> \<open>RingBuf\<close>: \<^verbatim>\<open>cringbuf.h\<close>. What is produced is consumed in order across the wrap.
  \<^item> \<open>DescTable\<close>: the functions \<^verbatim>\<open>call_desc_lookup\<close>, \<^verbatim>\<open>call_desc_alloc\<close>, \<^verbatim>\<open>call_desc_dealloc\<close> that all stubs
    share. The locales \<open>desc_table\<close>, \<open>desc_map\<close> and \<open>desc_vect\<close> are the contracts; every stub interprets
    the one for its kind of table.
  \<^item> \<open>Cstub\<close>: \<^verbatim>\<open>cstub.h\<close> and the shape of a generated stub function. The server, the kernel and other
    components are the record \<open>env\<close>, an argument. \<open>fails_within E b\<close> says that a server fails finitely
    often; the rules \<open>cstub_redo_total\<close> and \<open>cstub_redo_partial\<close> reduce a stub function to its parts.
  \<^item> \<open>LockStub\<close>, \<open>SchedStub\<close>, \<open>PteStub\<close>, \<open>EvtStub\<close>, \<open>MmStub\<close>: the generated stubs of the lock, scheduler, periodic
    wakeup, event and memory manager interfaces, and hand-written versions of two of them. They come
    back when the server fails finitely often; the lock and event stubs implement specifications in
    which faults cannot be seen; what is restored, and in which order, is stated per interface; the
    generated and the hand-written stubs are compared. Where recovery is wrong the theories prove it.
  \<^item> \<open>LockServer\<close>: the lock service \<^verbatim>\<open>implementation/lock/two_phase/__lock_rec\<close>.
  \<^item> \<open>TwoPhaseLock\<close>: the locks in \<^verbatim>\<open>cos_synchronization.h\<close> and \<^verbatim>\<open>cos_synchronization.c\<close> on top of it. Threads
    take steps in any order, one access to shared state each, and a run is a schedule. Mutual
    exclusion, which assertions can fail, that no wakeup is lost with two threads, and a run with
    three in which one is. The locales \<open>lock_service\<close> and \<open>live_lock_service\<close> are what the client part needs
    of the server; both are interpreted on \<open>LockServer\<close>.
  \<^item> \<open>Heap\<close>: \<^verbatim>\<open>components/lib/heap.c\<close>. Refinement to multisets, and sorting; the comparison and the
    callback with the position are arguments with the laws of the locale \<open>heap_client\<close>.
  \<^item> \<open>KernelFault\<close>: invocation stacks (\<^verbatim>\<open>kernel/include/__thread_rec\<close>), fault counters (\<^verbatim>\<open>recovery.h\<close>),
    invocation, return and fault notification (\<^verbatim>\<open>kernel/__inv_rec\<close>) and the fault handlers, composed: an
    invocation of a failed component reaches the fault label, a page fault does, and one update by the
    stub makes the next invocation enter the server.
  \<^item> \<open>SchedTrack\<close>: what the kernel records of threads for a scheduler (\<^verbatim>\<open>recovery.h\<close>) and the loop of the
    rebooted scheduler (\<^verbatim>\<open>__cos_sched_base_rec\<close>), which restores every thread once.

  \<^bold>\<open>Bounds.\<close> The turns given to \<open>redo\<close> are enough when they exceed the number of failures left
  (\<open>redo_total\<close>), and more turns do not change the result (\<open>redo_fuel\<close>); the theorems that a call comes
  back have this as a hypothesis and no other bound. The three turns of \<^verbatim>\<open>call_desc_alloc\<close> are proved to
  be enough. The walks over lists of copies in \<open>MmStub\<close> take one turn more than there are copies. The
  nesting of fault handlers in \<open>KernelFault\<close> is bounded by the argument of \<open>ipc_walk_static_cap\<close>; the
  properties hold from 2 on, since the handler itself has not failed. The result that a revoke of
  nested copies does not return is proved for every number of turns.

  \<^bold>\<open>Not modelled.\<close> Services other than the lock server (the event, memory, timer and file servers and the
  schedulers) are arguments of the stubs that call them, with what the stubs rely on as hypotheses. The
  rest of the kernel (page tables, interrupts, upcalls, thread switches) and the platform are assembly
  or depend on the hardware; the parts of them that the model needs are the fields of the record
  \<open>platform\<close>. The interface of the file system, which passes strings in shared buffers, the shared
  buffers themselves, the stack manager, the network components, benchmarks, the loader, scripts and
  third-party libraries are left out. Printing, time stamps and measurements have no effect on the state
  and are left out of the definitions. Concurrency inside one component is modelled for the locks only;
  stubs and data structures are called by one thread at a time, as their callers arrange it.
\<close>

end
